theory Spec2Isabelle
  imports Complex_Main "HOL-Library.Monad_Syntax"
begin

section \<open>Static configuration (constants.ts, types.ts)\<close>

text \<open>
  JavaScript numbers are modelled as \<open>int\<close> where the program only ever holds integers
  (coordinates, hit points, gold, population, tick counters) and as \<open>rat\<close> where halves
  occur (the food stock, the wave scaling factors); doubles represent both exactly in the
  ranges the game reaches.
\<close>

datatype BuildingType = Road | House | Farm | Well | Market | Barracks | Wall | Tower | Forum

record BuildingDef =
  cost :: int
  bsize :: int
  bhp :: int

fun BUILDINGS :: "BuildingType \<Rightarrow> BuildingDef" where
  "BUILDINGS Road = \<lparr>cost = 5, bsize = 1, bhp = 10\<rparr>"
| "BUILDINGS House = \<lparr>cost = 30, bsize = 1, bhp = 20\<rparr>"
| "BUILDINGS Farm = \<lparr>cost = 50, bsize = 2, bhp = 15\<rparr>"
| "BUILDINGS Well = \<lparr>cost = 20, bsize = 1, bhp = 15\<rparr>"
| "BUILDINGS Market = \<lparr>cost = 80, bsize = 1, bhp = 25\<rparr>"
| "BUILDINGS Barracks = \<lparr>cost = 100, bsize = 2, bhp = 40\<rparr>"
| "BUILDINGS Wall = \<lparr>cost = 10, bsize = 1, bhp = 50\<rparr>"
| "BUILDINGS Tower = \<lparr>cost = 60, bsize = 1, bhp = 30\<rparr>"
| "BUILDINGS Forum = \<lparr>cost = 0, bsize = 2, bhp = 100\<rparr>"

definition GRID_SIZE :: int where "GRID_SIZE = 32"
definition STARTING_GOLD :: int where "STARTING_GOLD = 500"
definition FARM_FOOD_RATE :: int where "FARM_FOOD_RATE = 4"
definition FOOD_PER_POP :: rat where "FOOD_PER_POP = 1 / 2"
definition TAX_RATE :: int where "TAX_RATE = 2"
definition MAX_POP_PER_HOUSE :: int where "MAX_POP_PER_HOUSE = 10"
definition GROWTH_RATE :: int where "GROWTH_RATE = 3"
definition TOWER_RANGE :: int where "TOWER_RANGE = 6"
definition TOWER_DAMAGE :: int where "TOWER_DAMAGE = 3"

section \<open>Tile and Grid (world/Tile.ts, world/Grid.ts)\<close>

record Tile =
  tile_x :: int
  tile_z :: int
  building :: "BuildingType option"
  buildingHp :: int
  hasWater :: bool
  hasFood :: bool
  waterTimer :: int
  foodTimer :: int

definition new_Tile :: "int \<Rightarrow> int \<Rightarrow> Tile" where
  "new_Tile px pz = \<lparr>tile_x = px, tile_z = pz, building = None, buildingHp = 0,
     hasWater = False, hasFood = False, waterTimer = 0, foodTimer = 0\<rparr>"

record Grid =
  gsize :: int
  tiles :: "Tile list list"

text \<open>The loop counters \<open>0 .. n - 1\<close> of a \<open>for\<close> loop, in order.\<close>

definition offsets :: "int \<Rightarrow> int list" where
  "offsets n = map int [0..<nat n]"

definition new_row :: "int \<Rightarrow> int \<Rightarrow> Tile list" where
  "new_row n px = map (\<lambda>pz. new_Tile px pz) (offsets n)"

definition new_Grid :: "int \<Rightarrow> Grid" where
  "new_Grid n = \<lparr>gsize = n, tiles = map (new_row n) (offsets n)\<rparr>"

definition isInBounds :: "Grid \<Rightarrow> int \<Rightarrow> int \<Rightarrow> bool" where
  "isInBounds g px pz \<longleftrightarrow> px \<ge> 0 \<and> px < gsize g \<and> pz \<ge> 0 \<and> pz < gsize g"

definition getTile :: "Grid \<Rightarrow> int \<Rightarrow> int \<Rightarrow> Tile option" where
  "getTile g px pz =
     (if \<not> isInBounds g px pz then None else Some (tiles g ! nat px ! nat pz))"

text \<open>
  The program mutates the tile object that \<open>getTile\<close> hands out; the model writes the
  changed tile back at the same indices. Out of bounds \<open>getTile\<close> is null and every
  caller skips the write.
\<close>

definition modTile :: "(Tile \<Rightarrow> Tile) \<Rightarrow> int \<times> int \<Rightarrow> Grid \<Rightarrow> Grid" where
  "modTile f c g =
     (case c of (px, pz) \<Rightarrow>
        if \<not> isInBounds g px pz then g
        else g\<lparr>tiles := (tiles g)[nat px := (tiles g ! nat px)[nat pz := f (tiles g ! nat px ! nat pz)]]\<rparr>)"

text \<open>
  What the constructor and \<open>fromJSON\<close> establish: there are \<open>size\<close> rows and each holds
  at least \<open>size\<close> tiles.
\<close>

definition wf_grid :: "Grid \<Rightarrow> bool" where
  "wf_grid g \<longleftrightarrow> int (length (tiles g)) = gsize g \<and>
     list_all (\<lambda>row. gsize g \<le> int (length row)) (tiles g)"

section \<open>Construction manager (systems/BuildingSystem.ts)\<close>

record PlacedBuilding =
  pb_type :: BuildingType
  pb_x :: int
  pb_z :: int

text \<open>
  The meshes and the scene are rendering state and are left out; what remains of the
  BuildingSystem object is its list of placed buildings.
\<close>

type_synonym BuildingSystem = "PlacedBuilding list"

text \<open>The cells visited by the nested loops over \<open>dx\<close> (outer) and \<open>dz\<close> (inner).\<close>

definition footprint :: "int \<Rightarrow> int \<Rightarrow> int \<Rightarrow> (int \<times> int) list" where
  "footprint px pz n = concat (map (\<lambda>dx. map (\<lambda>dz. (px + dx, pz + dz)) (offsets n)) (offsets n))"

definition cellFree :: "Grid \<Rightarrow> int \<times> int \<Rightarrow> bool" where
  "cellFree g c =
     (case c of (cx, cz) \<Rightarrow>
        if \<not> isInBounds g cx cz then False
        else (case getTile g cx cz of None \<Rightarrow> False | Some t \<Rightarrow> building t = None))"

definition canPlace :: "Grid \<Rightarrow> BuildingType \<Rightarrow> int \<Rightarrow> int \<Rightarrow> bool" where
  "canPlace g type px pz = list_all (cellFree g) (footprint px pz (bsize (BUILDINGS type)))"

definition markTile :: "BuildingType \<Rightarrow> Tile \<Rightarrow> Tile" where
  "markTile type t = t\<lparr>building := Some type, buildingHp := bhp (BUILDINGS type)\<rparr>"

text \<open>
  \<open>place\<close> returns its boolean together with the three things it may mutate: the list of
  placed buildings, the grid and the funds (the gold reference). Rebuilding the neighbouring wall and
  tower meshes replaces meshes only and is omitted.
\<close>

definition place ::
  "BuildingSystem \<Rightarrow> Grid \<Rightarrow> BuildingType \<Rightarrow> int \<Rightarrow> int \<Rightarrow> int \<Rightarrow> bool \<times> BuildingSystem \<times> Grid \<times> int" where
  "place bs g type px pz funds =
     (let d = BUILDINGS type in
      if funds < cost d then (False, bs, g, funds)
      else if \<not> canPlace g type px pz then (False, bs, g, funds)
      else (True,
            bs @ [\<lparr>pb_type = type, pb_x = px, pb_z = pz\<rparr>],
            fold (modTile (markTile type)) (footprint px pz (bsize d)) g,
            funds - cost d))"


definition covers :: "int \<Rightarrow> int \<Rightarrow> PlacedBuilding \<Rightarrow> bool" where
  "covers px pz b \<longleftrightarrow>
     (let d = BUILDINGS (pb_type b) in
      px \<ge> pb_x b \<and> px < pb_x b + bsize d \<and> pz \<ge> pb_z b \<and> pz < pb_z b + bsize d)"

text \<open>\<open>Array.prototype.findIndex\<close>: the first index whose element passes, or none (-1).\<close>

fun findIndex :: "('a \<Rightarrow> bool) \<Rightarrow> 'a list \<Rightarrow> nat option" where
  "findIndex P [] = None"
| "findIndex P (b # bs) =
     (if P b then Some 0 else (case findIndex P bs of None \<Rightarrow> None | Some i \<Rightarrow> Some (Suc i)))"

definition findBuildingAt :: "BuildingSystem \<Rightarrow> int \<Rightarrow> int \<Rightarrow> PlacedBuilding option" where
  "findBuildingAt bs px pz = find (covers px pz) bs"

definition clearTile :: "Tile \<Rightarrow> Tile" where
  "clearTile t = t\<lparr>building := None, buildingHp := 0\<rparr>"

text \<open>\<open>splice(idx, 1)\<close> removes the element at \<open>idx\<close>.\<close>

definition splice1 :: "nat \<Rightarrow> 'a list \<Rightarrow> 'a list" where
  "splice1 i xs = take i xs @ drop (Suc i) xs"

definition removeBuildingAt :: "BuildingSystem \<Rightarrow> Grid \<Rightarrow> int \<Rightarrow> int \<Rightarrow> BuildingSystem \<times> Grid" where
  "removeBuildingAt bs g px pz =
     (case findIndex (covers px pz) bs of
        None \<Rightarrow> (bs, g)
      | Some idx \<Rightarrow>
          (let b = bs ! idx; d = BUILDINGS (pb_type b) in
           (splice1 idx bs,
            fold (modTile clearTile) (footprint (pb_x b) (pb_z b) (bsize d)) g)))"

section \<open>Randomness\<close>

text \<open>
  \<open>Math.random()\<close> is a global source of numbers in \<open>[0, 1)\<close>. The model threads the
  stream of future draws through every function that draws: \<open>draw\<close> returns the next
  number and the remaining stream.
\<close>

type_synonym Rng = "nat \<Rightarrow> rat"

definition draw :: "Rng \<Rightarrow> rat \<times> Rng" where
  "draw rng = (rng 0, \<lambda>n. rng (Suc n))"

text \<open>
  Numbers are IEEE 754 doubles, and a product is rounded to the nearest double, ties to
  the even significand. \<open>binade x\<close> is the exponent \<open>e\<close> with \<open>2^e \<le> x < 2^(e+1)\<close>,
  \<open>roundEven\<close> rounds to the nearest integer, ties to even, and \<open>roundDouble x\<close> is \<open>x\<close>
  rounded to a significand of 53 bits. The exponent range is not modelled: the products
  formed here are far below overflow, and the product of a double below the normal range
  with a natural number is exact.
\<close>

function binade :: "rat \<Rightarrow> int" where
  "binade x = (if x \<le> 0 then 0
               else if x < 1 then binade (2 * x) - 1
               else if 2 \<le> x then binade (x / 2) + 1
               else 0)"
  by pat_completeness auto
termination
proof (relation "measure (\<lambda>x. if x < 1 then nat \<lceil>1 / x\<rceil> else nat \<lfloor>x\<rfloor>)")
  show "wf (measure (\<lambda>x::rat. if x < 1 then nat \<lceil>1 / x\<rceil> else nat \<lfloor>x\<rfloor>))" by simp
next
  fix x :: rat
  assume a: "\<not> x \<le> 0" "x < 1"
  then have x: "0 < x" by simp
  have c2: "2 \<le> \<lceil>1 / x\<rceil>"
  proof -
    have "1 < 1 / x" using a x by simp
    then have "1 < \<lceil>1 / x\<rceil>" by (simp add: less_ceiling_iff)
    then show ?thesis by simp
  qed
  show "(2 * x, x) \<in> measure (\<lambda>x. if x < 1 then nat \<lceil>1 / x\<rceil> else nat \<lfloor>x\<rfloor>)"
  proof (cases "2 * x < 1")
    case True
    have "1 / (2 * x) = (1 / x) / 2" by simp
    also have "\<dots> \<le> of_int \<lceil>1 / x\<rceil> / 2" by (simp add: divide_right_mono)
    finally have "\<lceil>1 / (2 * x)\<rceil> \<le> \<lceil>(of_int \<lceil>1 / x\<rceil> :: rat) / 2\<rceil>" by (rule ceiling_mono)
    also have "\<dots> < \<lceil>1 / x\<rceil>"
    proof -
      have "(of_int \<lceil>1 / x\<rceil> :: rat) / 2 \<le> of_int (\<lceil>1 / x\<rceil> - 1)" using c2 by simp
      then have "\<lceil>(of_int \<lceil>1 / x\<rceil> :: rat) / 2\<rceil> \<le> \<lceil>1 / x\<rceil> - 1" by (simp only: ceiling_le_iff)
      then show ?thesis by simp
    qed
    finally have lt: "\<lceil>1 / (2 * x)\<rceil> < \<lceil>1 / x\<rceil>" .
    have "nat \<lceil>1 / (2 * x)\<rceil> < nat \<lceil>1 / x\<rceil>" using lt c2 by linarith
    then show ?thesis using True a by simp
  next
    case False
    have "\<lfloor>2 * x\<rfloor> = 1" using False a by (simp add: floor_eq_iff)
    then show ?thesis using False a c2 by simp
  qed
next
  fix x :: rat
  assume a: "\<not> x \<le> 0" "\<not> x < 1" "2 \<le> x"
  have "\<lfloor>x / 2\<rfloor> < \<lfloor>x\<rfloor>"
  proof -
    have "x / 2 \<le> x - 1" using a by simp
    then have "\<lfloor>x / 2\<rfloor> \<le> \<lfloor>x - 1\<rfloor>" by (rule floor_mono)
    then show ?thesis by simp
  qed
  moreover have "0 < \<lfloor>x\<rfloor>" using a by simp
  ultimately have "nat \<lfloor>x / 2\<rfloor> < nat \<lfloor>x\<rfloor>" by simp
  then show "(x / 2, x) \<in> measure (\<lambda>x. if x < 1 then nat \<lceil>1 / x\<rceil> else nat \<lfloor>x\<rfloor>)"
    using a by simp
qed

declare binade.simps [simp del]

definition roundEven :: "rat \<Rightarrow> int" where
  "roundEven x =
     (let f = \<lfloor>x\<rfloor>; d = x - of_int f
      in if d < 1 / 2 then f else if 1 / 2 < d then f + 1 else if even f then f else f + 1)"

definition roundDouble :: "rat \<Rightarrow> rat" where
  "roundDouble x =
     (if x = 0 then 0
      else (let u = 2 powi (binade \<bar>x\<bar> - 52)
            in sgn x * (of_int (roundEven (\<bar>x\<bar> / u)) * u)))"

text \<open>
  \<open>pickRandom r xs\<close> is \<open>xs[Math.floor(r * xs.length)]\<close>: the product is a double product.
\<close>

definition randomIndex :: "rat \<Rightarrow> nat \<Rightarrow> nat" where
  "randomIndex r n = nat \<lfloor>roundDouble (r * of_nat n)\<rfloor>"

definition pickRandom :: "rat \<Rightarrow> 'a list \<Rightarrow> 'a" where
  "pickRandom r xs = xs ! randomIndex r (length xs)"

section \<open>Connectivity engine (world/Pathfinding.ts)\<close>

definition NEIGHBORS :: "(int \<times> int) list" where
  "NEIGHBORS = [(1, 0), (-1, 0), (0, 1), (0, -1)]"

definition neighborsOf :: "int \<Rightarrow> int \<Rightarrow> (int \<times> int) list" where
  "neighborsOf px pz = map (\<lambda>(dx, dz). (px + dx, pz + dz)) NEIGHBORS"

definition isRoadOrForum :: "Grid \<Rightarrow> int \<times> int \<Rightarrow> bool" where
  "isRoadOrForum g c =
     (case getTile g (fst c) (snd c) of
        None \<Rightarrow> False
      | Some t \<Rightarrow> building t = Some Road \<or> building t = Some Forum)"

definition inBoundsCells :: "Grid \<Rightarrow> (int \<times> int) set" where
  "inBoundsCells g = {c. isInBounds g (fst c) (snd c)}"

lemma finite_inBoundsCells: "finite (inBoundsCells g)"
proof -
  have "inBoundsCells g \<subseteq> {0..<gsize g} \<times> {0..<gsize g}"
    by (auto simp: inBoundsCells_def isInBounds_def)
  then show ?thesis by (rule finite_subset) simp
qed

text \<open>
  \<open>floodFillRoads\<close>: the queue is a list, \<open>shift\<close> takes its head, \<open>push\<close> appends. The
  set of visited keys \<open>"x,z"\<close> is a set of pairs.
\<close>

function floodFillLoop :: "Grid \<Rightarrow> (int \<times> int) list \<Rightarrow> (int \<times> int) set \<Rightarrow> (int \<times> int) set" where
  "floodFillLoop g [] visited = visited"
| "floodFillLoop g (c # queue) visited =
     (if c \<in> visited then floodFillLoop g queue visited
      else if \<not> isInBounds g (fst c) (snd c) then floodFillLoop g queue visited
      else if \<not> isRoadOrForum g c then floodFillLoop g queue visited
      else floodFillLoop g (queue @ neighborsOf (fst c) (snd c)) (insert c visited))"
  by pat_completeness auto
termination
proof (relation "measure (\<lambda>(g, queue, visited). 5 * card (inBoundsCells g - visited) + length queue)")
  show "wf (measure (\<lambda>(g, queue, visited). 5 * card (inBoundsCells g - visited) + length queue))"
    by simp
next
  fix g :: Grid and c :: "int \<times> int" and queue visited
  assume a: "c \<notin> visited" "\<not> \<not> isInBounds g (fst c) (snd c)"
  then have mem: "c \<in> inBoundsCells g - visited" by (simp add: inBoundsCells_def)
  have fin: "finite (inBoundsCells g - visited)" using finite_inBoundsCells by simp
  have "inBoundsCells g - insert c visited = (inBoundsCells g - visited) - {c}" by auto
  then have "card (inBoundsCells g - insert c visited) = card (inBoundsCells g - visited) - 1"
    using mem fin by simp
  moreover have "card (inBoundsCells g - visited) > 0"
    using mem fin by (metis card_gt_0_iff empty_iff)
  ultimately show "((g, queue @ neighborsOf (fst c) (snd c), insert c visited), (g, c # queue, visited))
      \<in> measure (\<lambda>(g, queue, visited). 5 * card (inBoundsCells g - visited) + length queue)"
    by (simp add: neighborsOf_def NEIGHBORS_def)
qed auto

definition floodFillRoads :: "Grid \<Rightarrow> int \<Rightarrow> int \<Rightarrow> (int \<times> int) set" where
  "floodFillRoads g startX startZ = floodFillLoop g [(startX, startZ)] {}"

definition isBuildingConnected :: "Grid \<Rightarrow> int \<Rightarrow> int \<Rightarrow> int \<Rightarrow> (int \<times> int) set \<Rightarrow> bool" where
  "isBuildingConnected g bx bz n reachable =
     list_ex (\<lambda>c. list_ex (\<lambda>nb. nb \<in> reachable) (neighborsOf (fst c) (snd c))) (footprint bx bz n)"

text \<open>
  \<open>getAdjacentRoadTiles\<close>: the perimeter cells in loop order, each looked at once (the
  \<open>seen\<close> set), those inside the footprint skipped.
\<close>

definition adjacentStep ::
  "Grid \<Rightarrow> int \<Rightarrow> int \<Rightarrow> int \<Rightarrow> int \<times> int \<Rightarrow> (int \<times> int) list \<times> (int \<times> int) set
     \<Rightarrow> (int \<times> int) list \<times> (int \<times> int) set" where
  "adjacentStep g px pz n nb acc =
     (case acc of (result, seen) \<Rightarrow>
        if nb \<in> seen then (result, seen)
        else if fst nb \<ge> px \<and> fst nb < px + n \<and> snd nb \<ge> pz \<and> snd nb < pz + n
          then (result, insert nb seen)
        else if isRoadOrForum g nb then (result @ [nb], insert nb seen)
        else (result, insert nb seen))"

definition getAdjacentRoadTiles :: "Grid \<Rightarrow> int \<Rightarrow> int \<Rightarrow> int \<Rightarrow> (int \<times> int) list" where
  "getAdjacentRoadTiles g px pz n =
     fst (fold (adjacentStep g px pz n)
            (concat (map (\<lambda>c. neighborsOf (fst c) (snd c)) (footprint px pz n))) ([], {}))"

definition getRoadNeighbors :: "Grid \<Rightarrow> int \<Rightarrow> int \<Rightarrow> (int \<times> int) list" where
  "getRoadNeighbors g px pz = filter (isRoadOrForum g) (neighborsOf px pz)"

section \<open>Invasion engine (systems/InvasionSystem.ts)\<close>

datatype InvaderState = Moving | Attacking | Dead

text \<open>
  The fields of an invader keep their names, with the prefix \<open>inv_\<close> where a walker or a
  tile has a field of the same name. The mesh is left out.
\<close>

record Invader =
  inv_x :: int
  inv_z :: int
  inv_targetX :: int
  inv_targetZ :: int
  inv_progress :: rat
  inv_hp :: int
  maxHp :: int
  damage :: int
  inv_state :: InvaderState
  attackCooldown :: int
  path :: "(int \<times> int) list"
  pathIndex :: int

definition FIRST_WAVE_DELAY :: int where "FIRST_WAVE_DELAY = 30"
definition BASE_WAVE_INTERVAL :: int where "BASE_WAVE_INTERVAL = 25"
definition WAVE_ACCELERATION :: int where "WAVE_ACCELERATION = 1"
definition MIN_WAVE_INTERVAL :: int where "MIN_WAVE_INTERVAL = 12"
definition BASE_INVADERS :: int where "BASE_INVADERS = 1"
definition INVADER_SCALING :: rat where "INVADER_SCALING = 3 / 2"
definition BARBARIAN_BASE_HP :: int where "BARBARIAN_BASE_HP = 8"
definition BARBARIAN_HP_SCALING :: int where "BARBARIAN_HP_SCALING = 3"
definition BARBARIAN_BASE_DAMAGE :: int where "BARBARIAN_BASE_DAMAGE = 2"
definition BARBARIAN_DAMAGE_SCALING :: rat where "BARBARIAN_DAMAGE_SCALING = 1 / 2"
definition ATTACK_COOLDOWN :: int where "ATTACK_COOLDOWN = 3"

record InvasionSystem =
  invaders :: "Invader list"
  waveNumber :: int
  ticksUntilNextWave :: int
  inv_forumPos :: "int \<times> int"
  warningActive :: bool
  activeWave :: bool

definition new_InvasionSystem :: "int \<times> int \<Rightarrow> InvasionSystem" where
  "new_InvasionSystem fp = \<lparr>invaders = [], waveNumber = 0, ticksUntilNextWave = FIRST_WAVE_DELAY,
     inv_forumPos = fp, warningActive = False, activeWave = False\<rparr>"

subsection \<open>Routing: computePath\<close>

text \<open>
  \<open>visited\<close> is the JavaScript \<open>Map\<close> from a cell key to the cell it was reached from;
  the start is mapped to null, modelled as \<open>Some None\<close>.
\<close>

type_synonym Visited = "(int \<times> int) \<Rightarrow> (int \<times> int) option option"

definition reachedForum :: "int \<times> int \<Rightarrow> int \<times> int \<Rightarrow> bool" where
  "reachedForum target cur =
     list_ex (\<lambda>c. cur = c) (footprint (fst target) (snd target) (bsize (BUILDINGS Forum)))"

definition visitNeighbor ::
  "Grid \<Rightarrow> int \<times> int \<Rightarrow> int \<times> int \<Rightarrow> Visited \<times> (int \<times> int) list \<Rightarrow> Visited \<times> (int \<times> int) list" where
  "visitNeighbor g cur next acc =
     (case acc of (visited, queue) \<Rightarrow>
        if visited next \<noteq> None then (visited, queue)
        else if \<not> isInBounds g (fst next) (snd next) then (visited, queue)
        else (case getTile g (fst next) (snd next) of
                Some tile \<Rightarrow>
                  if building tile = Some Wall
                  then (visited(next \<mapsto> Some cur), queue @ [next])
                  else (visited(next \<mapsto> Some cur), queue @ [next])
              | None \<Rightarrow> (visited(next \<mapsto> Some cur), queue @ [next])))"

definition bfsMeasure :: "Grid \<Rightarrow> Visited \<Rightarrow> (int \<times> int) list \<Rightarrow> nat" where
  "bfsMeasure g visited queue = 2 * card (inBoundsCells g - dom visited) + length queue"

lemma bfsMeasure_visitNeighbor:
  "bfsMeasure g (fst (visitNeighbor g cur next (visited, queue)))
                (snd (visitNeighbor g cur next (visited, queue))) \<le> bfsMeasure g visited queue"
proof (cases "visited next \<noteq> None \<or> \<not> isInBounds g (fst next) (snd next)")
  case True
  then show ?thesis by (auto simp: visitNeighbor_def)
next
  case False
  then have mem: "next \<in> inBoundsCells g - dom visited"
    by (auto simp: inBoundsCells_def)
  have fin: "finite (inBoundsCells g - dom visited)" using finite_inBoundsCells by simp
  have "inBoundsCells g - dom (visited(next \<mapsto> Some cur)) = (inBoundsCells g - dom visited) - {next}"
    by auto
  then have c: "card (inBoundsCells g - dom (visited(next \<mapsto> Some cur)))
      = card (inBoundsCells g - dom visited) - 1"
    using mem fin by simp
  have pos: "card (inBoundsCells g - dom visited) > 0"
    using mem fin by (metis card_gt_0_iff empty_iff)
  have "visitNeighbor g cur next (visited, queue) = (visited(next \<mapsto> Some cur), queue @ [next])"
    using False by (auto simp: visitNeighbor_def split: option.splits)
  then show ?thesis using c pos by (simp add: bfsMeasure_def)
qed

lemma bfsMeasure_fold:
  "bfsMeasure g (fst (fold (visitNeighbor g cur) ns acc)) (snd (fold (visitNeighbor g cur) ns acc))
     \<le> bfsMeasure g (fst acc) (snd acc)"
proof (induction ns arbitrary: acc)
  case Nil
  then show ?case by simp
next
  case (Cons n ns)
  have "bfsMeasure g (fst (visitNeighbor g cur n acc)) (snd (visitNeighbor g cur n acc))
      \<le> bfsMeasure g (fst acc) (snd acc)"
    using bfsMeasure_visitNeighbor[of g cur n "fst acc" "snd acc"] by simp
  with Cons.IH[of "visitNeighbor g cur n acc"] show ?case by simp
qed

text \<open>
  The search loop. It returns the visited map and the forum cell it reached, or nothing
  when the queue runs empty.
\<close>

function bfsLoop ::
  "Grid \<Rightarrow> int \<times> int \<Rightarrow> Visited \<Rightarrow> (int \<times> int) list \<Rightarrow> (Visited \<times> (int \<times> int)) option" where
  "bfsLoop g target visited [] = None"
| "bfsLoop g target visited (cur # queue) =
     (if reachedForum target cur then Some (visited, cur)
      else bfsLoop g target
             (fst (fold (visitNeighbor g cur) (neighborsOf (fst cur) (snd cur)) (visited, queue)))
             (snd (fold (visitNeighbor g cur) (neighborsOf (fst cur) (snd cur)) (visited, queue))))"
  by pat_completeness auto
termination
proof (relation "measure (\<lambda>(g, target, visited, queue). bfsMeasure g visited queue)")
  show "wf (measure (\<lambda>(g, target, visited, queue). bfsMeasure g visited queue))" by simp
next
  fix g :: Grid and target cur :: "int \<times> int" and visited :: Visited and queue :: "(int \<times> int) list"
  have "bfsMeasure g (fst (fold (visitNeighbor g cur) (neighborsOf (fst cur) (snd cur)) (visited, queue)))
          (snd (fold (visitNeighbor g cur) (neighborsOf (fst cur) (snd cur)) (visited, queue)))
        \<le> bfsMeasure g visited queue"
    using bfsMeasure_fold[of g cur "neighborsOf (fst cur) (snd cur)" "(visited, queue)"] by simp
  moreover have "bfsMeasure g visited queue < bfsMeasure g visited (cur # queue)"
    by (simp add: bfsMeasure_def)
  ultimately show "((g, target,
        fst (fold (visitNeighbor g cur) (neighborsOf (fst cur) (snd cur)) (visited, queue)),
        snd (fold (visitNeighbor g cur) (neighborsOf (fst cur) (snd cur)) (visited, queue))),
       (g, target, visited, cur # queue))
      \<in> measure (\<lambda>(g, target, visited, queue). bfsMeasure g visited queue)"
    by (simp add: case_prod_beta)
qed

declare bfsLoop.simps [simp del]

text \<open>
  Path reconstruction follows the parent entries until it meets null or a missing key.
  Nothing in the loop itself bounds it, so it is a partial function: \<open>None\<close> stands for a
  loop that does not return.
\<close>

partial_function (option) reconstructPath ::
  "Visited \<Rightarrow> int \<times> int \<Rightarrow> (int \<times> int) list \<Rightarrow> (int \<times> int) list option" where
  "reconstructPath visited node acc =
     (case visited node of
        Some (Some parent) \<Rightarrow> reconstructPath visited parent (node # acc)
      | Some None \<Rightarrow> Some (node # acc)
      | None \<Rightarrow> Some (node # acc))"

declare reconstructPath.simps [code]

definition computePath :: "int \<times> int \<Rightarrow> Invader \<Rightarrow> Grid \<Rightarrow> Invader option" where
  "computePath forumPos invader g =
     (let start = (inv_x invader, inv_z invader) in
      case bfsLoop g forumPos (Map.empty(start \<mapsto> None)) [start] of
        Some (visited, cur) \<Rightarrow>
          do {
            p \<leftarrow> reconstructPath visited cur [];
            Some (if length p > 1
                  then invader\<lparr>path := p, pathIndex := 1,
                                inv_targetX := fst (p ! 1), inv_targetZ := snd (p ! 1)\<rparr>
                  else invader\<lparr>path := p, pathIndex := 1\<rparr>)
          }
      | None \<Rightarrow>
          Some (invader\<lparr>path := [start, forumPos], pathIndex := 1,
                         inv_targetX := fst forumPos, inv_targetZ := snd forumPos\<rparr>))"

subsection \<open>Wave spawning\<close>

text \<open>
  One pass of the loop body of \<open>spawnWave\<close>: a random offset along the chosen edge, the
  scaled hit points and damage, and the path to the forum. \<open>Math.floor\<close> of the integer
  quotients \<open>GRID_SIZE / 4\<close>, \<open>GRID_SIZE / 2\<close> and \<open>spread / 2\<close> is integer division.
\<close>

definition spawnPosition :: "int \<Rightarrow> int \<Rightarrow> int \<times> int" where
  "spawnPosition edge offset =
     (if edge = 0 then (offset, 0)
      else if edge = 1 then (offset, GRID_SIZE - 1)
      else if edge = 2 then (GRID_SIZE - 1, offset)
      else if edge = 3 then (0, offset)
      else (0, 0))"

definition newInvader :: "int \<Rightarrow> int \<times> int \<Rightarrow> Invader" where
  "newInvader w pos =
     (let hp = BARBARIAN_BASE_HP + w * BARBARIAN_HP_SCALING;
          dmg = \<lfloor>of_int BARBARIAN_BASE_DAMAGE + of_int w * BARBARIAN_DAMAGE_SCALING\<rfloor>
      in \<lparr>inv_x = fst pos, inv_z = snd pos, inv_targetX = fst pos, inv_targetZ = snd pos,
           inv_progress = 0, inv_hp = hp, maxHp = hp, damage = dmg, inv_state = Moving,
           attackCooldown = 0, path = [], pathIndex = 0\<rparr>)"

definition spawnOne ::
  "int \<times> int \<Rightarrow> int \<Rightarrow> int \<Rightarrow> Grid \<Rightarrow> Invader list \<times> Rng \<Rightarrow> (Invader list \<times> Rng) option" where
  "spawnOne forumPos w edge g acc =
     (case acc of (invs, rng) \<Rightarrow>
        let spread = GRID_SIZE div 4;
            center = GRID_SIZE div 2;
            (r, rng') = draw rng;
            offset = center - spread div 2 + \<lfloor>r * of_int spread\<rfloor>
        in do {
             invader \<leftarrow> computePath forumPos (newInvader w (spawnPosition edge offset)) g;
             Some (invs @ [invader], rng')
           })"

fun spawnLoop ::
  "nat \<Rightarrow> int \<times> int \<Rightarrow> int \<Rightarrow> int \<Rightarrow> Grid \<Rightarrow> Invader list \<times> Rng \<Rightarrow> (Invader list \<times> Rng) option" where
  "spawnLoop 0 forumPos w edge g acc = Some acc"
| "spawnLoop (Suc n) forumPos w edge g acc =
     do { acc' \<leftarrow> spawnOne forumPos w edge g acc; spawnLoop n forumPos w edge g acc' }"

definition waveCount :: "int \<Rightarrow> int" where
  "waveCount w = \<lfloor>of_int BASE_INVADERS + of_int w * INVADER_SCALING\<rfloor>"

definition spawnWave :: "InvasionSystem \<Rightarrow> Grid \<Rightarrow> Rng \<Rightarrow> (InvasionSystem \<times> Rng) option" where
  "spawnWave sys g rng =
     (let count = waveCount (waveNumber sys);
          (r, rng1) = draw rng;
          edge = \<lfloor>r * 4\<rfloor>
      in do {
           (invs, rng2) \<leftarrow> spawnLoop (nat count) (inv_forumPos sys) (waveNumber sys) edge g (invaders sys, rng1);
           Some (sys\<lparr>invaders := invs\<rparr>, rng2)
         })"

subsection \<open>Attacks and the per-tick state machine\<close>

datatype AttackResult =
    ForumDestroyed
  | BuildingDestroyed "int \<times> int \<times> BuildingType"
  | BuildingDamaged "int \<times> int \<times> rat"

definition damageTile :: "int \<Rightarrow> Tile \<Rightarrow> Tile" where
  "damageTile d t = t\<lparr>buildingHp := buildingHp t - d\<rparr>"

definition attackBuilding :: "Invader \<Rightarrow> Grid \<Rightarrow> AttackResult option \<times> Grid" where
  "attackBuilding iv g =
     (case getTile g (inv_x iv) (inv_z iv) of
        None \<Rightarrow> (None, g)
      | Some tile \<Rightarrow>
          (case building tile of
             None \<Rightarrow> (None, g)
           | Some type \<Rightarrow>
               let hp' = buildingHp tile - damage iv;
                   g' = modTile (damageTile (damage iv)) (inv_x iv, inv_z iv) g
               in if hp' \<le> 0
                  then (if type = Forum then (Some ForumDestroyed, g')
                        else (Some (BuildingDestroyed (inv_x iv, inv_z iv, type)), g'))
                  else (Some (BuildingDamaged (inv_x iv, inv_z iv,
                                of_int hp' / of_int (bhp (BUILDINGS type)))), g')))"

record TickResult =
  buildingsDestroyed :: "(int \<times> int \<times> BuildingType) list"
  forumDestroyed :: bool
  damages :: "(int \<times> int \<times> rat) list"

definition emptyResult :: TickResult where
  "emptyResult = \<lparr>buildingsDestroyed = [], forumDestroyed = False, damages = []\<rparr>"

definition orEmpty :: "TickResult option \<Rightarrow> TickResult" where
  "orEmpty res = (case res of None \<Rightarrow> emptyResult | Some r \<Rightarrow> r)"

text \<open>The body of the loop over the invaders, for one invader.\<close>

definition processInvader ::
  "int \<times> int \<Rightarrow> Invader \<Rightarrow> Grid \<Rightarrow> TickResult option \<Rightarrow> (Invader \<times> Grid \<times> TickResult option) option" where
  "processInvader forumPos iv g res =
     (if inv_state iv = Attacking then
        (let inv1 = iv\<lparr>attackCooldown := attackCooldown iv - 1\<rparr> in
         if attackCooldown inv1 \<le> 0 then
           (let inv2 = inv1\<lparr>attackCooldown := ATTACK_COOLDOWN\<rparr> in
            case attackBuilding inv2 g of
              (None, g') \<Rightarrow> Some (inv2, g', res)
            | (Some ForumDestroyed, g') \<Rightarrow>
                Some (inv2, g', Some ((orEmpty res)\<lparr>forumDestroyed := True\<rparr>))
            | (Some (BuildingDestroyed d), g') \<Rightarrow>
                do {
                  inv3 \<leftarrow> computePath forumPos (inv2\<lparr>inv_state := Moving\<rparr>) g';
                  Some (inv3, g',
                        Some ((orEmpty res)\<lparr>buildingsDestroyed := buildingsDestroyed (orEmpty res) @ [d]\<rparr>))
                }
            | (Some (BuildingDamaged d), g') \<Rightarrow>
                Some (inv2, g', Some ((orEmpty res)\<lparr>damages := damages (orEmpty res) @ [d]\<rparr>)))
         else Some (inv1, g, res))
      else Some (iv, g, res))"

fun processInvaders ::
  "int \<times> int \<Rightarrow> Invader list \<Rightarrow> Grid \<Rightarrow> TickResult option
     \<Rightarrow> (Invader list \<times> Grid \<times> TickResult option) option" where
  "processInvaders forumPos [] g res = Some ([], g, res)"
| "processInvaders forumPos (iv # rest) g res =
     do {
       (iv', g', res') \<leftarrow> processInvader forumPos iv g res;
       (rest', g'', res'') \<leftarrow> processInvaders forumPos rest g' res';
       Some (iv' # rest', g'', res'')
     }"

definition nextWaveInterval :: "int \<Rightarrow> int" where
  "nextWaveInterval w = max MIN_WAVE_INTERVAL (BASE_WAVE_INTERVAL - w * WAVE_ACCELERATION)"

text \<open>
  \<open>InvasionSystem.tick\<close>: the countdown and the warning flag, the wave when the countdown
  runs out, the attacks, and the sweep of dead invaders.
\<close>

definition waveStep :: "InvasionSystem \<Rightarrow> Grid \<Rightarrow> Rng \<Rightarrow> (InvasionSystem \<times> Rng) option" where
  "waveStep sys g rng =
     (let sys1 = sys\<lparr>ticksUntilNextWave := ticksUntilNextWave sys - 1\<rparr>;
          sys2 = sys1\<lparr>warningActive := (ticksUntilNextWave sys1 \<le> 5 \<and> ticksUntilNextWave sys1 > 0)\<rparr>
      in if ticksUntilNextWave sys2 \<le> 0 then
           do {
             (sys3, rng') \<leftarrow> spawnWave sys2 g rng;
             let sys4 = sys3\<lparr>waveNumber := waveNumber sys3 + 1\<rparr>;
             Some (sys4\<lparr>ticksUntilNextWave := nextWaveInterval (waveNumber sys4)\<rparr>, rng')
           }
         else Some (sys2, rng))"

definition invasionTick ::
  "InvasionSystem \<Rightarrow> Grid \<Rightarrow> Rng \<Rightarrow> (TickResult option \<times> InvasionSystem \<times> Grid \<times> Rng) option" where
  "invasionTick sys g rng =
     do {
       (sys1, rng') \<leftarrow> waveStep sys g rng;
       (invs, g', res) \<leftarrow> processInvaders (inv_forumPos sys1) (invaders sys1) g None;
       let alive = filter (\<lambda>iv. inv_state iv \<noteq> Dead) invs;
       Some (res, sys1\<lparr>invaders := alive, activeWave := (length alive > 0)\<rparr>, g', rng')
     }"

text \<open>
  \<open>findNearestInvader\<close> hands out a reference to an invader; the model returns its index.
  The range \<open>Infinity\<close> is \<open>None\<close>. The accumulator is the nearest invader so far with
  its distance; nothing so far stands for \<open>nearestDist = Infinity\<close>.
\<close>

definition withinRange :: "int \<Rightarrow> int option \<Rightarrow> bool" where
  "withinRange dst maxRange = (case maxRange of None \<Rightarrow> True | Some r \<Rightarrow> dst \<le> r)"

fun nearestLoop ::
  "int \<Rightarrow> int \<Rightarrow> int option \<Rightarrow> Invader list \<Rightarrow> nat \<Rightarrow> (nat \<times> int) option \<Rightarrow> (nat \<times> int) option" where
  "nearestLoop px pz maxRange [] i nearest = nearest"
| "nearestLoop px pz maxRange (iv # invs) i nearest =
     (if inv_state iv = Dead then nearestLoop px pz maxRange invs (Suc i) nearest
      else
        (let dst = \<bar>inv_x iv - px\<bar> + \<bar>inv_z iv - pz\<bar> in
         if withinRange dst maxRange \<and> (case nearest of None \<Rightarrow> True | Some (j, nearestDist) \<Rightarrow> dst < nearestDist)
         then nearestLoop px pz maxRange invs (Suc i) (Some (i, dst))
         else nearestLoop px pz maxRange invs (Suc i) nearest))"

definition findNearestInvader :: "Invader list \<Rightarrow> int \<Rightarrow> int \<Rightarrow> int option \<Rightarrow> nat option" where
  "findNearestInvader invs px pz maxRange = map_option fst (nearestLoop px pz maxRange invs 0 None)"

definition damageInvader :: "Invader \<Rightarrow> int \<Rightarrow> Invader" where
  "damageInvader invader d =
     (let inv1 = invader\<lparr>inv_hp := inv_hp invader - d\<rparr>
      in if inv_hp inv1 \<le> 0 then inv1\<lparr>inv_state := Dead\<rparr> else inv1)"

section \<open>Agent movement system (systems/WalkerSystem.ts)\<close>

datatype WalkerType = Water | Food | Soldier | Farmer

record Walker =
  w_type :: WalkerType
  gridX :: int
  gridZ :: int
  targetX :: int
  targetZ :: int
  prevX :: int
  prevZ :: int
  progress :: rat
  lifespan :: int
  w_hp :: int
  homeX :: int
  homeZ :: int

definition WALKER_SPEED :: rat where "WALKER_SPEED = 2"
definition WALKER_LIFESPAN :: int where "WALKER_LIFESPAN = 30"
definition SOLDIER_PATROL_RADIUS :: int where "SOLDIER_PATROL_RADIUS = 4"

definition isEmptyTile :: "Grid \<Rightarrow> int \<times> int \<Rightarrow> bool" where
  "isEmptyTile g c =
     (if \<not> isInBounds g (fst c) (snd c) then False
      else (case getTile g (fst c) (snd c) of None \<Rightarrow> False | Some t \<Rightarrow> building t = None))"

definition perimeter :: "int \<Rightarrow> int \<Rightarrow> int \<Rightarrow> (int \<times> int) list" where
  "perimeter px pz n =
     concat (map (\<lambda>dx. concat (map (\<lambda>dz.
        if dx \<ge> 0 \<and> dx < n \<and> dz \<ge> 0 \<and> dz < n then [] else [(px + dx, pz + dz)]) [-1..n])) [-1..n])"

definition findAdjacentEmptyTile :: "Grid \<Rightarrow> int \<Rightarrow> int \<Rightarrow> int \<Rightarrow> Rng \<Rightarrow> (int \<times> int) \<times> Rng" where
  "findAdjacentEmptyTile g px pz n rng =
     (let candidates = filter (isEmptyTile g) (perimeter px pz n)
      in if length candidates > 0
         then (let (r, rng') = draw rng in (pickRandom r candidates, rng'))
         else ((px, pz), rng))"

definition newWalker :: "WalkerType \<Rightarrow> int \<times> int \<Rightarrow> int \<Rightarrow> int \<Rightarrow> Walker" where
  "newWalker type startPos px pz =
     \<lparr>w_type = type, gridX = fst startPos, gridZ = snd startPos,
      targetX = fst startPos, targetZ = snd startPos, prevX = px, prevZ = pz,
      progress = 0, lifespan = WALKER_LIFESPAN,
      w_hp = (if type = Soldier then 20 else 15), homeX = px, homeZ = pz\<rparr>"

definition spawn ::
  "WalkerType \<Rightarrow> int \<Rightarrow> int \<Rightarrow> Grid \<Rightarrow> int \<Rightarrow> Walker list \<times> Rng \<Rightarrow> Walker list \<times> Rng" where
  "spawn type px pz g buildingSize acc =
     (case acc of (walkers, rng) \<Rightarrow>
        let roads = getAdjacentRoadTiles g px pz buildingSize
        in if length roads > 0
           then (let (r, rng') = draw rng
                 in (walkers @ [newWalker type (pickRandom r roads) px pz], rng'))
           else if type = Soldier
           then (let (startPos, rng') = findAdjacentEmptyTile g px pz buildingSize rng
                 in (walkers @ [newWalker type startPos px pz], rng'))
           else (walkers, rng))"

text \<open>
  \<open>WalkerSystem.tick\<close> walks the array from its end, decrements each lifespan and splices
  out the walkers that reached zero: every walker is aged once and the survivors keep
  their order.
\<close>

definition walkerTick :: "Walker list \<Rightarrow> Walker list" where
  "walkerTick walkers =
     filter (\<lambda>w. \<not> lifespan w \<le> 0) (map (\<lambda>w. w\<lparr>lifespan := lifespan w - 1\<rparr>) walkers)"

definition isSoldierWalkable :: "Grid \<Rightarrow> int \<Rightarrow> int \<Rightarrow> bool" where
  "isSoldierWalkable g px pz =
     (if \<not> isInBounds g px pz then False
      else (case getTile g px pz of
              None \<Rightarrow> False
            | Some t \<Rightarrow> building t = None \<or> building t = Some Road \<or> building t = Some Forum))"

definition moveSoldierToward :: "Walker \<Rightarrow> int \<Rightarrow> int \<Rightarrow> Grid \<Rightarrow> Walker" where
  "moveSoldierToward walker tx tz g =
     (let dx = sgn (tx - gridX walker);
          dz = sgn (tz - gridZ walker);
          optX = (if dx \<noteq> 0 then [(gridX walker + dx, gridZ walker)] else []);
          optZ = (if dz \<noteq> 0 then [(gridX walker, gridZ walker + dz)] else []);
          options = (if \<bar>tx - gridX walker\<bar> \<ge> \<bar>tz - gridZ walker\<bar> then optX @ optZ else optZ @ optX)
      in case find (\<lambda>opt. isSoldierWalkable g (fst opt) (snd opt)) options of
           Some opt \<Rightarrow> walker\<lparr>targetX := fst opt, targetZ := snd opt\<rparr>
         | None \<Rightarrow> walker\<lparr>targetX := gridX walker, targetZ := gridZ walker\<rparr>)"

definition soldierPatrol :: "Walker \<Rightarrow> Grid \<Rightarrow> Rng \<Rightarrow> Walker \<times> Rng" where
  "soldierPatrol walker g rng =
     (let candidates = filter (\<lambda>n.
            \<not> (fst n = prevX walker \<and> snd n = prevZ walker) \<and>
            isSoldierWalkable g (fst n) (snd n) \<and>
            \<not> \<bar>fst n - homeX walker\<bar> + \<bar>snd n - homeZ walker\<bar> > SOLDIER_PATROL_RADIUS)
          (neighborsOf (gridX walker) (gridZ walker))
      in if length candidates > 0
         then (let (r, rng') = draw rng; pick = pickRandom r candidates
               in (walker\<lparr>targetX := fst pick, targetZ := snd pick\<rparr>, rng'))
         else if isSoldierWalkable g (prevX walker) (prevZ walker)
         then (walker\<lparr>targetX := prevX walker, targetZ := prevZ walker\<rparr>, rng)
         else (walker\<lparr>targetX := gridX walker, targetZ := gridZ walker\<rparr>, rng))"

text \<open>
  \<open>chooseNextTile\<close>. The invasion system is an optional argument; what is read from it
  is its list of invaders.
\<close>

definition chooseNextTile :: "Walker \<Rightarrow> Grid \<Rightarrow> Invader list option \<Rightarrow> Rng \<Rightarrow> Walker \<times> Rng" where
  "chooseNextTile walker g invasion rng =
     (if w_type walker = Soldier then
        (case (case invasion of
                 None \<Rightarrow> None
               | Some invs \<Rightarrow>
                   if length invs > 0
                   then map_option (\<lambda>i. invs ! i) (findNearestInvader invs (gridX walker) (gridZ walker) None)
                   else None) of
           Some target \<Rightarrow> (moveSoldierToward walker (inv_x target) (inv_z target) g, rng)
         | None \<Rightarrow> soldierPatrol walker g rng)
      else
        (let neighbors = filter (\<lambda>n. \<not> (fst n = prevX walker \<and> snd n = prevZ walker))
                           (getRoadNeighbors g (gridX walker) (gridZ walker))
         in if length neighbors = 0 then
              (let allNeighbors = getRoadNeighbors g (gridX walker) (gridZ walker)
               in if length allNeighbors > 0
                  then (walker\<lparr>targetX := prevX walker, targetZ := prevZ walker\<rparr>, rng)
                  else (walker\<lparr>targetX := gridX walker, targetZ := gridZ walker\<rparr>, rng))
            else
              (let (r, rng') = draw rng; pick = pickRandom r neighbors
               in (walker\<lparr>targetX := fst pick, targetZ := snd pick\<rparr>, rng'))))"

definition SERVICE_DURATION :: int where "SERVICE_DURATION = 10"

definition serviceTile :: "WalkerType \<Rightarrow> Tile \<Rightarrow> Tile" where
  "serviceTile type t =
     (if building t = Some House then
        (if type = Water then t\<lparr>waterTimer := SERVICE_DURATION\<rparr>
         else if type = Food then t\<lparr>foodTimer := SERVICE_DURATION\<rparr>
         else t)
      else t)"

definition serviceNearbyHouses :: "Walker \<Rightarrow> Grid \<Rightarrow> Grid" where
  "serviceNearbyHouses walker g =
     fold (\<lambda>d. modTile (serviceTile (w_type walker)) (gridX walker + fst d, gridZ walker + snd d))
       [(0, 0), (1, 0), (-1, 0), (0, 1), (0, -1)] g"

text \<open>
  The per-frame update of one walker, without the mesh: advance the interpolation and, on
  arrival, step to the target, service the houses around and choose the next target.
\<close>

definition updateWalker ::
  "rat \<Rightarrow> Invader list option \<Rightarrow> Walker \<Rightarrow> Grid \<times> Rng \<Rightarrow> Walker \<times> Grid \<times> Rng" where
  "updateWalker dt invasion walker acc =
     (case acc of (g, rng) \<Rightarrow>
        let w1 = walker\<lparr>progress := progress walker + dt * WALKER_SPEED\<rparr>
        in if progress w1 \<ge> 1 then
             (let w2 = w1\<lparr>prevX := gridX w1, prevZ := gridZ w1,
                          gridX := targetX w1, gridZ := targetZ w1, progress := 0\<rparr>;
                  g' = serviceNearbyHouses w2 g;
                  (w3, rng') = chooseNextTile w2 g' invasion rng
              in (w3, g', rng'))
           else (w1, g, rng))"

section \<open>Combat resolver (systems/CombatSystem.ts)\<close>

definition SOLDIER_DAMAGE :: int where "SOLDIER_DAMAGE = 4"
definition SOLDIER_ENGAGE_RANGE :: int where "SOLDIER_ENGAGE_RANGE = 5"

text \<open>
  The loop runs over the soldiers among the walkers in order. A soldier that falls is
  removed from the walker list at once; the other walkers are untouched.
\<close>

fun combatUpdate :: "Walker list \<Rightarrow> Invader list \<Rightarrow> Walker list \<times> Invader list" where
  "combatUpdate [] invs = ([], invs)"
| "combatUpdate (w # ws) invs =
     (if w_type w \<noteq> Soldier then (case combatUpdate ws invs of (ws', invs') \<Rightarrow> (w # ws', invs'))
      else
        (case findNearestInvader invs (gridX w) (gridZ w) (Some SOLDIER_ENGAGE_RANGE) of
           None \<Rightarrow> (case combatUpdate ws invs of (ws', invs') \<Rightarrow> (w # ws', invs'))
         | Some i \<Rightarrow>
             (let target = invs ! i;
                  dst = \<bar>gridX w - inv_x target\<bar> + \<bar>gridZ w - inv_z target\<bar>
              in if dst \<le> 1 then
                   (let t1 = target\<lparr>inv_hp := inv_hp target - SOLDIER_DAMAGE\<rparr>;
                        w1 = w\<lparr>w_hp := w_hp w - damage t1\<rparr>;
                        t2 = (if inv_hp t1 \<le> 0 then t1\<lparr>inv_state := Dead\<rparr> else t1)
                    in case combatUpdate ws (invs[i := t2]) of
                         (ws', invs') \<Rightarrow> (if w_hp w1 \<le> 0 then (ws', invs') else (w1 # ws', invs')))
                 else (case combatUpdate ws invs of (ws', invs') \<Rightarrow> (w # ws', invs')))))"

section \<open>Simulation orchestrator (Game.ts)\<close>

record ResourceState =
  gold :: int
  food :: rat
  population :: int
  maxPopulation :: int

record ScoreState =
  peakPopulation :: int
  wavesSurvived :: int
  totalGoldEarned :: int

definition WELL_SPAWN_INTERVAL :: int where "WELL_SPAWN_INTERVAL = 4"
definition MARKET_SPAWN_INTERVAL :: int where "MARKET_SPAWN_INTERVAL = 4"
definition BARRACKS_SPAWN_INTERVAL :: int where "BARRACKS_SPAWN_INTERVAL = 6"
definition FARM_SPAWN_INTERVAL :: int where "FARM_SPAWN_INTERVAL = 5"

text \<open>
  The state of a game that the simulation reads and writes. Rendering, input, audio, the
  HUD and the storage behind the save system are left out.
\<close>

record Game =
  grid :: Grid
  buildingSystem :: BuildingSystem
  walkers :: "Walker list"
  invasionSystem :: InvasionSystem
  resources :: ResourceState
  score :: ScoreState
  tickCount :: int
  reachableRoads :: "(int \<times> int) set"
  roadsDirty :: bool
  forumPos :: "int \<times> int"
  gameOver :: bool

text \<open>The cells of the scans \<open>for x < GRID_SIZE, for z < GRID_SIZE\<close>, in order.\<close>

definition allCells :: "(int \<times> int) list" where
  "allCells = footprint 0 0 GRID_SIZE"

definition buildingAt :: "Grid \<Rightarrow> int \<Rightarrow> int \<Rightarrow> BuildingType option" where
  "buildingAt g px pz = (case getTile g px pz of None \<Rightarrow> None | Some t \<Rightarrow> building t)"

definition cleanGhostCell :: "BuildingSystem \<Rightarrow> int \<times> int \<Rightarrow> Grid \<Rightarrow> Grid" where
  "cleanGhostCell bs c g =
     (case getTile g (fst c) (snd c) of
        None \<Rightarrow> g
      | Some tile \<Rightarrow>
          if building tile = None then g
          else if list_ex (covers (fst c) (snd c)) bs then g
          else modTile clearTile c g)"

definition cleanGhostTiles :: "BuildingSystem \<Rightarrow> Grid \<Rightarrow> Grid" where
  "cleanGhostTiles bs g = fold (cleanGhostCell bs) allCells g"

definition rebuildRoadNetwork :: "Game \<Rightarrow> Game" where
  "rebuildRoadNetwork s =
     (let g = cleanGhostTiles (buildingSystem s) (grid s);
          reach = fold (\<lambda>c acc. acc \<union> floodFillRoads g (fst c) (snd c))
                    (footprint (fst (forumPos s)) (snd (forumPos s)) (bsize (BUILDINGS Forum))) {}
      in s\<lparr>grid := g, reachableRoads := reach, roadsDirty := False\<rparr>)"

record ScanAcc =
  foodProduction :: int
  wells :: "(int \<times> int) list"
  markets :: "(int \<times> int) list"
  barracks :: "(int \<times> int) list"
  farms :: "(int \<times> int) list"
  towers :: "(int \<times> int) list"

definition emptyScan :: ScanAcc where
  "emptyScan = \<lparr>foodProduction = 0, wells = [], markets = [], barracks = [], farms = [], towers = []\<rparr>"

definition ageTile :: "Tile \<Rightarrow> Tile" where
  "ageTile tile =
     (let t1 = (if waterTimer tile > 0 then tile\<lparr>waterTimer := waterTimer tile - 1\<rparr> else tile);
          t2 = (if foodTimer t1 > 0 then t1\<lparr>foodTimer := foodTimer t1 - 1\<rparr> else t1)
      in t2\<lparr>hasWater := waterTimer t2 > 0, hasFood := foodTimer t2 > 0\<rparr>)"

definition isOrigin :: "Grid \<Rightarrow> BuildingType \<Rightarrow> int \<Rightarrow> int \<Rightarrow> bool" where
  "isOrigin g type px pz \<longleftrightarrow>
     (px = 0 \<or> buildingAt g (px - 1) pz \<noteq> Some type) \<and> (pz = 0 \<or> buildingAt g px (pz - 1) \<noteq> Some type)"

text \<open>The body of the first scan of \<open>simulationTick\<close>, for one cell.\<close>

definition collectCell :: "Grid \<Rightarrow> (int \<times> int) set \<Rightarrow> int \<times> int \<Rightarrow> BuildingType option \<Rightarrow> ScanAcc \<Rightarrow> ScanAcc" where
  "collectCell g reach c b acc =
     (let px = fst c; pz = snd c;
          a1 = (if b = Some Farm
                then (if isOrigin g Farm px pz \<and> isBuildingConnected g px pz (bsize (BUILDINGS Farm)) reach
                      then acc\<lparr>foodProduction := foodProduction acc + FARM_FOOD_RATE, farms := farms acc @ [c]\<rparr>
                      else acc)
                else acc);
          a2 = (if b = Some Well \<and> isBuildingConnected g px pz 1 reach
                then a1\<lparr>wells := wells a1 @ [c]\<rparr> else a1);
          a3 = (if b = Some Market \<and> isBuildingConnected g px pz 1 reach
                then a2\<lparr>markets := markets a2 @ [c]\<rparr> else a2);
          a4 = (if b = Some Tower then a3\<lparr>towers := towers a3 @ [c]\<rparr> else a3)
      in if b = Some Barracks
         then (if isOrigin g Barracks px pz then a4\<lparr>barracks := barracks a4 @ [c]\<rparr> else a4)
         else a4)"

definition scanCell :: "(int \<times> int) set \<Rightarrow> int \<times> int \<Rightarrow> Grid \<times> ScanAcc \<Rightarrow> Grid \<times> ScanAcc" where
  "scanCell reach c st =
     (case st of (g, acc) \<Rightarrow>
        case getTile g (fst c) (snd c) of
          None \<Rightarrow> (g, acc)
        | Some tile \<Rightarrow>
            (let g' = modTile ageTile c g
             in (g', collectCell g' reach c (building tile) acc)))"

definition scanGrid :: "(int \<times> int) set \<Rightarrow> Grid \<Rightarrow> Grid \<times> ScanAcc" where
  "scanGrid reach g = fold (scanCell reach) allCells (g, emptyScan)"

text \<open>The four spawn loops, each on its own cadence.\<close>

definition spawnWells :: "int \<Rightarrow> Grid \<Rightarrow> (int \<times> int) list \<Rightarrow> Walker list \<times> Rng \<Rightarrow> Walker list \<times> Rng" where
  "spawnWells tc g ws acc =
     fold (\<lambda>well a. if tc mod WELL_SPAWN_INTERVAL = 0
                     then spawn Water (fst well) (snd well) g 1 a else a) ws acc"

definition spawnMarkets ::
  "int \<Rightarrow> rat \<Rightarrow> Grid \<Rightarrow> (int \<times> int) list \<Rightarrow> Walker list \<times> Rng \<Rightarrow> Walker list \<times> Rng" where
  "spawnMarkets tc fd g ms acc =
     fold (\<lambda>market a. if tc mod MARKET_SPAWN_INTERVAL = 0 \<and> fd > 0
                       then spawn Food (fst market) (snd market) g 1 a else a) ms acc"

definition spawnBarracks :: "int \<Rightarrow> Grid \<Rightarrow> (int \<times> int) list \<Rightarrow> Walker list \<times> Rng \<Rightarrow> Walker list \<times> Rng" where
  "spawnBarracks tc g bs acc =
     fold (\<lambda>b a. if tc mod BARRACKS_SPAWN_INTERVAL = 0
                  then spawn Soldier (fst b) (snd b) g (bsize (BUILDINGS Barracks)) a else a) bs acc"

definition spawnFarms :: "int \<Rightarrow> Grid \<Rightarrow> (int \<times> int) list \<Rightarrow> Walker list \<times> Rng \<Rightarrow> Walker list \<times> Rng" where
  "spawnFarms tc g fs acc =
     fold (\<lambda>f a. if tc mod FARM_SPAWN_INTERVAL = 0
                  then spawn Farmer (fst f) (snd f) g (bsize (BUILDINGS Farm)) a else a) fs acc"

definition handleDestroyed :: "(int \<times> int \<times> BuildingType) list \<Rightarrow> BuildingSystem \<times> Grid \<Rightarrow> BuildingSystem \<times> Grid" where
  "handleDestroyed ds acc =
     fold (\<lambda>d a. removeBuildingAt (fst a) (snd a) (fst d) (fst (snd d))) ds acc"

definition towerAttacks :: "(int \<times> int) list \<Rightarrow> Invader list \<Rightarrow> Invader list" where
  "towerAttacks ts invs =
     fold (\<lambda>tower a.
             case findNearestInvader a (fst tower) (snd tower) (Some TOWER_RANGE) of
               None \<Rightarrow> a
             | Some i \<Rightarrow> a[i := damageInvader (a ! i) TOWER_DAMAGE]) ts invs"

definition housingCapacity :: "Grid \<Rightarrow> int" where
  "housingCapacity g =
     fold (\<lambda>c maxPop.
             case getTile g (fst c) (snd c) of
               None \<Rightarrow> maxPop
             | Some tile \<Rightarrow>
                 if building tile = Some House \<and> hasWater tile \<and> hasFood tile
                 then maxPop + MAX_POP_PER_HOUSE else maxPop) allCells 0"

definition adjustPopulation :: "int \<Rightarrow> ResourceState \<Rightarrow> ResourceState" where
  "adjustPopulation maxPop res =
     (let r1 = res\<lparr>maxPopulation := maxPop\<rparr>
      in if population r1 > maxPop
         then r1\<lparr>population := max maxPop (population r1 - GROWTH_RATE)\<rparr>
         else if food r1 \<le> 0 \<and> population r1 > 0
         then r1\<lparr>population := max 0 (population r1 - GROWTH_RATE)\<rparr>
         else if food r1 > 0 \<and> population r1 < maxPop
         then r1\<lparr>population := min (population r1 + GROWTH_RATE) maxPop\<rparr>
         else r1)"

definition handleGameOver :: "Game \<Rightarrow> Game" where
  "handleGameOver s = s\<lparr>gameOver := True\<rparr>"

text \<open>
  What follows the invasion tick when the forum stands: removal of the destroyed
  buildings, combat, the towers, housing capacity, population, taxes and the score.
\<close>

definition economyStep :: "Game \<Rightarrow> (int \<times> int) list \<Rightarrow> TickResult option \<Rightarrow> Game" where
  "economyStep s ts res =
     (let (bs, g) = (case res of
                       None \<Rightarrow> (buildingSystem s, grid s)
                     | Some r \<Rightarrow> handleDestroyed (buildingsDestroyed r) (buildingSystem s, grid s));
          dirty = (case res of None \<Rightarrow> roadsDirty s | Some r \<Rightarrow> roadsDirty s \<or> buildingsDestroyed r \<noteq> []);
          (ws, invs) = combatUpdate (walkers s) (invaders (invasionSystem s));
          invs' = towerAttacks ts invs;
          r1 = adjustPopulation (housingCapacity g) (resources s);
          taxIncome = population r1 * TAX_RATE;
          r2 = r1\<lparr>gold := gold r1 + taxIncome\<rparr>;
          sc = (score s)\<lparr>peakPopulation := max (peakPopulation (score s)) (population r2),
                         totalGoldEarned := totalGoldEarned (score s) + taxIncome,
                         wavesSurvived := waveNumber (invasionSystem s)\<rparr>
      in s\<lparr>grid := g, buildingSystem := bs, roadsDirty := dirty, walkers := ws,
            invasionSystem := (invasionSystem s)\<lparr>invaders := invs'\<rparr>,
            resources := r2, score := sc\<rparr>)"

text \<open>
  The first half of \<open>simulationTick\<close>, up to the aging of the walkers: the tick counter,
  the road network when it is dirty, the scan, the food stock and the spawns.
\<close>

definition spawnAll :: "int \<Rightarrow> rat \<Rightarrow> Grid \<Rightarrow> ScanAcc \<Rightarrow> Walker list \<times> Rng \<Rightarrow> Walker list \<times> Rng" where
  "spawnAll tc fd g acc a0 =
     (let a1 = spawnWells tc g (wells acc) a0;
          a2 = spawnMarkets tc fd g (markets acc) a1;
          a3 = spawnBarracks tc g (barracks acc) a2
      in spawnFarms tc g (farms acc) a3)"

definition productionStep :: "Game \<Rightarrow> Rng \<Rightarrow> Game \<times> ScanAcc \<times> Rng" where
  "productionStep s rng =
     (let s1 = s\<lparr>tickCount := tickCount s + 1\<rparr>;
          s2 = (if roadsDirty s1 then rebuildRoadNetwork s1 else s1);
          (g, acc) = scanGrid (reachableRoads s2) (grid s2);
          foodConsumption = of_int (population (resources s2)) * FOOD_PER_POP;
          res = (resources s2)\<lparr>food := food (resources s2) + of_int (foodProduction acc) - foodConsumption\<rparr>;
          (ws, rng1) = spawnAll (tickCount s2) (food res) g acc (walkers s2, rng)
      in (s2\<lparr>grid := g, resources := res, walkers := walkerTick ws\<rparr>, acc, rng1))"

definition simulationTick :: "Game \<Rightarrow> Rng \<Rightarrow> (Game \<times> Rng) option" where
  "simulationTick s rng =
     (if gameOver s then Some (s, rng)
      else
        (case productionStep s rng of
           (s3, acc, rng1) \<Rightarrow>
             do {
               (result, sys, g', rng2) \<leftarrow> invasionTick (invasionSystem s3) (grid s3) rng1;
               let s4 = s3\<lparr>invasionSystem := sys, grid := g'\<rparr>;
               (if (case result of None \<Rightarrow> False | Some r \<Rightarrow> forumDestroyed r)
                then Some (handleGameOver s4, rng2)
                else Some (economyStep s4 (towers acc) result, rng2))
             }))"

text \<open>A number of successive ticks.\<close>

fun runTicks :: "nat \<Rightarrow> Game \<Rightarrow> Rng \<Rightarrow> (Game \<times> Rng) option" where
  "runTicks 0 s rng = Some (s, rng)"
| "runTicks (Suc n) s rng =
     do { (s', rng') \<leftarrow> simulationTick s rng; runTicks n s' rng' }"

section \<open>Snapshots (Tile.toJSON, Grid.toJSON, SaveSystem, Game.doSave, Game.loadFromSave)\<close>
















text \<open>
  The constructor. The invasion system is only assigned by \<open>start\<close>, \<open>loadFromSave\<close> and
  \<open>restart\<close>; until then the model holds a fresh one at the initial forum position.
\<close>

definition new_Game :: Game where
  "new_Game =
     \<lparr>grid = new_Grid GRID_SIZE, buildingSystem = [], walkers = [],
      invasionSystem = new_InvasionSystem (0, 0),
      resources = \<lparr>gold = STARTING_GOLD, food = 0, population = 0, maxPopulation = 0\<rparr>,
      score = \<lparr>peakPopulation = 0, wavesSurvived = 0, totalGoldEarned = 0\<rparr>,
      tickCount = 0, reachableRoads = {}, roadsDirty = True, forumPos = (0, 0), gameOver = False\<rparr>"

text \<open>
  \<open>start\<close> places the forum with unlimited funds; the forum costs nothing, so any funds
  that cover the cost give the same grid.
\<close>

definition start :: "Game \<Rightarrow> Game" where
  "start this =
     (let center = GRID_SIZE div 2 - 1;
          (ok, bs, g, gl) = place (buildingSystem this) (grid this) Forum center center (cost (BUILDINGS Forum))
      in rebuildRoadNetwork
           (this\<lparr>forumPos := (center, center), buildingSystem := bs, grid := g,
                  resources := (resources this)\<lparr>gold := STARTING_GOLD\<rparr>,
                  invasionSystem := new_InvasionSystem (center, center)\<rparr>))"

definition restart :: "Game \<Rightarrow> Game" where
  "restart this =
     (let center = GRID_SIZE div 2 - 1;
          (ok, bs, g, gl) = place [] (new_Grid GRID_SIZE) Forum center center (cost (BUILDINGS Forum))
      in rebuildRoadNetwork
           (this\<lparr>walkers := [], grid := g, buildingSystem := bs,
                  resources := \<lparr>gold = STARTING_GOLD, food = 0, population = 0, maxPopulation = 0\<rparr>,
                  score := \<lparr>peakPopulation = 0, wavesSurvived = 0, totalGoldEarned = 0\<rparr>,
                  tickCount := 0, gameOver := False, forumPos := (center, center),
                  invasionSystem := new_InvasionSystem (center, center)\<rparr>))"

section \<open>Specification of routing\<close>

text \<open>
  A step leads from a cell to one of its four neighbours inside the grid, whatever stands
  there. A walk is a non-empty list of cells joined by steps; its first cell may lie
  anywhere. \<open>chain visited v p\<close> says that following the parent entries of \<open>visited\<close>
  back from \<open>v\<close> gives the cells \<open>p\<close>, first cell first.
\<close>

definition isStep :: "Grid \<Rightarrow> int \<times> int \<Rightarrow> int \<times> int \<Rightarrow> bool" where
  "isStep g a b \<longleftrightarrow> list_ex (\<lambda>n. n = b) (neighborsOf (fst a) (snd a)) \<and> isInBounds g (fst b) (snd b)"

definition walk :: "Grid \<Rightarrow> (int \<times> int) list \<Rightarrow> bool" where
  "walk g p \<longleftrightarrow> p \<noteq> [] \<and> successively (isStep g) p"

inductive chain :: "Visited \<Rightarrow> int \<times> int \<Rightarrow> (int \<times> int) list \<Rightarrow> bool" for vis where
  root: "vis v = Some None \<Longrightarrow> chain vis v [v]"
| step: "vis v = Some (Some u) \<Longrightarrow> chain vis u p \<Longrightarrow> chain vis v (p @ [v])"


text \<open>
  The invariant of the search loop. Every visited cell has a chain that is a shortest walk
  from the start. The queue holds visited cells at two consecutive depths, the lower depth
  first. A visited cell that is neither queued nor open has all its steps visited and is
  not a forum cell.
\<close>

definition levels :: "Visited \<Rightarrow> (int \<times> int) list \<Rightarrow> nat \<Rightarrow> bool" where
  "levels vis q d \<longleftrightarrow>
     (\<exists>q1 q2. q = q1 @ q2 \<and>
        (\<forall>v\<in>set q1. \<forall>p. chain vis v p \<longrightarrow> length p = d) \<and>
        (\<forall>v\<in>set q2. \<forall>p. chain vis v p \<longrightarrow> length p = Suc d))"

definition shortest :: "Grid \<Rightarrow> int \<times> int \<Rightarrow> Visited \<Rightarrow> int \<times> int \<Rightarrow> bool" where
  "shortest g s vis v \<longleftrightarrow>
     (\<exists>p. chain vis v p \<and> walk g p \<and> hd p = s \<and>
          (\<forall>w. walk g w \<and> hd w = s \<and> last w = v \<longrightarrow> length p \<le> length w))"

definition bfsInv ::
  "Grid \<Rightarrow> int \<times> int \<Rightarrow> int \<times> int \<Rightarrow> Visited \<Rightarrow> (int \<times> int) list \<Rightarrow> (int \<times> int) set \<Rightarrow> nat \<Rightarrow> bool" where
  "bfsInv g s T vis q opn d \<longleftrightarrow>
     vis s = Some None \<and>
     (\<forall>v\<in>dom vis. shortest g s vis v) \<and>
     set q \<subseteq> dom vis \<and> opn \<subseteq> dom vis \<and>
     levels vis q d \<and> (\<forall>v\<in>opn. \<forall>p. chain vis v p \<longrightarrow> length p = d) \<and>
     (\<forall>v\<in>dom vis. v \<notin> set q \<union> opn \<longrightarrow> (\<forall>n. isStep g v n \<longrightarrow> n \<in> dom vis) \<and> \<not> reachedForum T v)"


text \<open>What \<open>spawnWave\<close> gives every invader of the wave numbered \<open>w\<close>.\<close>

definition waveInvader :: "int \<Rightarrow> Invader \<Rightarrow> bool" where
  "waveInvader w iv \<longleftrightarrow>
     inv_hp iv = BARBARIAN_BASE_HP + w * BARBARIAN_HP_SCALING
     \<and> maxHp iv = BARBARIAN_BASE_HP + w * BARBARIAN_HP_SCALING
     \<and> damage iv = \<lfloor>of_int BARBARIAN_BASE_DAMAGE + of_int w * BARBARIAN_DAMAGE_SCALING\<rfloor>
     \<and> inv_state iv = Moving"

text \<open>A draw of \<open>Math.random()\<close>: a double in \<open>[0, 1)\<close>.\<close>

definition unitDouble :: "rat \<Rightarrow> bool" where
  "unitDouble r \<longleftrightarrow> 0 \<le> r \<and> r < 1 \<and> roundDouble r = r"

section \<open>Notions for the simulation tick\<close>

definition taxed :: "ResourceState \<Rightarrow> ResourceState" where
  "taxed r = r\<lparr>gold := gold r + population r * TAX_RATE\<rparr>"

definition forumIntact :: "Grid \<Rightarrow> bool" where
  "forumIntact g \<longleftrightarrow>
     (\<forall>px pz t. getTile g px pz = Some t \<and> building t = Some Forum \<longrightarrow> 0 < buildingHp t)"

text \<open>
  A tile update is forum-safe when a forum tile it leaves behind is either an undamaged
  forum tile of before or has hit points left. It is core-keeping when it changes neither
  the building nor the hit points.
\<close>

definition forumSafe :: "(Tile \<Rightarrow> Tile) \<Rightarrow> bool" where
  "forumSafe f \<longleftrightarrow>
     (\<forall>t. building (f t) = Some Forum \<longrightarrow>
          (building t = Some Forum \<and> buildingHp (f t) = buildingHp t) \<or> 0 < buildingHp (f t))"

definition coreKeeping :: "(Tile \<Rightarrow> Tile) \<Rightarrow> bool" where
  "coreKeeping f \<longleftrightarrow> (\<forall>t. building (f t) = building t \<and> buildingHp (f t) = buildingHp t)"

text \<open>
  A grid stage: the new grid comes from the old one through a sequence of tile updates
  that all satisfy \<open>P\<close>.
\<close>

inductive stage :: "((Tile \<Rightarrow> Tile) \<Rightarrow> bool) \<Rightarrow> Grid \<Rightarrow> Grid \<Rightarrow> bool" for P where
  refl: "stage P g g"
| step: "stage P g g' \<Longrightarrow> P f \<Longrightarrow> stage P g (modTile f c g')"

definition flagged :: "TickResult option \<Rightarrow> bool" where
  "flagged res = (case res of None \<Rightarrow> False | Some r \<Rightarrow> forumDestroyed r)"

text \<open>The homes of the walkers of one type, in order.\<close>

definition homesOf :: "WalkerType \<Rightarrow> Walker list \<Rightarrow> (int \<times> int) list" where
  "homesOf ty ws = map (\<lambda>w. (homeX w, homeZ w)) (filter (\<lambda>w. w_type w = ty) ws)"

text \<open>The cells of the scan that hold a building of one kind connected to the road network.\<close>

definition connectedCells :: "Grid \<Rightarrow> (int \<times> int) set \<Rightarrow> BuildingType \<Rightarrow> (int \<times> int) list" where
  "connectedCells g reach ty =
     filter (\<lambda>c. buildingAt g (fst c) (snd c) = Some ty \<and> isBuildingConnected g (fst c) (snd c) 1 reach)
       allCells"

text \<open>
  The grid and the reachable set a tick works with: those of the rebuilt road network when
  the network is marked dirty, the current ones otherwise.
\<close>

definition roadState :: "Game \<Rightarrow> Grid \<times> (int \<times> int) set" where
  "roadState s =
     (if roadsDirty s then (grid (rebuildRoadNetwork s), reachableRoads (rebuildRoadNetwork s))
      else (grid s, reachableRoads s))"



section \<open>Example states\<close>

definition farmGrid :: Grid where
  "farmGrid = fst (snd (snd (place [] (new_Grid 4) Farm 1 1 60)))"

definition farmRecords :: BuildingSystem where
  "farmRecords = fst (snd (place [] (new_Grid 4) Farm 1 1 60))"

definition wallGrid :: Grid where
  "wallGrid = fst (snd (snd (place [] (fst (snd (snd (place [] (fst (snd (snd (place [] (new_Grid 4) Forum 2 2 0)))) Wall 1 0 10)))) Wall 0 1 10)))"

definition raider :: Invader where
  "raider = newInvader 0 (0, 0)"

definition roadGrid :: Grid where
  "roadGrid = fold (modTile (markTile Road)) [(1, 0), (1, 1), (1, 2), (0, 1)] (new_Grid 4)"

definition carrier :: "int \<times> int \<Rightarrow> int \<times> int \<Rightarrow> Walker" where
  "carrier pos prev = (newWalker Water pos (fst prev) (snd prev))"


definition attacker :: Invader where
  "attacker = (newInvader 0 (15, 15))\<lparr>inv_state := Attacking, attackCooldown := 1\<rparr>"

definition siegeGame :: Game where
  "siegeGame =
     (start new_Game)\<lparr>grid := modTile (damageTile 98) (15, 15) (grid (start new_Game)),
        invasionSystem := (new_InvasionSystem (15, 15))\<lparr>invaders := [attacker], waveNumber := 1,
                             ticksUntilNextWave := 10\<rparr>\<rparr>"

definition noDraws :: Rng where
  "noDraws = (\<lambda>n. 0)"

definition villageGame :: Game where
  "villageGame =
     (let s0 = start new_Game;
          (ok, bs, g, gl) = place (buildingSystem s0) (grid s0) House 14 15 (gold (resources s0))
      in s0\<lparr>buildingSystem := bs,
             grid := modTile (serviceTile Food) (14, 15) (modTile (serviceTile Water) (14, 15) g),
             resources := (resources s0)\<lparr>gold := gl, food := 10\<rparr>\<rparr>)"

text \<open>
  A town with a well and a market beside the forum, at tick 3 with the given food stock,
  the road network marked dirty as placing a building leaves it.
\<close>

definition townGame :: "rat \<Rightarrow> Game" where
  "townGame fd =
     (let s0 = start new_Game;
          (ok1, bs1, g1, gold1) = place (buildingSystem s0) (grid s0) Well 14 15 (gold (resources s0));
          (ok2, bs2, g2, gold2) = place bs1 g1 Market 15 14 gold1
      in s0\<lparr>buildingSystem := bs2, grid := g2, resources := (resources s0)\<lparr>gold := gold2, food := fd\<rparr>,
             roadsDirty := True, tickCount := 3\<rparr>)"


section \<open>Grid updates\<close>

lemma set_offsets: "set (offsets n) = {d. 0 \<le> d \<and> d < n}"
  unfolding offsets_def
proof (intro set_eqI iffI)
  fix d assume "d \<in> set (map int [0..<nat n])"
  then show "d \<in> {d. 0 \<le> d \<and> d < n}" by auto
next
  fix d assume "d \<in> {d. 0 \<le> d \<and> d < n}"
  then have "d = int (nat d)" "nat d < nat n" by auto
  then show "d \<in> set (map int [0..<nat n])"
    by (metis atLeastLessThan_iff atLeastLessThan_upt image_eqI list.set_map zero_le)
qed

lemma set_footprint:
  "set (footprint px pz n) = {(px + dx, pz + dz) | dx dz. 0 \<le> dx \<and> dx < n \<and> 0 \<le> dz \<and> dz < n}"
  unfolding footprint_def by (auto simp: set_offsets)

lemma isInBounds_tiles_update [simp]: "isInBounds (g\<lparr>tiles := ts\<rparr>) px pz = isInBounds g px pz"
  by (simp add: isInBounds_def)

lemma gsize_modTile [simp]: "gsize (modTile f c g) = gsize g"
  by (simp add: modTile_def split: prod.splits)

lemma isInBounds_modTile [simp]: "isInBounds (modTile f c g) px pz = isInBounds g px pz"
  by (simp add: isInBounds_def)

lemma wf_grid_rows:
  assumes "wf_grid g" "isInBounds g cx cz"
  shows "nat cx < length (tiles g)" "nat cz < length (tiles g ! nat cx)"
proof -
  show lx: "nat cx < length (tiles g)"
    using assms by (auto simp: wf_grid_def isInBounds_def)
  then have "tiles g ! nat cx \<in> set (tiles g)" by simp
  then have "gsize g \<le> int (length (tiles g ! nat cx))"
    using assms(1) by (simp add: wf_grid_def list_all_iff)
  then show "nat cz < length (tiles g ! nat cx)"
    using assms(2) by (auto simp: isInBounds_def)
qed

lemma wf_grid_modTile: "wf_grid g \<Longrightarrow> wf_grid (modTile f c g)"
proof -
  assume wf: "wf_grid g"
  obtain cx cz where c: "c = (cx, cz)" by (cases c)
  show ?thesis
  proof (cases "isInBounds g cx cz")
    case False
    then show ?thesis using wf by (simp add: c modTile_def)
  next
    case True
    note r = wf_grid_rows[OF wf True]
    have "\<forall>row\<in>set (tiles g). gsize g \<le> int (length row)"
      using wf by (simp add: wf_grid_def list_all_iff)
    moreover have "gsize g \<le> int (length ((tiles g ! nat cx)[nat cz := f (tiles g ! nat cx ! nat cz)]))"
      using calculation r by simp
    ultimately have "\<forall>row\<in>set ((tiles g)[nat cx := (tiles g ! nat cx)[nat cz := f (tiles g ! nat cx ! nat cz)]]). gsize g \<le> int (length row)"
      using set_update_subset_insert by fastforce
    then show ?thesis
      using wf True by (simp add: c modTile_def wf_grid_def list_all_iff)
  qed
qed

lemma getTile_modTile:
  assumes "wf_grid g"
  shows "getTile (modTile f c g) px pz =
     (if c = (px, pz) then map_option f (getTile g px pz) else getTile g px pz)"
proof -
  obtain cx cz where c: "c = (cx, cz)" by (cases c)
  show ?thesis
  proof (cases "isInBounds g cx cz")
    case False
    then show ?thesis by (auto simp: c modTile_def getTile_def)
  next
    case True
    note r = wf_grid_rows[OF assms True]
    show ?thesis
    proof (cases "isInBounds g px pz")
      case False
      then show ?thesis using True by (auto simp: c getTile_def)
    next
      case ib: True
      have eqs: "nat px = nat cx \<longleftrightarrow> px = cx" "nat pz = nat cz \<longleftrightarrow> pz = cz"
        using True ib by (auto simp: isInBounds_def)
      show ?thesis
        using True ib r eqs
        by (auto simp: c modTile_def getTile_def nth_list_update)
    qed
  qed
qed

lemma wf_grid_fold_modTile: "wf_grid g \<Longrightarrow> wf_grid (fold (modTile f) cs g)"
  by (induction cs arbitrary: g) (auto simp: wf_grid_modTile)

lemma isInBounds_fold_modTile [simp]: "isInBounds (fold (modTile f) cs g) px pz = isInBounds g px pz"
  by (induction cs arbitrary: g) auto

lemma getTile_fold_modTile_other:
  assumes "wf_grid g" "(px, pz) \<notin> set cs"
  shows "getTile (fold (modTile f) cs g) px pz = getTile g px pz"
  using assms
  by (induction cs arbitrary: g) (auto simp: wf_grid_modTile getTile_modTile)

lemma getTile_fold_modTile_in:
  assumes "wf_grid g" "(px, pz) \<in> set cs" "\<And>t. f (f t) = f t"
  shows "getTile (fold (modTile f) cs g) px pz = map_option f (getTile g px pz)"
  using assms(1,2)
proof (induction cs arbitrary: g)
  case Nil
  then show ?case by simp
next
  case (Cons c cs)
  show ?case
  proof (cases "(px, pz) \<in> set cs")
    case True
    then have "getTile (fold (modTile f) cs (modTile f c g)) px pz = map_option f (getTile (modTile f c g) px pz)"
      using Cons.IH[of "modTile f c g"] Cons.prems by (simp add: wf_grid_modTile)
    then show ?thesis
      using Cons.prems assms(3) by (auto simp: getTile_modTile option.map_comp comp_def)
  next
    case False
    then have "c = (px, pz)" using Cons.prems by auto
    then show ?thesis
      using False Cons.prems
      by (simp add: getTile_fold_modTile_other wf_grid_modTile getTile_modTile)
  qed
qed

lemma getTile_Some_iff: "(\<exists>t. getTile g px pz = Some t) \<longleftrightarrow> isInBounds g px pz"
  by (simp add: getTile_def)

section \<open>Placement and removal\<close>

lemma wf_grid_new_Grid: "0 \<le> n \<Longrightarrow> wf_grid (new_Grid n)"
  by (auto simp: wf_grid_def new_Grid_def new_row_def offsets_def list_all_iff)

lemma canPlace_iff:
  "canPlace g type px pz \<longleftrightarrow>
     (\<forall>dx dz. 0 \<le> dx \<and> dx < bsize (BUILDINGS type) \<and> 0 \<le> dz \<and> dz < bsize (BUILDINGS type) \<longrightarrow>
        isInBounds g (px + dx) (pz + dz) \<and>
        (\<exists>t. getTile g (px + dx) (pz + dz) = Some t \<and> building t = None))"
proof -
  have "cellFree g c \<longleftrightarrow> isInBounds g (fst c) (snd c) \<and>
        (\<exists>t. getTile g (fst c) (snd c) = Some t \<and> building t = None)" for c
    by (cases c) (auto simp: cellFree_def split: option.splits)
  then show ?thesis
    unfolding canPlace_def list_all_iff set_footprint by fastforce
qed

lemma markTile_idem: "markTile type (markTile type t) = markTile type t"
  by (simp add: markTile_def)

text \<open>
  Claim C1. On a well-formed grid, \<open>place\<close> returns true exactly when the funds cover the
  catalog cost and every cell of the footprint is in bounds and unoccupied. On success the
  funds drop by exactly the cost and every footprint cell holds the kind with the catalog's
  hit points. On failure it returns false and the building records, the grid and the funds
  are what they were.
\<close>

theorem place_correct:
  assumes wf: "wf_grid g"
  shows "(fst (place bs g type px pz funds) \<longleftrightarrow>
            funds \<ge> cost (BUILDINGS type) \<and>
            (\<forall>dx dz. 0 \<le> dx \<and> dx < bsize (BUILDINGS type) \<and> 0 \<le> dz \<and> dz < bsize (BUILDINGS type) \<longrightarrow>
               isInBounds g (px + dx) (pz + dz) \<and>
               (\<exists>t. getTile g (px + dx) (pz + dz) = Some t \<and> building t = None)))
       \<and> (fst (place bs g type px pz funds) \<longrightarrow>
            snd (snd (snd (place bs g type px pz funds))) = funds - cost (BUILDINGS type) \<and>
            (\<forall>dx dz. 0 \<le> dx \<and> dx < bsize (BUILDINGS type) \<and> 0 \<le> dz \<and> dz < bsize (BUILDINGS type) \<longrightarrow>
               (\<exists>t. getTile (fst (snd (snd (place bs g type px pz funds)))) (px + dx) (pz + dz) = Some t
                    \<and> building t = Some type \<and> buildingHp t = bhp (BUILDINGS type))))
       \<and> (\<not> fst (place bs g type px pz funds) \<longrightarrow>
            place bs g type px pz funds = (False, bs, g, funds))"
proof (intro conjI impI)
  show "fst (place bs g type px pz funds) \<longleftrightarrow>
            funds \<ge> cost (BUILDINGS type) \<and>
            (\<forall>dx dz. 0 \<le> dx \<and> dx < bsize (BUILDINGS type) \<and> 0 \<le> dz \<and> dz < bsize (BUILDINGS type) \<longrightarrow>
               isInBounds g (px + dx) (pz + dz) \<and>
               (\<exists>t. getTile g (px + dx) (pz + dz) = Some t \<and> building t = None))"
    unfolding canPlace_iff[symmetric] by (auto simp: place_def Let_def)
next
  assume ok: "fst (place bs g type px pz funds)"
  then have cp: "canPlace g type px pz" and g: "\<not> funds < cost (BUILDINGS type)"
    by (auto simp: place_def Let_def split: if_splits)
  show "snd (snd (snd (place bs g type px pz funds))) = funds - cost (BUILDINGS type)"
    using cp g by (simp add: place_def Let_def)
  have g': "fst (snd (snd (place bs g type px pz funds)))
      = fold (modTile (markTile type)) (footprint px pz (bsize (BUILDINGS type))) g"
    using cp g by (simp add: place_def Let_def)
  show "\<forall>dx dz. 0 \<le> dx \<and> dx < bsize (BUILDINGS type) \<and> 0 \<le> dz \<and> dz < bsize (BUILDINGS type) \<longrightarrow>
               (\<exists>t. getTile (fst (snd (snd (place bs g type px pz funds)))) (px + dx) (pz + dz) = Some t
                    \<and> building t = Some type \<and> buildingHp t = bhp (BUILDINGS type))"
  proof (intro allI impI)
    fix dx dz
    assume r: "0 \<le> dx \<and> dx < bsize (BUILDINGS type) \<and> 0 \<le> dz \<and> dz < bsize (BUILDINGS type)"
    then have mem: "(px + dx, pz + dz) \<in> set (footprint px pz (bsize (BUILDINGS type)))"
      by (auto simp: set_footprint)
    from cp r obtain t where t: "getTile g (px + dx) (pz + dz) = Some t"
      unfolding canPlace_iff by blast
    have "getTile (fold (modTile (markTile type)) (footprint px pz (bsize (BUILDINGS type))) g) (px + dx) (pz + dz)
        = Some (markTile type t)"
      using getTile_fold_modTile_in[OF wf mem, of "markTile type"] t
      by (simp add: markTile_idem)
    then show "\<exists>t. getTile (fst (snd (snd (place bs g type px pz funds)))) (px + dx) (pz + dz) = Some t
                    \<and> building t = Some type \<and> buildingHp t = bhp (BUILDINGS type)"
      unfolding g' by (simp add: markTile_def)
  qed
next
  assume "\<not> fst (place bs g type px pz funds)"
  then show "place bs g type px pz funds = (False, bs, g, funds)"
    by (auto simp: place_def Let_def split: if_splits)
qed

theorem place_correct_witness:
  "wf_grid (new_Grid 4)
   \<and> fst (place [] (new_Grid 4) Farm 1 1 60)
   \<and> snd (snd (snd (place [] (new_Grid 4) Farm 1 1 60))) = 10
   \<and> (\<exists>t. getTile (fst (snd (snd (place [] (new_Grid 4) Farm 1 1 60)))) 2 2 = Some t
          \<and> building t = Some Farm \<and> buildingHp t = 15)
   \<and> \<not> fst (place [] (new_Grid 4) Farm 1 1 49)
   \<and> place [] (new_Grid 4) Farm 1 1 49 = (False, [], new_Grid 4, 49)
   \<and> \<not> fst (place [] (new_Grid 4) Farm 3 1 60)"
proof -
  have wf: "wf_grid (new_Grid 4)" by (rule wf_grid_new_Grid) simp
  have ok: "fst (place [] (new_Grid 4) Farm 1 1 60)" by code_simp
  have no1: "\<not> fst (place [] (new_Grid 4) Farm 1 1 49)" by code_simp
  have no2: "\<not> fst (place [] (new_Grid 4) Farm 3 1 60)" by code_simp
  note a = place_correct[OF wf, of "[]" Farm 1 1 60]
  note b = place_correct[OF wf, of "[]" Farm 1 1 49]
  have r: "(0::int) \<le> 1 \<and> (1::int) < bsize (BUILDINGS Farm) \<and> (0::int) \<le> 1 \<and> (1::int) < bsize (BUILDINGS Farm)"
    by simp
  from a ok have "snd (snd (snd (place [] (new_Grid 4) Farm 1 1 60))) = 60 - cost (BUILDINGS Farm)"
    by blast
  moreover from a ok r have "\<exists>t. getTile (fst (snd (snd (place [] (new_Grid 4) Farm 1 1 60)))) (1 + 1) (1 + 1) = Some t
          \<and> building t = Some Farm \<and> buildingHp t = bhp (BUILDINGS Farm)"
    by blast
  moreover from b no1 have "place [] (new_Grid 4) Farm 1 1 49 = (False, [], new_Grid 4, 49)"
    by blast
  ultimately show ?thesis using wf ok no1 no2 by simp
qed

lemma covers_footprint:
  "covers cx cz b \<longleftrightarrow> (cx, cz) \<in> set (footprint (pb_x b) (pb_z b) (bsize (BUILDINGS (pb_type b))))"
proof
  assume c: "covers cx cz b"
  then have "cx = pb_x b + (cx - pb_x b)" "cz = pb_z b + (cz - pb_z b)"
    "0 \<le> cx - pb_x b" "cx - pb_x b < bsize (BUILDINGS (pb_type b))"
    "0 \<le> cz - pb_z b" "cz - pb_z b < bsize (BUILDINGS (pb_type b))"
    by (auto simp: covers_def Let_def)
  then show "(cx, cz) \<in> set (footprint (pb_x b) (pb_z b) (bsize (BUILDINGS (pb_type b))))"
    unfolding set_footprint by blast
next
  assume "(cx, cz) \<in> set (footprint (pb_x b) (pb_z b) (bsize (BUILDINGS (pb_type b))))"
  then show "covers cx cz b"
    by (auto simp: set_footprint covers_def Let_def)
qed

lemma findIndex_None: "findIndex P xs = None \<longleftrightarrow> (\<forall>y\<in>set xs. \<not> P y)"
  by (induction xs) (auto split: option.splits)

lemma findIndex_Some:
  "findIndex P xs = Some i \<Longrightarrow> i < length xs \<and> P (xs ! i) \<and> (\<forall>j<i. \<not> P (xs ! j))"
proof (induction xs arbitrary: i)
  case Nil
  then show ?case by simp
next
  case (Cons y ys)
  show ?case
  proof (cases "P y")
    case True
    then show ?thesis using Cons.prems by simp
  next
    case False
    then obtain k where k: "findIndex P ys = Some k" "i = Suc k"
      using Cons.prems by (auto split: option.splits)
    from Cons.IH[OF k(1)] False k(2) show ?thesis
      by (auto simp: nth_Cons split: nat.splits)
  qed
qed

lemma findIndex_find:
  "find P xs = (case findIndex P xs of None \<Rightarrow> None | Some i \<Rightarrow> Some (xs ! i))"
  by (induction xs) (auto split: option.splits)

lemma clearTile_idem: "clearTile (clearTile t) = clearTile t"
  by (simp add: clearTile_def)

text \<open>
  Claim C2. \<open>removeBuildingAt\<close> locates the first placed building whose footprint contains
  the cell, whether or not the cell is its origin, removes that record and clears building
  and hit points on every cell of its footprint, the given cell included. When no placed
  building covers the cell nothing changes; in particular, where the records agree with the
  grid, removing at an empty cell is a no-op.
\<close>

theorem removeBuildingAt_correct:
  assumes wf: "wf_grid g"
  shows "(\<forall>b. findBuildingAt bs px pz = Some b \<longrightarrow>
            covers px pz b \<and>
            (\<exists>idx < length bs. bs ! idx = b \<and> (\<forall>j < idx. \<not> covers px pz (bs ! j)) \<and>
               fst (removeBuildingAt bs g px pz) = take idx bs @ drop (Suc idx) bs) \<and>
            (\<forall>dx dz t. 0 \<le> dx \<and> dx < bsize (BUILDINGS (pb_type b)) \<and>
                        0 \<le> dz \<and> dz < bsize (BUILDINGS (pb_type b)) \<and>
                        getTile (snd (removeBuildingAt bs g px pz)) (pb_x b + dx) (pb_z b + dz) = Some t \<longrightarrow>
               building t = None \<and> buildingHp t = 0) \<and>
            (\<forall>t. getTile (snd (removeBuildingAt bs g px pz)) px pz = Some t \<longrightarrow>
               building t = None \<and> buildingHp t = 0))
       \<and> ((\<forall>b \<in> set bs. \<not> covers px pz b) \<longrightarrow> removeBuildingAt bs g px pz = (bs, g))
       \<and> ((\<forall>b \<in> set bs. \<forall>cx cz. covers cx cz b \<longrightarrow>
               (\<exists>t. getTile g cx cz = Some t \<and> building t = Some (pb_type b))) \<and>
           (\<exists>t. getTile g px pz = Some t \<and> building t = None) \<longrightarrow>
             removeBuildingAt bs g px pz = (bs, g))"
proof -
  have A: "covers px pz b \<and>
            (\<exists>idx < length bs. bs ! idx = b \<and> (\<forall>j < idx. \<not> covers px pz (bs ! j)) \<and>
               fst (removeBuildingAt bs g px pz) = take idx bs @ drop (Suc idx) bs) \<and>
            (\<forall>dx dz t. 0 \<le> dx \<and> dx < bsize (BUILDINGS (pb_type b)) \<and>
                        0 \<le> dz \<and> dz < bsize (BUILDINGS (pb_type b)) \<and>
                        getTile (snd (removeBuildingAt bs g px pz)) (pb_x b + dx) (pb_z b + dz) = Some t \<longrightarrow>
               building t = None \<and> buildingHp t = 0) \<and>
            (\<forall>t. getTile (snd (removeBuildingAt bs g px pz)) px pz = Some t \<longrightarrow>
               building t = None \<and> buildingHp t = 0)"
    if fb: "findBuildingAt bs px pz = Some b" for b
  proof -
    from fb obtain idx where idx: "findIndex (covers px pz) bs = Some idx" and b: "b = bs ! idx"
      by (auto simp: findBuildingAt_def findIndex_find split: option.splits)
    note fi = findIndex_Some[OF idx]
    have cov: "covers px pz b" using fi b by simp
    have res: "removeBuildingAt bs g px pz =
        (take idx bs @ drop (Suc idx) bs,
         fold (modTile clearTile) (footprint (pb_x b) (pb_z b) (bsize (BUILDINGS (pb_type b)))) g)"
      using idx b by (simp add: removeBuildingAt_def Let_def splice1_def)
    have rec: "\<exists>idx < length bs. bs ! idx = b \<and> (\<forall>j < idx. \<not> covers px pz (bs ! j)) \<and>
                 fst (removeBuildingAt bs g px pz) = take idx bs @ drop (Suc idx) bs"
      using fi b res by auto
    have cleared: "building t = None \<and> buildingHp t = 0"
      if mem: "(cx, cz) \<in> set (footprint (pb_x b) (pb_z b) (bsize (BUILDINGS (pb_type b))))"
        and t: "getTile (snd (removeBuildingAt bs g px pz)) cx cz = Some t" for cx cz t
    proof -
      have "getTile (snd (removeBuildingAt bs g px pz)) cx cz = map_option clearTile (getTile g cx cz)"
        unfolding res using getTile_fold_modTile_in[OF wf mem, of clearTile]
        by (simp add: clearTile_idem)
      with t show ?thesis by (auto simp: clearTile_def)
    qed
    have fp: "\<forall>dx dz t. 0 \<le> dx \<and> dx < bsize (BUILDINGS (pb_type b)) \<and>
                          0 \<le> dz \<and> dz < bsize (BUILDINGS (pb_type b)) \<and>
                          getTile (snd (removeBuildingAt bs g px pz)) (pb_x b + dx) (pb_z b + dz) = Some t \<longrightarrow>
                 building t = None \<and> buildingHp t = 0"
    proof (intro allI impI)
      fix dx dz t
      assume a: "0 \<le> dx \<and> dx < bsize (BUILDINGS (pb_type b)) \<and>
                          0 \<le> dz \<and> dz < bsize (BUILDINGS (pb_type b)) \<and>
                          getTile (snd (removeBuildingAt bs g px pz)) (pb_x b + dx) (pb_z b + dz) = Some t"
      then have "(pb_x b + dx, pb_z b + dz) \<in> set (footprint (pb_x b) (pb_z b) (bsize (BUILDINGS (pb_type b))))"
        unfolding set_footprint by blast
      with a show "building t = None \<and> buildingHp t = 0" using cleared by blast
    qed
    have self: "\<forall>t. getTile (snd (removeBuildingAt bs g px pz)) px pz = Some t \<longrightarrow>
                 building t = None \<and> buildingHp t = 0"
      using cleared cov unfolding covers_footprint by blast
    show ?thesis using cov rec fp self by blast
  qed
  have B: "removeBuildingAt bs g px pz = (bs, g)" if "\<forall>b \<in> set bs. \<not> covers px pz b"
  proof -
    from that have "findIndex (covers px pz) bs = None" by (simp add: findIndex_None)
    then show ?thesis by (simp add: removeBuildingAt_def)
  qed
  have C: "removeBuildingAt bs g px pz = (bs, g)"
    if a: "(\<forall>b \<in> set bs. \<forall>cx cz. covers cx cz b \<longrightarrow>
               (\<exists>t. getTile g cx cz = Some t \<and> building t = Some (pb_type b))) \<and>
           (\<exists>t. getTile g px pz = Some t \<and> building t = None)"
  proof -
    from a have "\<forall>b \<in> set bs. \<not> covers px pz b" by fastforce
    then show ?thesis by (rule B)
  qed
  from A B C show ?thesis by blast
qed

theorem removeBuildingAt_correct_witness:
  "wf_grid farmGrid
   \<and> findBuildingAt farmRecords 2 2 = Some \<lparr>pb_type = Farm, pb_x = 1, pb_z = 1\<rparr>
   \<and> fst (removeBuildingAt farmRecords farmGrid 2 2) = []
   \<and> (\<exists>t. getTile (snd (removeBuildingAt farmRecords farmGrid 2 2)) 2 1 = Some t
          \<and> building t = None \<and> buildingHp t = 0)
   \<and> (\<exists>t. getTile (snd (removeBuildingAt farmRecords farmGrid 2 2)) 2 2 = Some t
          \<and> building t = None \<and> buildingHp t = 0)
   \<and> findBuildingAt farmRecords 0 0 = None
   \<and> removeBuildingAt farmRecords farmGrid 0 0 = (farmRecords, farmGrid)"
proof -
  have wf: "wf_grid farmGrid"
    unfolding farmGrid_def by code_simp
  have fb: "findBuildingAt farmRecords 2 2 = Some \<lparr>pb_type = Farm, pb_x = 1, pb_z = 1\<rparr>"
    unfolding farmRecords_def by code_simp
  have fn: "findBuildingAt farmRecords 0 0 = None"
    unfolding farmRecords_def by code_simp
  then have nc: "\<forall>b \<in> set farmRecords. \<not> covers 0 0 b"
    by (simp add: findBuildingAt_def find_None_iff)
  note t = removeBuildingAt_correct[OF wf, of farmRecords 2 2]
  note u = removeBuildingAt_correct[OF wf, of farmRecords 0 0]
  from t fb obtain idx where idx: "idx < length farmRecords"
      "fst (removeBuildingAt farmRecords farmGrid 2 2) = take idx farmRecords @ drop (Suc idx) farmRecords"
    by blast
  have len: "length farmRecords = 1"
    unfolding farmRecords_def by code_simp
  from idx len have r1: "fst (removeBuildingAt farmRecords farmGrid 2 2) = []" by simp
  have ib: "isInBounds (snd (removeBuildingAt farmRecords farmGrid 2 2)) 2 1"
       "isInBounds (snd (removeBuildingAt farmRecords farmGrid 2 2)) 2 2"
    unfolding farmRecords_def farmGrid_def by code_simp+
  then obtain t1 t2 where g: "getTile (snd (removeBuildingAt farmRecords farmGrid 2 2)) 2 1 = Some t1"
      "getTile (snd (removeBuildingAt farmRecords farmGrid 2 2)) 2 2 = Some t2"
    by (auto simp: getTile_def)
  have r: "(0::int) \<le> 1 \<and> (1::int) < bsize (BUILDINGS Farm) \<and> (0::int) \<le> 0 \<and> (0::int) < bsize (BUILDINGS Farm)"
    by simp
  from t fb have all: "\<forall>dx dz t. 0 \<le> dx \<and> dx < bsize (BUILDINGS Farm) \<and>
                        0 \<le> dz \<and> dz < bsize (BUILDINGS Farm) \<and>
                        getTile (snd (removeBuildingAt farmRecords farmGrid 2 2)) (1 + dx) (1 + dz) = Some t \<longrightarrow>
               building t = None \<and> buildingHp t = 0"
    by fastforce
  have "getTile (snd (removeBuildingAt farmRecords farmGrid 2 2)) (1 + 1) (1 + 0) = Some t1"
    using g(1) by simp
  with all r have r2: "building t1 = None \<and> buildingHp t1 = 0" by blast
  from t fb g(2) have r3: "building t2 = None \<and> buildingHp t2 = 0" by blast
  from u nc have r4: "removeBuildingAt farmRecords farmGrid 0 0 = (farmRecords, farmGrid)"
    by blast
  show ?thesis using wf fb fn r1 r2 r3 r4 g by simp
qed

section \<open>Routing: the search returns a shortest walk\<close>

lemma chain_det: "chain vis v p \<Longrightarrow> chain vis v p' \<Longrightarrow> p = p'"
proof (induction arbitrary: p' rule: chain.induct)
  case (root v)
  from root.prems root.hyps show ?case by (cases rule: chain.cases) auto
next
  case (step v u p)
  from step.prems show ?case
  proof (cases rule: chain.cases)
    case root
    then show ?thesis using step.hyps by simp
  next
    case (step u' q)
    then have "u' = u" using step.hyps by simp
    then show ?thesis using step step.IH by simp
  qed
qed

lemma chain_mono: "chain vis v p \<Longrightarrow> vis \<subseteq>\<^sub>m vis' \<Longrightarrow> chain vis' v p"
proof (induction rule: chain.induct)
  case (root v)
  then have "vis' v = Some None" by (metis domI map_le_def)
  then show ?case by (rule chain.root)
next
  case (step v u p)
  then have "vis' v = Some (Some u)" by (metis domI map_le_def)
  then show ?case using step by (auto intro: chain.step)
qed

lemma chain_last: "chain vis v p \<Longrightarrow> p \<noteq> [] \<and> last p = v"
  by (induction rule: chain.induct) auto

lemma reconstructPath_chain: "chain vis v p \<Longrightarrow> reconstructPath vis v acc = Some (p @ acc)"
proof (induction arbitrary: acc rule: chain.induct)
  case (root v)
  then show ?case by (subst reconstructPath.simps) simp
next
  case (step v u p)
  show ?case
    by (subst reconstructPath.simps) (simp add: step.hyps step.IH)
qed

lemma walk_nth: "walk g p \<longleftrightarrow> p \<noteq> [] \<and> (\<forall>i. Suc i < length p \<longrightarrow> isStep g (p ! i) (p ! Suc i))"
  by (simp add: walk_def successively_conv_nth)

lemma walk_snoc: "walk g p \<Longrightarrow> isStep g (last p) v \<Longrightarrow> walk g (p @ [v])"
  by (auto simp: walk_def successively_append_iff)

lemma walk_take:
  assumes "walk g w" "i < length w"
  shows "walk g (take (Suc i) w)" "hd (take (Suc i) w) = hd w" "last (take (Suc i) w) = w ! i"
        "length (take (Suc i) w) = Suc i"
proof -
  show "walk g (take (Suc i) w)"
    using assms by (auto simp: walk_nth)
  show "hd (take (Suc i) w) = hd w" using assms by (cases w) auto
  have "take (Suc i) w = take i w @ [w ! i]"
    using assms(2) by (simp add: take_Suc_conv_app_nth)
  then show "last (take (Suc i) w) = w ! i" by simp
  show "length (take (Suc i) w) = Suc i" using assms by simp
qed

lemma walk_exit:
  assumes "walk g w" "hd w \<in> D" "last w \<notin> D"
  shows "\<exists>i. Suc i < length w \<and> w ! i \<in> D \<and> w ! Suc i \<notin> D \<and> isStep g (w ! i) (w ! Suc i)"
proof -
  have ne: "w \<noteq> []" using assms(1) by (simp add: walk_def)
  define k where "k = (LEAST j. j < length w \<and> w ! j \<notin> D)"
  have ex: "length w - 1 < length w \<and> w ! (length w - 1) \<notin> D"
    using ne assms(3) by (simp add: last_conv_nth)
  then have k: "k < length w \<and> w ! k \<notin> D"
    unfolding k_def by (rule LeastI)
  have min: "\<And>j. j < k \<Longrightarrow> \<not> (j < length w \<and> w ! j \<notin> D)"
    unfolding k_def by (rule not_less_Least)
  have "k \<noteq> 0"
  proof
    assume "k = 0"
    then have "w ! 0 \<notin> D" using k by simp
    then show False using assms(2) ne by (simp add: hd_conv_nth)
  qed
  then obtain i where i: "k = Suc i" by (cases k) auto
  then have "w ! i \<in> D" using min[of i] k by auto
  moreover have "isStep g (w ! i) (w ! Suc i)" using assms(1) k i by (auto simp: walk_nth)
  ultimately show ?thesis using k i by blast
qed

text \<open>A walk that starts inside a set closed under steps ends inside it.\<close>

lemma walk_closed:
  assumes "walk g w" "hd w \<in> D" "\<And>a b. a \<in> D \<Longrightarrow> isStep g a b \<Longrightarrow> b \<in> D"
  shows "last w \<in> D"
proof (rule ccontr)
  assume "last w \<notin> D"
  from walk_exit[OF assms(1,2) this] assms(3) show False by blast
qed

lemma bfsInvI:
  assumes "vis s = Some None" "\<forall>v\<in>dom vis. shortest g s vis v" "set q \<subseteq> dom vis" "opn \<subseteq> dom vis"
    "levels vis q d" "\<forall>v\<in>opn. \<forall>p. chain vis v p \<longrightarrow> length p = d"
    "\<forall>v\<in>dom vis. v \<notin> set q \<union> opn \<longrightarrow> (\<forall>n. isStep g v n \<longrightarrow> n \<in> dom vis) \<and> \<not> reachedForum T v"
  shows "bfsInv g s T vis q opn d"
  unfolding bfsInv_def using assms by blast

lemma bfsInvD:
  assumes "bfsInv g s T vis q opn d"
  shows "vis s = Some None" "\<forall>v\<in>dom vis. shortest g s vis v" "set q \<subseteq> dom vis" "opn \<subseteq> dom vis"
    "levels vis q d" "\<forall>v\<in>opn. \<forall>p. chain vis v p \<longrightarrow> length p = d"
    "\<forall>v\<in>dom vis. v \<notin> set q \<union> opn \<longrightarrow> (\<forall>n. isStep g v n \<longrightarrow> n \<in> dom vis) \<and> \<not> reachedForum T v"
  using assms unfolding bfsInv_def by blast+

lemma levels_ge:
  assumes "levels vis q d" "v \<in> set q" "chain vis v p"
  shows "d \<le> length p \<and> length p \<le> Suc d"
proof -
  from assms(1) obtain q1 q2 where sp: "q = q1 @ q2"
      "\<forall>v\<in>set q1. \<forall>p. chain vis v p \<longrightarrow> length p = d"
      "\<forall>v\<in>set q2. \<forall>p. chain vis v p \<longrightarrow> length p = Suc d"
    unfolding levels_def by blast
  from assms(2) sp(1) have "v \<in> set q1 \<or> v \<in> set q2" by simp
  then show ?thesis
  proof
    assume "v \<in> set q1"
    with sp(2) assms(3) have "length p = d" by blast
    then show ?thesis by simp
  next
    assume "v \<in> set q2"
    with sp(3) assms(3) have "length p = Suc d" by blast
    then show ?thesis by simp
  qed
qed

lemma frontier_ge:
  assumes inv: "bfsInv g s T vis q opn d" and v: "v \<in> set q \<union> opn" and w: "walk g w" "hd w = s" "last w = v"
  shows "d \<le> length w"
proof -
  from bfsInvD(3,4)[OF inv] v have "v \<in> dom vis" by auto
  with bfsInvD(2)[OF inv] obtain p where p: "chain vis v p" "\<forall>w. walk g w \<and> hd w = s \<and> last w = v \<longrightarrow> length p \<le> length w"
    unfolding shortest_def by blast
  have "d \<le> length p"
  proof (cases "v \<in> opn")
    case True
    then show ?thesis using bfsInvD(6)[OF inv] p(1) by auto
  next
    case False
    then have "v \<in> set q" using v by simp
    moreover have "levels vis q d" by (rule bfsInvD(5)[OF inv])
    ultimately show ?thesis using p(1) levels_ge by blast
  qed
  moreover have "length p \<le> length w" using p(2) w by blast
  ultimately show ?thesis by simp
qed

lemma frontier_bound:
  assumes inv: "bfsInv g s T vis q opn d" and w: "walk g w" "hd w = s" "last w \<notin> dom vis"
  shows "Suc d \<le> length w"
proof -
  have s: "hd w \<in> dom vis" using bfsInvD(1)[OF inv] w(2) by auto
  from walk_exit[OF w(1) s w(3)] obtain i where
    i: "Suc i < length w" "w ! i \<in> dom vis" "w ! Suc i \<notin> dom vis" "isStep g (w ! i) (w ! Suc i)"
    by blast
  have fr: "w ! i \<in> set q \<union> opn"
  proof (rule ccontr)
    assume "w ! i \<notin> set q \<union> opn"
    then have "\<forall>n. isStep g (w ! i) n \<longrightarrow> n \<in> dom vis"
      using bfsInvD(7)[OF inv] i(2) by blast
    then show False using i(3,4) by blast
  qed
  have il: "i < length w" using i(1) by simp
  have "d \<le> length (take (Suc i) w)"
    using frontier_ge[OF inv fr walk_take(1)[OF w(1) il]] walk_take(2,3)[OF w(1) il] w(2)
    by simp
  then show ?thesis using i(1) by simp
qed

lemma chain_extend:
  assumes le: "vis \<subseteq>\<^sub>m vis'" and old: "chain vis v p0"
  shows "chain vis' v p \<longleftrightarrow> p = p0"
  using chain_mono[OF old le] chain_det by blast

lemma pop_inv:
  assumes "bfsInv g s T vis (cur # q) {} d"
  shows "\<exists>d'. bfsInv g s T vis q {cur} d'"
proof -
  from bfsInvD(5)[OF assms] obtain q1 q2 where sp: "cur # q = q1 @ q2"
      "\<forall>v\<in>set q1. \<forall>p. chain vis v p \<longrightarrow> length p = d"
      "\<forall>v\<in>set q2. \<forall>p. chain vis v p \<longrightarrow> length p = Suc d"
    unfolding levels_def by blast
  note D = bfsInvD[OF assms]
  have rest: "vis s = Some None" "\<forall>v\<in>dom vis. shortest g s vis v" "set q \<subseteq> dom vis" "{cur} \<subseteq> dom vis"
    "\<forall>v\<in>dom vis. v \<notin> set q \<union> {cur} \<longrightarrow> (\<forall>n. isStep g v n \<longrightarrow> n \<in> dom vis) \<and> \<not> reachedForum T v"
  proof -
    show "vis s = Some None" by (rule D(1))
    show "\<forall>v\<in>dom vis. shortest g s vis v" by (rule D(2))
    show "set q \<subseteq> dom vis" using D(3) by simp
    show "{cur} \<subseteq> dom vis" using D(3) by simp
    have "set (cur # q) \<union> {} = set q \<union> {cur}" by auto
    then show "\<forall>v\<in>dom vis. v \<notin> set q \<union> {cur} \<longrightarrow> (\<forall>n. isStep g v n \<longrightarrow> n \<in> dom vis) \<and> \<not> reachedForum T v"
      using D(7) by simp
  qed
  show ?thesis
  proof (cases q1)
    case Nil
    then have q2: "q2 = cur # q" using sp(1) by simp
    have "levels vis q (Suc d)"
      unfolding levels_def using sp(3) q2
      by (intro exI[of _ q] exI[of _ "[]"]) simp
    moreover have "\<forall>v\<in>{cur}. \<forall>p. chain vis v p \<longrightarrow> length p = Suc d"
      using sp(3) q2 by simp
    ultimately have "bfsInv g s T vis q {cur} (Suc d)"
      using rest by (intro bfsInvI)
    then show ?thesis ..
  next
    case (Cons a q1')
    then have a: "a = cur" "q = q1' @ q2" using sp(1) by simp_all
    have "levels vis q d"
      unfolding levels_def using sp(2,3) a Cons
      by (intro exI[of _ q1'] exI[of _ q2]) simp
    moreover have "\<forall>v\<in>{cur}. \<forall>p. chain vis v p \<longrightarrow> length p = d"
      using sp(2) a Cons by simp
    ultimately have "bfsInv g s T vis q {cur} d"
      using rest by (intro bfsInvI)
    then show ?thesis ..
  qed
qed

lemma close_inv:
  assumes "bfsInv g s T vis q {cur} d" "\<not> reachedForum T cur" "\<forall>n. isStep g cur n \<longrightarrow> n \<in> dom vis"
  shows "bfsInv g s T vis q {} d"
proof -
  note D = bfsInvD[OF assms(1)]
  have facts: "vis s = Some None" "\<forall>v\<in>dom vis. shortest g s vis v" "set q \<subseteq> dom vis"
    "levels vis q d"
    "\<forall>v\<in>dom vis. v \<notin> set q \<union> {cur} \<longrightarrow> (\<forall>n. isStep g v n \<longrightarrow> n \<in> dom vis) \<and> \<not> reachedForum T v"
    using D by simp_all
  have "(\<forall>n. isStep g v n \<longrightarrow> n \<in> dom vis) \<and> \<not> reachedForum T v"
    if "v \<in> dom vis" "v \<notin> set q \<union> {}" for v
  proof (cases "v = cur")
    case True
    then show ?thesis using assms(2,3) by simp
  next
    case False
    then show ?thesis using facts(5) that by blast
  qed
  then show ?thesis using facts(1-4) by (intro bfsInvI) auto
qed

lemma visit_inv:
  assumes inv: "bfsInv g s T vis q {cur} d"
    and nb: "n \<in> set (neighborsOf (fst cur) (snd cur))"
  shows "bfsInv g s T (fst (visitNeighbor g cur n (vis, q))) (snd (visitNeighbor g cur n (vis, q))) {cur} d
       \<and> dom vis \<subseteq> dom (fst (visitNeighbor g cur n (vis, q)))
       \<and> (isInBounds g (fst n) (snd n) \<longrightarrow> n \<in> dom (fst (visitNeighbor g cur n (vis, q))))"
proof (cases "vis n \<noteq> None \<or> \<not> isInBounds g (fst n) (snd n)")
  case True
  then have "visitNeighbor g cur n (vis, q) = (vis, q)" by (auto simp: visitNeighbor_def)
  then show ?thesis using inv True by auto
next
  case False
  then have nn: "n \<notin> dom vis" and ib: "isInBounds g (fst n) (snd n)" by auto
  define vis' where "vis' = vis(n \<mapsto> Some cur)"
  have res: "visitNeighbor g cur n (vis, q) = (vis', q @ [n])"
    using False by (auto simp: visitNeighbor_def vis'_def split: option.splits)
  have le: "vis \<subseteq>\<^sub>m vis'" using nn by (auto simp: vis'_def map_le_def)
  have dom: "dom vis' = insert n (dom vis)" by (simp add: vis'_def)
  have step: "isStep g cur n" using nb ib by (auto simp: isStep_def list_ex_iff)
  note D = bfsInvD[OF inv]
  have facts: "vis s = Some None" "\<forall>v\<in>dom vis. shortest g s vis v" "set q \<subseteq> dom vis" "cur \<in> dom vis"
    "levels vis q d" "\<forall>p. chain vis cur p \<longrightarrow> length p = d"
    "\<forall>v\<in>dom vis. v \<notin> set q \<union> {cur} \<longrightarrow> (\<forall>n. isStep g v n \<longrightarrow> n \<in> dom vis) \<and> \<not> reachedForum T v"
    using D by simp_all
  from facts(2,4) obtain pc where pc: "chain vis cur pc" "walk g pc" "hd pc = s"
    unfolding shortest_def by blast
  have lpc: "length pc = d" using facts(6) pc(1) by blast
  have pcl: "pc \<noteq> []" "last pc = cur" using chain_last[OF pc(1)] by auto
  have visn: "vis' n = Some (Some cur)" by (simp add: vis'_def)
  have cn: "chain vis' n (pc @ [n])"
    using chain.step[OF visn chain_mono[OF pc(1) le]] .
  have s1: "vis' s = Some None"
    using facts(1) nn by (auto simp: vis'_def)
  have old_shortest: "shortest g s vis' v" if "v \<in> dom vis" for v
  proof -
    from facts(2) that obtain p where p: "chain vis v p" "walk g p" "hd p = s"
        "\<forall>w. walk g w \<and> hd w = s \<and> last w = v \<longrightarrow> length p \<le> length w"
      unfolding shortest_def by blast
    then show ?thesis unfolding shortest_def using chain_mono[OF p(1) le] by blast
  qed
  have new_shortest: "shortest g s vis' n"
  proof -
    have "walk g (pc @ [n])" using walk_snoc[OF pc(2)] step pcl by simp
    moreover have "hd (pc @ [n]) = s" using pc(3) pcl by simp
    moreover have "length (pc @ [n]) \<le> length w" if "walk g w \<and> hd w = s \<and> last w = n" for w
      using frontier_bound[OF inv, of w] that nn lpc by simp
    ultimately show ?thesis unfolding shortest_def using cn by blast
  qed
  have s2: "\<forall>v\<in>dom vis'. shortest g s vis' v"
    using old_shortest new_shortest dom by auto
  have old_len: "(\<forall>p. chain vis' v p \<longrightarrow> length p = k)"
    if "v \<in> dom vis" "\<forall>p. chain vis v p \<longrightarrow> length p = k" for v k
  proof -
    from facts(2) that(1) obtain p0 where p0: "chain vis v p0" unfolding shortest_def by blast
    then show ?thesis using chain_extend[OF le p0] that(2) by auto
  qed
  have s5: "levels vis' (q @ [n]) d"
  proof -
    from facts(5) obtain q1 q2 where sp: "q = q1 @ q2"
        "\<forall>v\<in>set q1. \<forall>p. chain vis v p \<longrightarrow> length p = d"
        "\<forall>v\<in>set q2. \<forall>p. chain vis v p \<longrightarrow> length p = Suc d"
      unfolding levels_def by blast
    have a: "\<forall>v\<in>set q1. \<forall>p. chain vis' v p \<longrightarrow> length p = d"
    proof
      fix v assume v: "v \<in> set q1"
      then have "v \<in> dom vis" using sp(1) facts(3) by auto
      moreover have "\<forall>p. chain vis v p \<longrightarrow> length p = d" using sp(2) v by blast
      ultimately show "\<forall>p. chain vis' v p \<longrightarrow> length p = d" by (rule old_len)
    qed
    have b: "\<forall>v\<in>set q2. \<forall>p. chain vis' v p \<longrightarrow> length p = Suc d"
    proof
      fix v assume v: "v \<in> set q2"
      then have "v \<in> dom vis" using sp(1) facts(3) by auto
      moreover have "\<forall>p. chain vis v p \<longrightarrow> length p = Suc d" using sp(3) v by blast
      ultimately show "\<forall>p. chain vis' v p \<longrightarrow> length p = Suc d" by (rule old_len)
    qed
    have c: "\<forall>p. chain vis' n p \<longrightarrow> length p = Suc d"
    proof (intro allI impI)
      fix p assume "chain vis' n p"
      then have "p = pc @ [n]" using chain_det[OF cn] by simp
      then show "length p = Suc d" using lpc by simp
    qed
    show ?thesis unfolding levels_def
      using sp(1) a b c by (intro exI[of _ q1] exI[of _ "q2 @ [n]"]) auto
  qed
  have s6: "\<forall>v\<in>{cur}. \<forall>p. chain vis' v p \<longrightarrow> length p = d"
    using old_len[OF facts(4) facts(6)] by simp
  have s7: "\<forall>v\<in>dom vis'. v \<notin> set (q @ [n]) \<union> {cur} \<longrightarrow>
       (\<forall>m. isStep g v m \<longrightarrow> m \<in> dom vis') \<and> \<not> reachedForum T v"
  proof (intro ballI impI)
    fix v assume v: "v \<in> dom vis'" "v \<notin> set (q @ [n]) \<union> {cur}"
    then have "v \<in> dom vis" "v \<notin> set q \<union> {cur}" using dom by auto
    with facts(7) have "(\<forall>m. isStep g v m \<longrightarrow> m \<in> dom vis) \<and> \<not> reachedForum T v" by blast
    then show "(\<forall>m. isStep g v m \<longrightarrow> m \<in> dom vis') \<and> \<not> reachedForum T v"
      using dom by blast
  qed
  have s3: "set (q @ [n]) \<subseteq> dom vis'" using facts(3) dom by auto
  have s4: "{cur} \<subseteq> dom vis'" using facts(4) dom by auto
  have "bfsInv g s T vis' (q @ [n]) {cur} d"
    using s1 s2 s3 s4 s5 s6 s7 by (rule bfsInvI)
  moreover have "dom vis \<subseteq> dom vis'" using dom by auto
  moreover have "n \<in> dom vis'" using dom by simp
  ultimately show ?thesis unfolding res by simp
qed

lemma fold_inv:
  assumes "bfsInv g s T vis q {cur} d" "set ns \<subseteq> set (neighborsOf (fst cur) (snd cur))"
  shows "bfsInv g s T (fst (fold (visitNeighbor g cur) ns (vis, q)))
                      (snd (fold (visitNeighbor g cur) ns (vis, q))) {cur} d
       \<and> dom vis \<subseteq> dom (fst (fold (visitNeighbor g cur) ns (vis, q)))
       \<and> (\<forall>n\<in>set ns. isInBounds g (fst n) (snd n) \<longrightarrow> n \<in> dom (fst (fold (visitNeighbor g cur) ns (vis, q))))"
  using assms
proof (induction ns arbitrary: vis q)
  case Nil
  then show ?case by simp
next
  case (Cons n ns)
  obtain vis1 q1 where r: "visitNeighbor g cur n (vis, q) = (vis1, q1)" by (cases "visitNeighbor g cur n (vis, q)")
  have nb: "n \<in> set (neighborsOf (fst cur) (snd cur))" using Cons.prems(2) by simp
  from visit_inv[OF Cons.prems(1) nb] r
  have v: "bfsInv g s T vis1 q1 {cur} d" "dom vis \<subseteq> dom vis1"
      "isInBounds g (fst n) (snd n) \<longrightarrow> n \<in> dom vis1"
    by simp_all
  have sub: "set ns \<subseteq> set (neighborsOf (fst cur) (snd cur))" using Cons.prems(2) by simp
  from Cons.IH[OF v(1) sub] v(2,3) r show ?case by auto
qed

lemma isStep_neighbor: "isStep g a b \<Longrightarrow> b \<in> set (neighborsOf (fst a) (snd a)) \<and> isInBounds g (fst b) (snd b)"
  by (auto simp: isStep_def list_ex_iff)

lemma bfsLoop_correct:
  assumes "bfsInv g s T vis q {} d"
  shows "(\<forall>vis' c. bfsLoop g T vis q = Some (vis', c) \<longrightarrow>
            reachedForum T c \<and>
            (\<exists>p. chain vis' c p \<and> walk g p \<and> hd p = s \<and>
                 (\<forall>w. walk g w \<and> hd w = s \<and> reachedForum T (last w) \<longrightarrow> length p \<le> length w)))
       \<and> (bfsLoop g T vis q = None \<longrightarrow> \<not> (\<exists>w. walk g w \<and> hd w = s \<and> reachedForum T (last w)))"
  using assms
proof (induction g T vis q arbitrary: d rule: bfsLoop.induct)
  case (1 g T vis)
  note D = bfsInvD[OF "1.prems"]
  have D7: "\<forall>v\<in>dom vis. (\<forall>n. isStep g v n \<longrightarrow> n \<in> dom vis) \<and> \<not> reachedForum T v"
    using D(7) by simp
  have "\<not> reachedForum T (last w)" if w: "walk g w" "hd w = s" for w
  proof -
    have cl: "\<And>a b. a \<in> dom vis \<Longrightarrow> isStep g a b \<Longrightarrow> b \<in> dom vis"
      using D7 by blast
    have "hd w \<in> dom vis" using D(1) w(2) by auto
    from walk_closed[OF w(1) this cl] have "last w \<in> dom vis" by simp
    then show ?thesis using D7 by blast
  qed
  then show ?case by (auto simp: bfsLoop.simps)
next
  case (2 g T vis cur q)
  from pop_inv[OF "2.prems"] obtain d' where inv': "bfsInv g s T vis q {cur} d'" by blast
  note D = bfsInvD[OF inv']
  show ?case
  proof (cases "reachedForum T cur")
    case True
    have cd: "cur \<in> dom vis" using D(4) by simp
    with D(2) obtain pc where pc: "chain vis cur pc" "walk g pc" "hd pc = s"
      unfolding shortest_def by blast
    have lpc: "length pc = d'" using D(6) pc(1) by simp
    have "length pc \<le> length w" if w: "walk g w \<and> hd w = s \<and> reachedForum T (last w)" for w
    proof (cases "last w \<in> dom vis")
      case False
      from frontier_bound[OF inv' _ _ False] w lpc show ?thesis by simp
    next
      case in_dom: True
      have "last w \<in> set q \<union> {cur}"
      proof (rule ccontr)
        assume "last w \<notin> set q \<union> {cur}"
        with D(7) in_dom have "\<not> reachedForum T (last w)" by blast
        with w show False by simp
      qed
      from frontier_ge[OF inv' this] w lpc show ?thesis by simp
    qed
    then have "reachedForum T cur \<and>
            (\<exists>p. chain vis cur p \<and> walk g p \<and> hd p = s \<and>
                 (\<forall>w. walk g w \<and> hd w = s \<and> reachedForum T (last w) \<longrightarrow> length p \<le> length w))"
      using True pc by blast
    moreover have "bfsLoop g T vis (cur # q) = Some (vis, cur)" using True by (simp add: bfsLoop.simps)
    ultimately show ?thesis by auto
  next
    case False
    define r where "r = fold (visitNeighbor g cur) (neighborsOf (fst cur) (snd cur)) (vis, q)"
    from fold_inv[OF inv' subset_refl]
    have f: "bfsInv g s T (fst r) (snd r) {cur} d'"
        "\<forall>n\<in>set (neighborsOf (fst cur) (snd cur)). isInBounds g (fst n) (snd n) \<longrightarrow> n \<in> dom (fst r)"
      unfolding r_def by simp_all
    have "\<forall>n. isStep g cur n \<longrightarrow> n \<in> dom (fst r)"
      using f(2) isStep_neighbor by blast
    from close_inv[OF f(1) False this] have "bfsInv g s T (fst r) (snd r) {} d'" .
    from "2.IH"[OF False this[unfolded r_def]] False show ?thesis
      by (simp add: r_def bfsLoop.simps)
  qed
qed

lemma bfsInv_init: "bfsInv g s T (Map.empty(s \<mapsto> None)) [s] {} 1"
proof (rule bfsInvI)
  let ?vis = "Map.empty(s \<mapsto> None) :: Visited"
  show "?vis s = Some None" by simp
  have c: "chain ?vis s [s]" by (rule chain.root) simp
  have w: "walk g [s]" by (simp add: walk_def)
  have "shortest g s ?vis s"
    unfolding shortest_def
  proof (intro exI conjI allI impI)
    show "chain ?vis s [s]" by (rule c)
    show "walk g [s]" by (rule w)
    show "hd [s] = s" by simp
    fix w' assume "walk g w' \<and> hd w' = s \<and> last w' = s"
    then have "w' \<noteq> []" by (simp add: walk_def)
    then show "length [s] \<le> length w'" by (cases w') auto
  qed
  then show "\<forall>v\<in>dom ?vis. shortest g s ?vis v" by simp
  show "set [s] \<subseteq> dom ?vis" by simp
  show "{} \<subseteq> dom ?vis" by simp
  have "\<forall>p. chain ?vis s p \<longrightarrow> length p = 1"
  proof (intro allI impI)
    fix p assume "chain ?vis s p"
    then have "p = [s]" using chain_det[OF c] by simp
    then show "length p = 1" by simp
  qed
  then show "levels ?vis [s] 1"
    unfolding levels_def by (intro exI[of _ "[s]"] exI[of _ "[]"]) simp
  show "\<forall>v\<in>{}. \<forall>p. chain ?vis v p \<longrightarrow> length p = 1" by simp
  show "\<forall>v\<in>dom ?vis. v \<notin> set [s] \<union> {} \<longrightarrow> (\<forall>n. isStep g v n \<longrightarrow> n \<in> dom ?vis) \<and> \<not> reachedForum T v"
    by simp
qed

lemma visitNeighbor_tiles:
  "gsize g' = gsize g \<Longrightarrow> visitNeighbor g' cur n acc = visitNeighbor g cur n acc"
  by (cases acc) (auto simp: visitNeighbor_def isInBounds_def split: option.splits)

lemma bfsLoop_tiles:
  "gsize g' = gsize g \<Longrightarrow> bfsLoop g' T vis q = bfsLoop g T vis q"
proof (induction g T vis q rule: bfsLoop.induct)
  case (1 g T vis)
  then show ?case by (simp add: bfsLoop.simps)
next
  case (2 g T vis cur q)
  have "visitNeighbor g' cur = visitNeighbor g cur"
    using visitNeighbor_tiles[OF "2.prems"] by (intro ext)
  then show ?case using 2 by (simp add: bfsLoop.simps)
qed

lemma bfs_from_start:
  "(\<forall>vis' c. bfsLoop g T (Map.empty(s \<mapsto> None)) [s] = Some (vis', c) \<longrightarrow>
            reachedForum T c \<and>
            (\<exists>p. chain vis' c p \<and> walk g p \<and> hd p = s \<and>
                 (\<forall>w. walk g w \<and> hd w = s \<and> reachedForum T (last w) \<longrightarrow> length p \<le> length w)))
       \<and> (bfsLoop g T (Map.empty(s \<mapsto> None)) [s] = None \<longrightarrow>
             \<not> (\<exists>w. walk g w \<and> hd w = s \<and> reachedForum T (last w)))"
  by (rule bfsLoop_correct[OF bfsInv_init])

lemma computePath_total: "\<exists>iv'. computePath fp iv g = Some iv'"
proof (cases "bfsLoop g fp (Map.empty((inv_x iv, inv_z iv) \<mapsto> None)) [(inv_x iv, inv_z iv)]")
  case None
  then show ?thesis by (simp add: computePath_def Let_def)
next
  case (Some r)
  obtain vis' c where r: "r = (vis', c)" by (cases r)
  from bfs_from_start[where g=g and s="(inv_x iv, inv_z iv)" and T=fp] Some r
  obtain p where "chain vis' c p" by blast
  then have "reconstructPath vis' c [] = Some p" using reconstructPath_chain by fastforce
  then show ?thesis using Some r by (simp add: computePath_def Let_def)
qed

text \<open>
  Claim C4. \<open>computePath\<close> always returns. Its search is breadth-first over the four
  neighbours and admits every cell inside the grid, wall or not: the result does not depend
  on what the tiles hold. When some walk leads from the invader's cell to a cell of the
  forum footprint, the search succeeds and the path is such a walk of least length, the
  first target being its second cell. When the search ends without reaching the footprint,
  no such walk exists and the path is the two cells from the invader's cell to the forum
  origin.
\<close>

theorem computePath_shortest:
  "\<exists>iv'. computePath fp iv g = Some iv' \<and> pathIndex iv' = 1 \<and>
     ((\<exists>w. walk g w \<and> hd w = (inv_x iv, inv_z iv) \<and> reachedForum fp (last w)) \<longrightarrow>
        bfsLoop g fp (Map.empty((inv_x iv, inv_z iv) \<mapsto> None)) [(inv_x iv, inv_z iv)] \<noteq> None \<and>
        walk g (path iv') \<and> hd (path iv') = (inv_x iv, inv_z iv) \<and> reachedForum fp (last (path iv')) \<and>
        (\<forall>w. walk g w \<and> hd w = (inv_x iv, inv_z iv) \<and> reachedForum fp (last w)
             \<longrightarrow> length (path iv') \<le> length w) \<and>
        (1 < length (path iv') \<longrightarrow>
           inv_targetX iv' = fst (path iv' ! 1) \<and> inv_targetZ iv' = snd (path iv' ! 1))) \<and>
     (bfsLoop g fp (Map.empty((inv_x iv, inv_z iv) \<mapsto> None)) [(inv_x iv, inv_z iv)] = None \<longrightarrow>
        \<not> (\<exists>w. walk g w \<and> hd w = (inv_x iv, inv_z iv) \<and> reachedForum fp (last w)) \<and>
        path iv' = [(inv_x iv, inv_z iv), fp] \<and>
        inv_targetX iv' = fst fp \<and> inv_targetZ iv' = snd fp) \<and>
     (\<forall>g'. gsize g' = gsize g \<longrightarrow> computePath fp iv g' = computePath fp iv g)"
proof -
  let ?s = "(inv_x iv, inv_z iv)"
  let ?b = "bfsLoop g fp (Map.empty(?s \<mapsto> None)) [?s]"
  let ?H = "\<exists>w. walk g w \<and> hd w = ?s \<and> reachedForum fp (last w)"
  let ?HC = "\<lambda>iv'. ?H \<longrightarrow>
        ?b \<noteq> None \<and>
        walk g (path iv') \<and> hd (path iv') = ?s \<and> reachedForum fp (last (path iv')) \<and>
        (\<forall>w. walk g w \<and> hd w = ?s \<and> reachedForum fp (last w)
             \<longrightarrow> length (path iv') \<le> length w) \<and>
        (1 < length (path iv') \<longrightarrow>
           inv_targetX iv' = fst (path iv' ! 1) \<and> inv_targetZ iv' = snd (path iv' ! 1))"
  let ?NC = "\<lambda>iv'. ?b = None \<longrightarrow>
        \<not> ?H \<and> path iv' = [?s, fp] \<and> inv_targetX iv' = fst fp \<and> inv_targetZ iv' = snd fp"
  note bc = bfs_from_start[where g=g and s="?s" and T=fp]
  have tiles: "\<forall>g'. gsize g' = gsize g \<longrightarrow> computePath fp iv g' = computePath fp iv g"
  proof (intro allI impI)
    fix g' :: Grid
    assume h: "gsize g' = gsize g"
    show "computePath fp iv g' = computePath fp iv g"
      unfolding computePath_def bfsLoop_tiles[OF h] ..
  qed
  have "\<exists>iv'. computePath fp iv g = Some iv' \<and> pathIndex iv' = 1 \<and> ?HC iv' \<and> ?NC iv'"
  proof (cases ?b)
    case None
    have nw: "\<not> ?H" using bc None by blast
    define iv' where "iv' = iv\<lparr>path := [?s, fp], pathIndex := 1,
                         inv_targetX := fst fp, inv_targetZ := snd fp\<rparr>"
    have cp: "computePath fp iv g = Some iv'"
      using None by (simp add: computePath_def Let_def iv'_def)
    have f: "path iv' = [?s, fp]" "pathIndex iv' = 1" "inv_targetX iv' = fst fp" "inv_targetZ iv' = snd fp"
      by (simp_all add: iv'_def)
    have hc: "?HC iv'" using nw by blast
    have nc: "?NC iv'" using nw f by blast
    show ?thesis
      by (rule exI[of _ iv'], intro conjI, rule cp, rule f(2), rule hc, rule nc)
  next
    case (Some r)
    obtain vis' c where r: "r = (vis', c)" by (cases r)
    from bc Some r obtain p where p: "reachedForum fp c" "chain vis' c p" "walk g p" "hd p = ?s"
        "\<forall>w. walk g w \<and> hd w = ?s \<and> reachedForum fp (last w) \<longrightarrow> length p \<le> length w"
      by blast
    have rp: "reconstructPath vis' c [] = Some p"
      using reconstructPath_chain[OF p(2), of "[]"] by simp
    have lastp: "last p = c" using chain_last[OF p(2)] by simp
    define iv' where "iv' = (if length p > 1
                  then iv\<lparr>path := p, pathIndex := 1,
                                inv_targetX := fst (p ! 1), inv_targetZ := snd (p ! 1)\<rparr>
                  else iv\<lparr>path := p, pathIndex := 1\<rparr>)"
    have cp: "computePath fp iv g = Some iv'"
      using Some r rp by (simp add: computePath_def Let_def iv'_def)
    have f: "path iv' = p" "pathIndex iv' = 1"
        "1 < length p \<longrightarrow> inv_targetX iv' = fst (p ! 1) \<and> inv_targetZ iv' = snd (p ! 1)"
      by (simp_all add: iv'_def)
    have nn: "?b \<noteq> None" using Some by simp
    have hc: "?HC iv'"
      unfolding f(1) using nn p(3,4,5) p(1) lastp f(3) by simp
    have nc: "?NC iv'" using nn by blast
    show ?thesis
      by (rule exI[of _ iv'], intro conjI, rule cp, rule f(2), rule hc, rule nc)
  qed
  then obtain iv' where iv': "computePath fp iv g = Some iv' \<and> pathIndex iv' = 1 \<and> ?HC iv' \<and> ?NC iv'" ..
  have "computePath fp iv g = Some iv' \<and> pathIndex iv' = 1 \<and> ?HC iv' \<and> ?NC iv'
      \<and> (\<forall>g'. gsize g' = gsize g \<longrightarrow> computePath fp iv g' = computePath fp iv g)"
    by (intro conjI iv'[THEN conjunct1] iv'[THEN conjunct2, THEN conjunct1]
          iv'[THEN conjunct2, THEN conjunct2, THEN conjunct1]
          iv'[THEN conjunct2, THEN conjunct2, THEN conjunct2] tiles)
  then show ?thesis by (rule exI)
qed

theorem computePath_shortest_witness:
  "walk wallGrid [(0, 0), (1, 0), (2, 0), (2, 1), (2, 2)]
   \<and> reachedForum (2, 2) (2, 2)
   \<and> (\<exists>iv'. computePath (2, 2) raider wallGrid = Some iv'
         \<and> path iv' = [(0, 0), (1, 0), (2, 0), (2, 1), (2, 2)]
         \<and> walk wallGrid (path iv')
         \<and> length (path iv') \<le> length [(0, 0), (0, 1), (0, 2), (1, 2), (2, 2) :: int \<times> int]
         \<and> inv_targetX iv' = 1 \<and> inv_targetZ iv' = 0)
   \<and> bfsLoop wallGrid (10, 10) (Map.empty((0, 0) \<mapsto> None)) [(0, 0)] = None
   \<and> (\<exists>iv'. computePath (10, 10) raider wallGrid = Some iv' \<and> path iv' = [(0, 0), (10, 10)]
         \<and> inv_targetX iv' = 10 \<and> inv_targetZ iv' = 10)"
proof -
  have w1: "walk wallGrid [(0, 0), (1, 0), (2, 0), (2, 1), (2, 2)]" by code_simp
  have w2: "walk wallGrid [(0, 0), (0, 1), (0, 2), (1, 2), (2, 2)]" by code_simp
  have rf: "reachedForum (2, 2) (2, 2)" by code_simp
  have st: "inv_x raider = 0" "inv_z raider = 0" by (simp_all add: raider_def newInvader_def)
  have none: "bfsLoop wallGrid (10, 10) (Map.empty((0, 0) \<mapsto> None)) [(0, 0)] = None" by code_simp
  have ev: "map_option path (computePath (2, 2) raider wallGrid) = Some [(0, 0), (1, 0), (2, 0), (2, 1), (2, 2)]"
    by code_simp
  from computePath_shortest[of "(2, 2)" raider wallGrid] obtain iv' where
    a: "computePath (2, 2) raider wallGrid = Some iv'"
       "(\<exists>w. walk wallGrid w \<and> hd w = (0, 0) \<and> reachedForum (2, 2) (last w)) \<longrightarrow>
          walk wallGrid (path iv') \<and>
          (\<forall>w. walk wallGrid w \<and> hd w = (0, 0) \<and> reachedForum (2, 2) (last w)
             \<longrightarrow> length (path iv') \<le> length w) \<and>
          (1 < length (path iv') \<longrightarrow>
             inv_targetX iv' = fst (path iv' ! 1) \<and> inv_targetZ iv' = snd (path iv' ! 1))"
    unfolding st by blast
  have ex: "\<exists>w. walk wallGrid w \<and> hd w = (0, 0) \<and> reachedForum (2, 2) (last w)"
    using w1 rf by (intro exI[of _ "[(0, 0), (1, 0), (2, 0), (2, 1), (2, 2)]"]) simp
  have pa: "path iv' = [(0, 0), (1, 0), (2, 0), (2, 1), (2, 2)]" using ev a(1) by simp
  from a(2) ex have b: "walk wallGrid (path iv')"
      "\<forall>w. walk wallGrid w \<and> hd w = (0, 0) \<and> reachedForum (2, 2) (last w) \<longrightarrow> length (path iv') \<le> length w"
      "1 < length (path iv') \<longrightarrow> inv_targetX iv' = fst (path iv' ! 1) \<and> inv_targetZ iv' = snd (path iv' ! 1)"
    by blast+
  have "walk wallGrid [(0, 0), (0, 1), (0, 2), (1, 2), (2, 2)]
      \<and> hd [(0, 0), (0, 1), (0, 2), (1, 2), (2, 2) :: int \<times> int] = (0, 0)
      \<and> reachedForum (2, 2) (last [(0, 0), (0, 1), (0, 2), (1, 2), (2, 2)])"
    using w2 rf by simp
  with b(2) have le: "length (path iv') \<le> length [(0, 0), (0, 1), (0, 2), (1, 2), (2, 2) :: int \<times> int]"
    by blast
  from b(3) pa have tg: "inv_targetX iv' = 1 \<and> inv_targetZ iv' = 0" by simp
  from computePath_shortest[of "(10, 10)" raider wallGrid] none obtain iv2 where
    c: "computePath (10, 10) raider wallGrid = Some iv2" "path iv2 = [(0, 0), (10, 10)]"
       "inv_targetX iv2 = 10" "inv_targetZ iv2 = 10"
    unfolding st by auto
  show ?thesis using w1 rf a(1) pa b(1) le tg none c by simp
qed

section \<open>Waves\<close>

lemma computePath_fields:
  assumes "computePath fp iv g = Some iv'"
  shows "inv_x iv' = inv_x iv \<and> inv_z iv' = inv_z iv \<and> inv_hp iv' = inv_hp iv \<and> maxHp iv' = maxHp iv
       \<and> damage iv' = damage iv \<and> inv_state iv' = inv_state iv \<and> attackCooldown iv' = attackCooldown iv"
  using assms
  by (auto simp: computePath_def Let_def split: option.splits if_splits prod.splits Option.bind_splits)

lemma spawnOne_result:
  "\<exists>iv rng'. spawnOne fp w e g (invs, rng) = Some (invs @ [iv], rng')
     \<and> inv_hp iv = BARBARIAN_BASE_HP + w * BARBARIAN_HP_SCALING
     \<and> maxHp iv = BARBARIAN_BASE_HP + w * BARBARIAN_HP_SCALING
     \<and> damage iv = \<lfloor>of_int BARBARIAN_BASE_DAMAGE + of_int w * BARBARIAN_DAMAGE_SCALING\<rfloor>
     \<and> inv_state iv = Moving"
proof -
  obtain r rng' where d: "draw rng = (r, rng')" by (cases "draw rng")
  define pos where "pos = spawnPosition e (GRID_SIZE div 2 - GRID_SIZE div 4 div 2 + \<lfloor>r * of_int (GRID_SIZE div 4)\<rfloor>)"
  obtain iv where iv: "computePath fp (newInvader w pos) g = Some iv"
    using computePath_total by blast
  have "spawnOne fp w e g (invs, rng) = Some (invs @ [iv], rng')"
    using d iv by (simp add: spawnOne_def Let_def pos_def)
  moreover have "inv_hp iv = BARBARIAN_BASE_HP + w * BARBARIAN_HP_SCALING"
      "maxHp iv = BARBARIAN_BASE_HP + w * BARBARIAN_HP_SCALING"
      "damage iv = \<lfloor>of_int BARBARIAN_BASE_DAMAGE + of_int w * BARBARIAN_DAMAGE_SCALING\<rfloor>"
      "inv_state iv = Moving"
    using computePath_fields[OF iv] by (simp_all add: newInvader_def Let_def)
  ultimately show ?thesis by blast
qed

lemma spawnLoop_result:
  "\<exists>new rng'. spawnLoop n fp w e g (invs, rng) = Some (invs @ new, rng')
      \<and> length new = n \<and> list_all (waveInvader w) new"
proof (induction n arbitrary: invs rng)
  case 0
  show ?case by simp
next
  case (Suc n)
  from spawnOne_result[of fp w e g invs rng] obtain iv rng1 where
    one: "spawnOne fp w e g (invs, rng) = Some (invs @ [iv], rng1)" "waveInvader w iv"
    unfolding waveInvader_def by blast
  from Suc.IH[of "invs @ [iv]" rng1] obtain new rng2 where
    rest: "spawnLoop n fp w e g (invs @ [iv], rng1) = Some ((invs @ [iv]) @ new, rng2)"
      "length new = n" "list_all (waveInvader w) new"
    by blast
  have "spawnLoop (Suc n) fp w e g (invs, rng) = Some (invs @ (iv # new), rng2)"
    using one(1) rest(1) by simp
  moreover have "length (iv # new) = Suc n" using rest(2) by simp
  moreover have "list_all (waveInvader w) (iv # new)" using one(2) rest(3) by simp
  ultimately show ?case by blast
qed

lemma spawnWave_result:
  "\<exists>new rng'. spawnWave sys g rng = Some (sys\<lparr>invaders := invaders sys @ new\<rparr>, rng')
      \<and> length new = nat (waveCount (waveNumber sys)) \<and> list_all (waveInvader (waveNumber sys)) new"
proof -
  obtain r rng1 where d: "draw rng = (r, rng1)" by (cases "draw rng")
  from spawnLoop_result[of "nat (waveCount (waveNumber sys))" "inv_forumPos sys" "waveNumber sys" "\<lfloor>r * 4\<rfloor>" g "invaders sys" rng1]
  obtain new rng2 where
    l: "spawnLoop (nat (waveCount (waveNumber sys))) (inv_forumPos sys) (waveNumber sys) \<lfloor>r * 4\<rfloor> g (invaders sys, rng1)
         = Some (invaders sys @ new, rng2)"
       "length new = nat (waveCount (waveNumber sys))" "list_all (waveInvader (waveNumber sys)) new"
    by blast
  have "spawnWave sys g rng = Some (sys\<lparr>invaders := invaders sys @ new\<rparr>, rng2)"
    using d l(1) by (simp add: spawnWave_def Let_def)
  then show ?thesis using l(2,3) by blast
qed

lemma waveCount_mono: "w \<le> w' \<Longrightarrow> waveCount w \<le> waveCount w'"
  unfolding waveCount_def BASE_INVADERS_def INVADER_SCALING_def
  by (intro floor_mono) (simp add: mult_right_mono)

lemma damage_mono:
  "w \<le> w' \<Longrightarrow> damage (newInvader w p) \<le> damage (newInvader w' p)"
  unfolding newInvader_def Let_def BARBARIAN_BASE_DAMAGE_def BARBARIAN_DAMAGE_SCALING_def
  by (simp, intro floor_mono) (simp add: mult_right_mono)

text \<open>
  Claim C6. For a wave number \<open>w \<ge> 0\<close>, \<open>spawnWave\<close> returns and appends
  \<open>floor (1 + 1.5 w)\<close> invaders, each with \<open>8 + 3 w\<close> hit points (an integer, so
  flooring leaves it as it is), the same maximum, and damage \<open>floor (2 + 0.5 w)\<close>. Wave
  size, hit points and damage do not decrease as the wave number grows.
\<close>

theorem spawnWave_scaling:
  assumes "0 \<le> waveNumber sys"
  shows "(\<exists>new rng'. spawnWave sys g rng = Some (sys\<lparr>invaders := invaders sys @ new\<rparr>, rng')
            \<and> int (length new) = \<lfloor>1 + (3 / 2) * (of_int (waveNumber sys) :: rat)\<rfloor>
            \<and> (\<forall>iv \<in> set new.
                  inv_hp iv = \<lfloor>8 + 3 * (of_int (waveNumber sys) :: rat)\<rfloor>
                  \<and> inv_hp iv = 8 + 3 * waveNumber sys
                  \<and> maxHp iv = inv_hp iv
                  \<and> damage iv = \<lfloor>2 + (1 / 2) * (of_int (waveNumber sys) :: rat)\<rfloor>))
       \<and> (\<forall>w w' p. 0 \<le> w \<and> w \<le> w' \<longrightarrow>
              waveCount w \<le> waveCount w'
              \<and> inv_hp (newInvader w p) \<le> inv_hp (newInvader w' p)
              \<and> damage (newInvader w p) \<le> damage (newInvader w' p))"
proof (intro conjI allI impI)
  from spawnWave_result[of sys g rng] obtain new rng' where
    r: "spawnWave sys g rng = Some (sys\<lparr>invaders := invaders sys @ new\<rparr>, rng')"
       "length new = nat (waveCount (waveNumber sys))" "list_all (waveInvader (waveNumber sys)) new"
    by blast
  have c0: "0 \<le> waveCount (waveNumber sys)"
    using assms unfolding waveCount_def BASE_INVADERS_def INVADER_SCALING_def by simp
  have len: "int (length new) = \<lfloor>1 + (3 / 2) * (of_int (waveNumber sys) :: rat)\<rfloor>"
    using r(2) c0 by (simp add: waveCount_def BASE_INVADERS_def INVADER_SCALING_def mult.commute)
  have fl: "\<lfloor>8 + 3 * (of_int (waveNumber sys) :: rat)\<rfloor> = 8 + 3 * waveNumber sys"
  proof -
    have "8 + 3 * (of_int (waveNumber sys) :: rat) = of_int (8 + 3 * waveNumber sys)" by simp
    then show ?thesis by (simp only: floor_of_int)
  qed
  have each: "\<forall>iv \<in> set new.
                  inv_hp iv = \<lfloor>8 + 3 * (of_int (waveNumber sys) :: rat)\<rfloor>
                  \<and> inv_hp iv = 8 + 3 * waveNumber sys
                  \<and> maxHp iv = inv_hp iv
                  \<and> damage iv = \<lfloor>2 + (1 / 2) * (of_int (waveNumber sys) :: rat)\<rfloor>"
    unfolding fl using r(3)
    by (auto simp: list_all_iff waveInvader_def BARBARIAN_BASE_HP_def BARBARIAN_HP_SCALING_def
          BARBARIAN_BASE_DAMAGE_def BARBARIAN_DAMAGE_SCALING_def mult.commute)
  show "\<exists>new rng'. spawnWave sys g rng = Some (sys\<lparr>invaders := invaders sys @ new\<rparr>, rng')
            \<and> int (length new) = \<lfloor>1 + (3 / 2) * (of_int (waveNumber sys) :: rat)\<rfloor>
            \<and> (\<forall>iv \<in> set new.
                  inv_hp iv = \<lfloor>8 + 3 * (of_int (waveNumber sys) :: rat)\<rfloor>
                  \<and> inv_hp iv = 8 + 3 * waveNumber sys
                  \<and> maxHp iv = inv_hp iv
                  \<and> damage iv = \<lfloor>2 + (1 / 2) * (of_int (waveNumber sys) :: rat)\<rfloor>)"
    using r(1) len each by blast
next
  fix w w' :: int and p :: "int \<times> int"
  assume "0 \<le> w \<and> w \<le> w'"
  then show "waveCount w \<le> waveCount w'" using waveCount_mono by simp
next
  fix w w' :: int and p :: "int \<times> int"
  assume "0 \<le> w \<and> w \<le> w'"
  then show "inv_hp (newInvader w p) \<le> inv_hp (newInvader w' p)"
    by (simp add: newInvader_def Let_def BARBARIAN_HP_SCALING_def)
next
  fix w w' :: int and p :: "int \<times> int"
  assume "0 \<le> w \<and> w \<le> w'"
  then show "damage (newInvader w p) \<le> damage (newInvader w' p)" using damage_mono by simp
qed

lemma processInvader_total: "\<exists>r. processInvader fp iv g res = Some r"
proof -
  have cp: "\<And>i g'. \<exists>y. computePath fp i g' = Some y" using computePath_total by blast
  show ?thesis
    unfolding processInvader_def Let_def
    by (auto split: prod.splits option.splits AttackResult.splits simp: bind_eq_Some_conv cp)
qed

lemma processInvaders_total: "\<exists>r. processInvaders fp invs g res = Some r"
proof (induction invs arbitrary: g res)
  case Nil
  show ?case by simp
next
  case (Cons iv invs)
  obtain iv' g' res' where a: "processInvader fp iv g res = Some (iv', g', res')"
    using processInvader_total[of fp iv g res] by (metis prod_cases3)
  obtain rest' g'' res'' where b: "processInvaders fp invs g' res' = Some (rest', g'', res'')"
    using Cons.IH[of g' res'] by (metis prod_cases3)
  show ?case using a b by simp
qed

lemma waveStep_cases:
  "(ticksUntilNextWave sys - 1 \<le> 0 \<longrightarrow>
      (\<exists>new rng'. waveStep sys g rng =
          Some (sys\<lparr>ticksUntilNextWave := nextWaveInterval (waveNumber sys + 1),
                     warningActive := False,
                     invaders := invaders sys @ new,
                     waveNumber := waveNumber sys + 1\<rparr>, rng')
          \<and> length new = nat (waveCount (waveNumber sys))
          \<and> list_all (waveInvader (waveNumber sys)) new))
   \<and> (\<not> ticksUntilNextWave sys - 1 \<le> 0 \<longrightarrow>
      waveStep sys g rng =
        Some (sys\<lparr>ticksUntilNextWave := ticksUntilNextWave sys - 1,
                   warningActive := (ticksUntilNextWave sys - 1 \<le> 5)\<rparr>, rng))"
proof (intro conjI impI)
  assume fire: "ticksUntilNextWave sys - 1 \<le> 0"
  define sys2 where "sys2 = sys\<lparr>ticksUntilNextWave := ticksUntilNextWave sys - 1, warningActive := False\<rparr>"
  from spawnWave_result[of sys2 g rng] obtain new rng' where
    r: "spawnWave sys2 g rng = Some (sys2\<lparr>invaders := invaders sys2 @ new\<rparr>, rng')"
       "length new = nat (waveCount (waveNumber sys2))" "list_all (waveInvader (waveNumber sys2)) new"
    by blast
  have "waveStep sys g rng =
          Some (sys\<lparr>ticksUntilNextWave := nextWaveInterval (waveNumber sys + 1),
                     warningActive := False,
                     invaders := invaders sys @ new,
                     waveNumber := waveNumber sys + 1\<rparr>, rng')"
    using fire r(1) by (simp add: waveStep_def Let_def sys2_def)
  moreover have "length new = nat (waveCount (waveNumber sys))" "list_all (waveInvader (waveNumber sys)) new"
    using r(2,3) by (simp_all add: sys2_def)
  ultimately show "\<exists>new rng'. waveStep sys g rng =
          Some (sys\<lparr>ticksUntilNextWave := nextWaveInterval (waveNumber sys + 1),
                     warningActive := False,
                     invaders := invaders sys @ new,
                     waveNumber := waveNumber sys + 1\<rparr>, rng')
          \<and> length new = nat (waveCount (waveNumber sys))
          \<and> list_all (waveInvader (waveNumber sys)) new"
    by blast
next
  assume "\<not> ticksUntilNextWave sys - 1 \<le> 0"
  then show "waveStep sys g rng =
        Some (sys\<lparr>ticksUntilNextWave := ticksUntilNextWave sys - 1,
                   warningActive := (ticksUntilNextWave sys - 1 \<le> 5)\<rparr>, rng)"
    by (simp add: waveStep_def Let_def)
qed

lemma waveStep_total: "\<exists>r. waveStep sys g rng = Some r"
  using waveStep_cases[of sys g rng] by (cases "ticksUntilNextWave sys - 1 \<le> 0") auto

lemma invasionTick_total: "\<exists>r. invasionTick sys g rng = Some r"
proof -
  obtain sys1 rng' where a: "waveStep sys g rng = Some (sys1, rng')"
    using waveStep_total[of sys g rng] by (metis surj_pair)
  obtain invs g' res where b: "processInvaders (inv_forumPos sys1) (invaders sys1) g None = Some (invs, g', res)"
    using processInvaders_total[of "inv_forumPos sys1" "invaders sys1" g None] by (metis prod_cases3)
  show ?thesis using a b by (simp add: invasionTick_def Let_def)
qed

lemma invasionTick_schedule:
  assumes "invasionTick sys g rng = Some (res, sys', g', rng')"
  shows "\<exists>sys1 rng1. waveStep sys g rng = Some (sys1, rng1)
           \<and> waveNumber sys' = waveNumber sys1 \<and> ticksUntilNextWave sys' = ticksUntilNextWave sys1
           \<and> warningActive sys' = warningActive sys1 \<and> inv_forumPos sys' = inv_forumPos sys1"
  using assms
  by (auto simp: invasionTick_def Let_def bind_eq_Some_conv)

text \<open>
  Claim C5. When the countdown runs out and the wave counter becomes \<open>w \<ge> 1\<close>, the
  invasion tick returns with the countdown set to \<open>max 12 (25 - w)\<close>. That interval
  drops by one per wave while \<open>w < 13\<close> and stays at 12 from wave 13 on; it is always
  positive and always shorter than the first-wave delay of 30 ticks, which is the countdown
  of a fresh invasion system.
\<close>

theorem wave_interval:
  assumes "1 \<le> w"
  shows "(\<forall>sys g rng. waveNumber sys + 1 = w \<and> ticksUntilNextWave sys - 1 \<le> 0 \<longrightarrow>
            (\<exists>res sys' g' rng'. invasionTick sys g rng = Some (res, sys', g', rng')
               \<and> waveNumber sys' = w
               \<and> ticksUntilNextWave sys' = max 12 (25 - w)))
       \<and> nextWaveInterval w = max 12 (25 - w)
       \<and> nextWaveInterval (w + 1) \<le> nextWaveInterval w
       \<and> (w < 13 \<longrightarrow> nextWaveInterval (w + 1) = nextWaveInterval w - 1)
       \<and> (13 \<le> w \<longrightarrow> nextWaveInterval w = 12)
       \<and> 0 < nextWaveInterval w
       \<and> nextWaveInterval w < FIRST_WAVE_DELAY
       \<and> (\<forall>fp. ticksUntilNextWave (new_InvasionSystem fp) = FIRST_WAVE_DELAY)
       \<and> FIRST_WAVE_DELAY = 30"
proof -
  have ni: "\<And>v. nextWaveInterval v = max 12 (25 - v)"
    by (simp add: nextWaveInterval_def MIN_WAVE_INTERVAL_def BASE_WAVE_INTERVAL_def WAVE_ACCELERATION_def)
  have tick: "\<exists>res sys' g' rng'. invasionTick sys g rng = Some (res, sys', g', rng')
               \<and> waveNumber sys' = w \<and> ticksUntilNextWave sys' = max 12 (25 - w)"
    if h: "waveNumber sys + 1 = w \<and> ticksUntilNextWave sys - 1 \<le> 0" for sys g rng
  proof -
    obtain r where "invasionTick sys g rng = Some r" using invasionTick_total by blast
    then obtain res sys' g' rng' where t: "invasionTick sys g rng = Some (res, sys', g', rng')"
      by (metis prod_cases4)
    from invasionTick_schedule[OF t] obtain sys1 rng1 where
      s1: "waveStep sys g rng = Some (sys1, rng1)" "waveNumber sys' = waveNumber sys1"
          "ticksUntilNextWave sys' = ticksUntilNextWave sys1"
      by blast
    from waveStep_cases[of sys g rng] h s1(1)
    have "waveNumber sys1 = w" "ticksUntilNextWave sys1 = nextWaveInterval w"
      by auto
    then show ?thesis using t s1(2,3) ni by auto
  qed
  show ?thesis
    using tick assms
    by (auto simp: ni FIRST_WAVE_DELAY_def new_InvasionSystem_def)
qed

theorem wave_interval_witness:
  "(1::int) \<le> 3
   \<and> nextWaveInterval 3 = 22 \<and> nextWaveInterval 4 = 21 \<and> nextWaveInterval 13 = 12 \<and> nextWaveInterval 40 = 12
   \<and> (\<exists>res sys' g' rng'.
         invasionTick ((new_InvasionSystem (2, 2))\<lparr>waveNumber := 2, ticksUntilNextWave := 1\<rparr>) wallGrid (\<lambda>n. 0)
           = Some (res, sys', g', rng')
         \<and> waveNumber sys' = 3 \<and> ticksUntilNextWave sys' = 22)"
proof -
  have h: "(1::int) \<le> 3" by simp
  note t = wave_interval[OF h]
  have "waveNumber ((new_InvasionSystem (2, 2))\<lparr>waveNumber := 2, ticksUntilNextWave := 1\<rparr>) + 1 = 3
      \<and> ticksUntilNextWave ((new_InvasionSystem (2, 2))\<lparr>waveNumber := 2, ticksUntilNextWave := 1\<rparr>) - 1 \<le> 0"
    by simp
  with t have "\<exists>res sys' g' rng'.
         invasionTick ((new_InvasionSystem (2, 2))\<lparr>waveNumber := 2, ticksUntilNextWave := 1\<rparr>) wallGrid (\<lambda>n. 0)
           = Some (res, sys', g', rng')
         \<and> waveNumber sys' = 3 \<and> ticksUntilNextWave sys' = max 12 (25 - 3)"
    by blast
  moreover have "nextWaveInterval 3 = 22" using t by simp
  moreover have "nextWaveInterval 4 = 21" using wave_interval[of 4] by simp
  moreover have "nextWaveInterval 13 = 12" using wave_interval[of 13] by simp
  moreover have "nextWaveInterval 40 = 12" using wave_interval[of 40] by simp
  ultimately show ?thesis by simp
qed

theorem spawnWave_scaling_witness:
  "0 \<le> waveNumber ((new_InvasionSystem (2, 2))\<lparr>waveNumber := 3\<rparr>)
   \<and> (\<exists>new rng'. spawnWave ((new_InvasionSystem (2, 2))\<lparr>waveNumber := 3\<rparr>) wallGrid (\<lambda>n. 0)
          = Some ((new_InvasionSystem (2, 2))\<lparr>waveNumber := 3, invaders := new\<rparr>, rng')
        \<and> length new = 5
        \<and> list_all (\<lambda>iv. inv_hp iv = 17 \<and> maxHp iv = 17 \<and> damage iv = 3) new)
   \<and> waveCount 3 \<le> waveCount 4
   \<and> damage (newInvader 3 (0, 0)) \<le> damage (newInvader 4 (0, 0))"
proof -
  let ?sys = "(new_InvasionSystem (2, 2))\<lparr>waveNumber := 3\<rparr>"
  have h: "0 \<le> waveNumber ?sys" by simp
  note t = spawnWave_scaling[OF h, of wallGrid "\<lambda>n. 0"]
  from t obtain new rng' where
    r: "spawnWave ?sys wallGrid (\<lambda>n. 0) = Some (?sys\<lparr>invaders := invaders ?sys @ new\<rparr>, rng')"
       "int (length new) = \<lfloor>1 + (3 / 2) * (of_int (waveNumber ?sys) :: rat)\<rfloor>"
       "\<forall>iv \<in> set new.
                  inv_hp iv = \<lfloor>8 + 3 * (of_int (waveNumber ?sys) :: rat)\<rfloor>
                  \<and> inv_hp iv = 8 + 3 * waveNumber ?sys
                  \<and> maxHp iv = inv_hp iv
                  \<and> damage iv = \<lfloor>2 + (1 / 2) * (of_int (waveNumber ?sys) :: rat)\<rfloor>"
    by blast
  have f1: "\<lfloor>1 + (3 / 2) * (of_int (3::int) :: rat)\<rfloor> = 5" by code_simp
  have f2: "\<lfloor>2 + (1 / 2) * (of_int (3::int) :: rat)\<rfloor> = 3" by code_simp
  have len: "length new = 5" using r(2) f1 by simp
  have each: "list_all (\<lambda>iv. inv_hp iv = 17 \<and> maxHp iv = 17 \<and> damage iv = 3) new"
    using r(3) f2 by (simp add: list_all_iff)
  have eq: "?sys\<lparr>invaders := invaders ?sys @ new\<rparr> = (new_InvasionSystem (2, 2))\<lparr>waveNumber := 3, invaders := new\<rparr>"
    by (simp add: new_InvasionSystem_def)
  have m: "waveCount 3 \<le> waveCount 4" "damage (newInvader 3 (0, 0)) \<le> damage (newInvader 4 (0, 0))"
    using t by auto
  show ?thesis using h r(1) len each eq m by auto
qed

section \<open>Service walkers\<close>

lemma neighborsOf_set:
  "set (neighborsOf px pz) = {(px + 1, pz), (px - 1, pz), (px, pz + 1), (px, pz - 1)}"
  by (auto simp: neighborsOf_def NEIGHBORS_def)

lemma distinct_neighborsOf: "distinct (neighborsOf px pz)"
  by (simp add: neighborsOf_def NEIGHBORS_def)

lemma binade_bounds:
  "0 < x \<Longrightarrow> 2 powi binade x \<le> x \<and> x < 2 powi (binade x + 1)"
proof (induction x rule: binade.induct)
  case (1 x)
  show ?case
  proof (cases "x < 1")
    case True
    then have b: "binade x = binade (2 * x) - 1" using 1(3) by (simp add: binade.simps[of x])
    have ih: "2 powi binade (2 * x) \<le> 2 * x \<and> 2 * x < 2 powi (binade (2 * x) + 1)"
      using 1(1)[OF _ True] 1(3) by simp
    have e: "(2::rat) powi (binade (2 * x) - 1 + 1) = 2 powi binade (2 * x)" by simp
    have f: "(2::rat) powi (binade (2 * x) + 1) = 2 * 2 powi binade (2 * x)"
      by (simp add: power_int_add)
    have g: "(2::rat) powi (binade (2 * x) - 1) = 2 powi binade (2 * x) / 2"
      by (simp add: power_int_diff)
    show ?thesis unfolding b e g using ih unfolding f by simp
  next
    case False
    show ?thesis
    proof (cases "2 \<le> x")
      case True
      then have b: "binade x = binade (x / 2) + 1" using False 1(3) by (simp add: binade.simps[of x])
      have ih: "2 powi binade (x / 2) \<le> x / 2 \<and> x / 2 < 2 powi (binade (x / 2) + 1)"
        using 1(2)[OF _ False True] 1(3) by simp
      have f: "(2::rat) powi (binade (x / 2) + 1) = 2 * 2 powi binade (x / 2)"
        by (simp add: power_int_add)
      have g: "(2::rat) powi (binade (x / 2) + 1 + 1) = 2 * (2 * 2 powi binade (x / 2))"
        by (simp add: power_int_add)
      show ?thesis unfolding b g using ih unfolding f by simp
    next
      case ge: False
      then have "binade x = 0" using False 1(3) by (simp add: binade.simps[of x])
      then show ?thesis using False ge by simp
    qed
  qed
qed

lemma roundEven_bounds:
  "of_int (roundEven x) \<le> x + 1 / 2" "x - 1 / 2 \<le> of_int (roundEven x)"
proof -
  define f where "f = \<lfloor>x\<rfloor>"
  have f: "of_int f \<le> x" "x < of_int f + 1" unfolding f_def by linarith+
  have r: "roundEven x = f \<and> x - of_int f \<le> 1 / 2 \<or> roundEven x = f + 1 \<and> 1 / 2 \<le> x - of_int f"
    unfolding roundEven_def Let_def f_def[symmetric] by auto
  show "of_int (roundEven x) \<le> x + 1 / 2" using f r by auto
  show "x - 1 / 2 \<le> of_int (roundEven x)" using f r by auto
qed

lemma roundEven_ge: "of_int m \<le> x \<Longrightarrow> m \<le> roundEven x"
proof -
  assume "of_int m \<le> x"
  then have "m \<le> \<lfloor>x\<rfloor>" by (simp add: le_floor_iff)
  then show ?thesis by (auto simp: roundEven_def Let_def)
qed

lemma roundDouble_nonneg:
  assumes "0 < x"
  shows "roundDouble x = of_int (roundEven (x / 2 powi (binade x - 52))) * 2 powi (binade x - 52)"
  using assms by (simp add: roundDouble_def Let_def)

lemma roundDouble_upper:
  assumes "0 \<le> x"
  shows "roundDouble x \<le> x * (1 + 1 / 2 ^ 53)"
proof (cases "x = 0")
  case True
  then show ?thesis by (simp add: roundDouble_def)
next
  case False
  then have x: "0 < x" using assms by simp
  define u :: rat where "u = 2 powi (binade x - 52)"
  have u0: "0 < u" by (simp add: u_def)
  have "u = 2 powi binade x / 2 powi 52" by (simp add: u_def power_int_diff)
  also have "\<dots> \<le> x / 2 powi 52" using binade_bounds[OF x] by (simp add: divide_right_mono)
  finally have ux: "u \<le> x / 2 ^ 52" by simp
  have "roundDouble x = of_int (roundEven (x / u)) * u"
    using roundDouble_nonneg[OF x] by (simp add: u_def)
  also have "\<dots> \<le> (x / u + 1 / 2) * u"
    using roundEven_bounds(1)[of "x / u"] u0 by (simp only: mult_right_mono less_imp_le)
  also have "\<dots> = x + u / 2" using u0 by (simp add: field_simps)
  also have "\<dots> \<le> x + (x / 2 ^ 52) / 2" using ux by simp
  also have "\<dots> = x * (1 + 1 / 2 ^ 53)" by (simp add: field_simps)
  finally show ?thesis .
qed

lemma roundDouble_ge_int:
  assumes i: "of_int i \<le> x" and x: "x < 2 ^ 53" and i0: "0 \<le> i"
  shows "of_int i \<le> roundDouble x"
proof (cases "x = 0")
  case True
  then show ?thesis using i i0 by (simp add: roundDouble_def)
next
  case False
  then have xp: "0 < x" using i i0 by (smt (verit) of_int_0_le_iff order_trans order_less_le)
  define k where "k = nat (52 - binade x)"
  have "(2::rat) powi binade x < 2 powi 53" using binade_bounds[OF xp] x by simp
  then have "binade x < 53" using power_int_le_imp_less_exp[of "2::rat" "binade x" 53] by simp
  then have e: "binade x - 52 = - int k" by (simp add: k_def)
  define u :: rat where "u = 2 powi (binade x - 52)"
  have u: "u = 1 / 2 ^ k" unfolding u_def e by (simp add: power_int_minus field_simps)
  have u0: "0 < u" by (simp add: u)
  have "of_int (i * 2 ^ k) \<le> x / u" using i by (simp add: u mult_right_mono)
  then have "i * 2 ^ k \<le> roundEven (x / u)" by (rule roundEven_ge)
  then have "(of_int (i * 2 ^ k) :: rat) \<le> of_int (roundEven (x / u))" by (simp only: of_int_le_iff)
  then have a: "(of_int (i * 2 ^ k) :: rat) * u \<le> of_int (roundEven (x / u)) * u"
    using u0 by (simp only: mult_right_mono less_imp_le)
  have b: "(of_int (i * 2 ^ k) :: rat) * u = of_int i" by (simp add: u)
  have c: "roundDouble x = of_int (roundEven (x / u)) * u"
    unfolding u_def by (rule roundDouble_nonneg[OF xp])
  show ?thesis unfolding c using a unfolding b .
qed

lemma unitDouble_max:
  assumes "unitDouble r"
  shows "r \<le> 1 - 1 / 2 ^ 53"
proof (cases "r = 0")
  case True
  then show ?thesis by simp
next
  case False
  then have rp: "0 < r" and r1: "r < 1" and fx: "roundDouble r = r"
    using assms by (simp_all add: unitDouble_def)
  note b = binade_bounds[OF rp]
  have "(2::rat) powi binade r < 2 powi 0" using b r1 by simp
  then have neg: "binade r < 0" using power_int_le_imp_less_exp[of "2::rat" "binade r" 0] by simp
  show ?thesis
  proof (cases "binade r = - 1")
    case True
    have u: "(2::rat) powi (binade r - 52) = 1 / 2 ^ 53" unfolding True by (simp add: power_int_minus)
    define m where "m = roundEven (r / (1 / 2 ^ 53))"
    have r: "r = of_int m / 2 ^ 53" using fx roundDouble_nonneg[OF rp] unfolding u m_def by simp
    with r1 have "(of_int m :: rat) < 2 ^ 53" by (simp add: field_simps)
    then have "(of_int m :: rat) < of_int (2 ^ 53)" by simp
    then have "m < 2 ^ 53" by (simp only: of_int_less_iff)
    then have "m \<le> 2 ^ 53 - 1" by simp
    then have "(of_int m :: rat) \<le> of_int (2 ^ 53 - 1)" by (simp only: of_int_le_iff)
    then show ?thesis unfolding r by (simp add: field_simps)
  next
    case False
    then have "binade r + 1 \<le> - 1" using neg by simp
    then have "(2::rat) powi (binade r + 1) \<le> 2 powi (- 1)"
      by (rule power_int_increasing) simp
    then have "r < 1 / 2" using b by (simp add: power_int_minus)
    then show ?thesis by simp
  qed
qed

lemma randomIndex_less:
  assumes "unitDouble r" "0 < n"
  shows "randomIndex r n < n"
proof -
  have r0: "0 \<le> r" using assms(1) by (simp add: unitDouble_def)
  have n0: "(0::rat) < of_nat n" using assms(2) by simp
  have x0: "0 \<le> r * of_nat n" using r0 by simp
  have "r * of_nat n \<le> (1 - 1 / 2 ^ 53) * of_nat n"
    using unitDouble_max[OF assms(1)] n0 by (simp only: mult_right_mono less_imp_le)
  then have "r * of_nat n * (1 + 1 / 2 ^ 53) \<le> (1 - 1 / 2 ^ 53) * of_nat n * (1 + 1 / 2 ^ 53)"
    by (rule mult_right_mono) simp
  also have "\<dots> = of_nat n * (1 - 1 / 2 ^ 106)" by (simp add: field_simps)
  also have "\<dots> < of_nat n" using n0 by simp
  finally have "roundDouble (r * of_nat n) < of_nat n" using roundDouble_upper[OF x0] by simp
  then have a: "\<lfloor>roundDouble (r * of_nat n)\<rfloor> < int n" by (simp add: floor_less_iff)
  have "of_int 0 \<le> roundDouble (r * of_nat n)"
  proof (cases "r * of_nat n < 2 ^ 53")
    case True
    then show ?thesis using roundDouble_ge_int[of 0 "r * of_nat n"] x0 by simp
  next
    case False
    then have "0 < r * of_nat n" by (simp add: not_less less_le_trans[of 0 "2 ^ 53"])
    then show ?thesis
      using roundDouble_nonneg[of "r * of_nat n"] roundEven_ge[of 0 "r * of_nat n / 2 powi (binade (r * of_nat n) - 52)"]
      by simp
  qed
  then have b: "0 \<le> \<lfloor>roundDouble (r * of_nat n)\<rfloor>" by simp
  from a b have "nat \<lfloor>roundDouble (r * of_nat n)\<rfloor> < n" by linarith
  then show ?thesis by (simp only: randomIndex_def)
qed

text \<open>
  Candidate \<open>i\<close> of \<open>n\<close> is taken on the draws from \<open>i / n\<close> to \<open>(i + 1) / n\<close>, the ends
  moved by at most one part in \<open>2^53\<close> by the rounding of the product.
\<close>

lemma randomIndex_interval:
  assumes i: "i < n" and n: "n \<le> 2 ^ 52" and r0: "0 \<le> r"
  shows "of_nat i / of_nat n \<le> r \<and> r \<le> of_nat (Suc i) / of_nat n * (1 - 1 / 2 ^ 53)
           \<longrightarrow> randomIndex r n = i"
    and "randomIndex r n = i
           \<longrightarrow> of_nat i / of_nat n * (1 - 1 / 2 ^ 53) \<le> r \<and> r < of_nat (Suc i) / of_nat n"
proof -
  have n0: "(0::rat) < of_nat n" using i by simp
  define x where "x = r * of_nat n"
  have x0: "0 \<le> x" using r0 by (simp add: x_def)
  have up: "roundDouble x < of_nat (Suc j)" if "x \<le> of_nat (Suc j) * (1 - 1 / 2 ^ 53)" for j
  proof -
    have "x * (1 + 1 / 2 ^ 53) \<le> of_nat (Suc j) * (1 - 1 / 2 ^ 53) * (1 + 1 / 2 ^ 53)"
      using that by (rule mult_right_mono) simp
    also have "\<dots> = of_nat (Suc j) * (1 - 1 / 2 ^ 106)" by (simp add: field_simps)
    also have "\<dots> < of_nat (Suc j)" by simp
    finally show ?thesis using roundDouble_upper[OF x0] by simp
  qed
  have lo: "of_nat j \<le> roundDouble x" if "of_nat j \<le> x" "x < 2 ^ 53" for j
    using roundDouble_ge_int[of "int j" x] that by simp
  have idx: "randomIndex r n = j \<longleftrightarrow> of_nat j \<le> roundDouble x \<and> roundDouble x < of_nat (Suc j)"
    if "0 \<le> roundDouble x" for j
  proof -
    have "\<lfloor>roundDouble x\<rfloor> = int j \<longleftrightarrow> of_nat j \<le> roundDouble x \<and> roundDouble x < of_nat (Suc j)"
      using floor_eq_iff[of "roundDouble x" "int j"] by (simp add: add.commute)
    moreover have "0 \<le> \<lfloor>roundDouble x\<rfloor>" using that by simp
    ultimately show ?thesis unfolding randomIndex_def x_def[symmetric] by (metis nat_0_le nat_int)
  qed
  show "of_nat i / of_nat n \<le> r \<and> r \<le> of_nat (Suc i) / of_nat n * (1 - 1 / 2 ^ 53)
           \<longrightarrow> randomIndex r n = i"
  proof
    assume h: "of_nat i / of_nat n \<le> r \<and> r \<le> of_nat (Suc i) / of_nat n * (1 - 1 / 2 ^ 53)"
    have a: "of_nat i \<le> x" using h n0 by (simp add: x_def pos_divide_le_eq)
    have "r * of_nat n \<le> of_nat (Suc i) / of_nat n * (1 - 1 / 2 ^ 53) * of_nat n"
      using h n0 by (simp only: mult_right_mono less_imp_le)
    then have b: "x \<le> of_nat (Suc i) * (1 - 1 / 2 ^ 53)" using n0 by (simp add: x_def)
    have "of_nat (Suc i) * (1 - 1 / 2 ^ 53) < (of_nat (Suc i) :: rat)" by simp
    also have "\<dots> \<le> of_nat n" using i by (simp only: of_nat_le_iff Suc_le_eq)
    also have "\<dots> \<le> of_nat (2 ^ 52)" using n by (simp only: of_nat_le_iff)
    finally have c: "x < 2 ^ 53" using b by simp
    have "0 \<le> roundDouble x" using lo[of 0] x0 c by simp
    from idx[OF this, of i] lo[OF a c] up[OF b] show "randomIndex r n = i" by blast
  qed
  show "randomIndex r n = i
           \<longrightarrow> of_nat i / of_nat n * (1 - 1 / 2 ^ 53) \<le> r \<and> r < of_nat (Suc i) / of_nat n"
  proof
    assume h: "randomIndex r n = i"
    have nn: "0 \<le> roundDouble x"
    proof (cases "x < 2 ^ 53")
      case True
      then show ?thesis using lo[of 0] x0 by simp
    next
      case False
      then have "0 < x" by (simp add: not_less less_le_trans[of 0 "2 ^ 53"])
      then show ?thesis
        using roundDouble_nonneg[of x] roundEven_ge[of 0 "x / 2 powi (binade x - 52)"] by simp
    qed
    from idx[OF nn, of i] h have rd: "of_nat i \<le> roundDouble x" "roundDouble x < of_nat (Suc i)"
      by blast+
    have lower: "of_nat i * (1 - 1 / 2 ^ 53) \<le> x"
    proof (cases i)
      case 0
      then show ?thesis using x0 by simp
    next
      case (Suc j)
      show ?thesis
      proof (rule ccontr)
        assume "\<not> of_nat i * (1 - 1 / 2 ^ 53) \<le> x"
        then have "x \<le> of_nat (Suc j) * (1 - 1 / 2 ^ 53)" using Suc by simp
        from up[OF this] rd(1) Suc show False by simp
      qed
    qed
    have upper: "x < of_nat (Suc i)"
    proof (rule ccontr)
      assume a: "\<not> x < of_nat (Suc i)"
      show False
      proof (cases "x < 2 ^ 53")
        case True
        from lo[of "Suc i"] a True rd(2) show False by simp
      next
        case False
        have xp: "0 < x" using False by (simp add: not_less less_le_trans[of 0 "2 ^ 53"])
        have "(of_nat (Suc i) :: rat) \<le> of_nat (2 ^ 52)"
          using i n by (simp only: of_nat_le_iff)
        then have s: "(of_nat (Suc i) :: rat) \<le> 2 ^ 52" by simp
        have "x - 2 powi (binade x - 52) / 2 \<le> roundDouble x"
        proof -
          define u :: rat where "u = 2 powi (binade x - 52)"
          have u0: "0 < u" by (simp add: u_def)
          have a: "(x / u - 1 / 2) * u \<le> of_int (roundEven (x / u)) * u"
            using roundEven_bounds(2)[of "x / u"] u0 by (simp only: mult_right_mono less_imp_le)
          have b: "(x / u - 1 / 2) * u = x - u / 2" using u0 by (simp add: field_simps)
          have c: "roundDouble x = of_int (roundEven (x / u)) * u"
            unfolding u_def by (rule roundDouble_nonneg[OF xp])
          show ?thesis unfolding c u_def[symmetric] using a unfolding b .
        qed
        moreover have "2 powi (binade x - 52) \<le> x / 2 ^ 52"
        proof -
          have "(2::rat) powi (binade x - 52) = 2 powi binade x / 2 powi 52" by (simp add: power_int_diff)
          also have "\<dots> \<le> x / 2 powi 52" using binade_bounds[OF xp] by (simp add: divide_right_mono)
          finally show ?thesis by simp
        qed
        ultimately have "x * (1 - 1 / 2 ^ 53) \<le> roundDouble x" by (simp add: field_simps)
        moreover have "(2 ^ 53) * (1 - 1 / 2 ^ 53) \<le> x * (1 - 1 / 2 ^ 53)"
        proof (rule mult_right_mono)
          show "2 ^ 53 \<le> x" using False by simp
        qed simp
        ultimately have "(2::rat) ^ 53 - 1 \<le> roundDouble x" by (simp add: field_simps)
        with rd(2) s show False by simp
      qed
    qed
    show "of_nat i / of_nat n * (1 - 1 / 2 ^ 53) \<le> r \<and> r < of_nat (Suc i) / of_nat n"
      using lower upper n0 unfolding x_def by (simp add: field_simps)
  qed
qed

text \<open>The draw just below two thirds, where the rounded product reaches 2.\<close>

lemma randomIndex_rounded:
  "unitDouble (6004799503160661 / 2 ^ 53) \<and> randomIndex (6004799503160661 / 2 ^ 53) 3 = 2"
  by code_simp

text \<open>
  Claim C7. For a walker that is not a soldier and a draw \<open>r\<close>, a double in \<open>[0, 1)\<close>: the
  road neighbours are the four neighbours holding a road or the forum. The candidates are
  the road neighbours other than the cell just left, all distinct. If there are \<open>n > 0\<close>
  candidates the target is candidate \<open>floor (r n)\<close>, the product \<open>r n\<close> rounded to a double
  as the program forms it, and it is one of the candidates. Candidate \<open>i\<close> is taken on every
  draw with \<open>i / n \<le> r \<le> (i + 1) / n (1 - 2^-53)\<close> and on no draw outside
  \<open>i / n (1 - 2^-53) \<le> r < (i + 1) / n\<close>: every candidate gets an interval of the same
  length, its ends moved by at most one part in \<open>2^53\<close>.
  If there is no candidate but the cell just left is a road neighbour, the target is that
  cell. Otherwise there is no road neighbour at all and the target is the current cell.
  Only the target changes, and only the first case draws.
\<close>

theorem chooseNextTile_service:
  assumes ns: "w_type walker \<noteq> Soldier"
    and r: "unitDouble (fst (draw rng))"
  shows
    "set (getRoadNeighbors g (gridX walker) (gridZ walker))
       = {n \<in> {(gridX walker + 1, gridZ walker), (gridX walker - 1, gridZ walker),
               (gridX walker, gridZ walker + 1), (gridX walker, gridZ walker - 1)}. isRoadOrForum g n}
     \<and> (let cand = filter (\<lambda>n. n \<noteq> (prevX walker, prevZ walker))
                     (getRoadNeighbors g (gridX walker) (gridZ walker));
             res = chooseNextTile walker g invasion rng;
             target = (targetX (fst res), targetZ (fst res))
         in fst res = walker\<lparr>targetX := fst target, targetZ := snd target\<rparr>
            \<and> distinct cand
            \<and> (cand \<noteq> [] \<longrightarrow>
                  target = cand ! randomIndex (fst (draw rng)) (length cand)
                  \<and> target \<in> set cand
                  \<and> (\<forall>i < length cand.
                        (of_nat i / of_nat (length cand) \<le> fst (draw rng)
                           \<and> fst (draw rng) \<le> of_nat (Suc i) / of_nat (length cand) * (1 - 1 / 2 ^ 53)
                           \<longrightarrow> target = cand ! i)
                        \<and> (target = cand ! i
                           \<longrightarrow> of_nat i / of_nat (length cand) * (1 - 1 / 2 ^ 53) \<le> fst (draw rng)
                               \<and> fst (draw rng) < of_nat (Suc i) / of_nat (length cand)))
                  \<and> snd res = snd (draw rng))
            \<and> (cand = [] \<and> (prevX walker, prevZ walker) \<in> set (getRoadNeighbors g (gridX walker) (gridZ walker)) \<longrightarrow>
                  target = (prevX walker, prevZ walker) \<and> snd res = rng)
            \<and> (cand = [] \<and> (prevX walker, prevZ walker) \<notin> set (getRoadNeighbors g (gridX walker) (gridZ walker)) \<longrightarrow>
                  getRoadNeighbors g (gridX walker) (gridZ walker) = [])
            \<and> (getRoadNeighbors g (gridX walker) (gridZ walker) = [] \<longrightarrow>
                  target = (gridX walker, gridZ walker) \<and> snd res = rng))"
proof -
  let ?all = "getRoadNeighbors g (gridX walker) (gridZ walker)"
  let ?P = "\<lambda>n. \<not> (fst n = prevX walker \<and> snd n = prevZ walker)"
  define cand where "cand = filter (\<lambda>n. n \<noteq> (prevX walker, prevZ walker)) ?all"
  define res where "res = chooseNextTile walker g invasion rng"
  define target where "target = (targetX (fst res), targetZ (fst res))"
  have cand_eq: "filter ?P ?all = cand"
    unfolding cand_def by (rule filter_cong) auto
  have set_all: "set ?all = {n \<in> {(gridX walker + 1, gridZ walker), (gridX walker - 1, gridZ walker),
               (gridX walker, gridZ walker + 1), (gridX walker, gridZ walker - 1)}. isRoadOrForum g n}"
    by (auto simp: getRoadNeighbors_def neighborsOf_set)
  have dist: "distinct cand"
    by (simp add: cand_def getRoadNeighbors_def distinct_neighborsOf)
  obtain rv rng' where d: "draw rng = (rv, rng')" by (cases "draw rng")
  have ud: "unitDouble rv" using r d by simp
  have rv: "0 \<le> rv" using ud by (simp add: unitDouble_def)
  have small: "length cand \<le> 2 ^ 52"
  proof -
    have "length cand \<le> length (neighborsOf (gridX walker) (gridZ walker))"
      unfolding cand_def getRoadNeighbors_def
      by (rule order_trans[OF length_filter_le length_filter_le])
    then show ?thesis by (simp add: neighborsOf_def NEIGHBORS_def)
  qed
  have fd: "fst (draw rng) = rv" "snd (draw rng) = rng'" using d by simp_all
  have res_eq: "res =
     (if length cand = 0 then
        (if length ?all > 0
         then (walker\<lparr>targetX := prevX walker, targetZ := prevZ walker\<rparr>, rng)
         else (walker\<lparr>targetX := gridX walker, targetZ := gridZ walker\<rparr>, rng))
      else (walker\<lparr>targetX := fst (pickRandom rv cand), targetZ := snd (pickRandom rv cand)\<rparr>, rng'))"
    unfolding res_def chooseNextTile_def cand_eq using ns d by (simp add: Let_def)
  have shape: "fst res = walker\<lparr>targetX := fst target, targetZ := snd target\<rparr>"
    unfolding target_def res_eq by simp
  have pick: "target = cand ! randomIndex rv (length cand) \<and> target \<in> set cand
        \<and> (\<forall>i < length cand.
               (of_nat i / of_nat (length cand) \<le> rv
                  \<and> rv \<le> of_nat (Suc i) / of_nat (length cand) * (1 - 1 / 2 ^ 53)
                  \<longrightarrow> target = cand ! i)
               \<and> (target = cand ! i
                  \<longrightarrow> of_nat i / of_nat (length cand) * (1 - 1 / 2 ^ 53) \<le> rv
                      \<and> rv < of_nat (Suc i) / of_nat (length cand)))
        \<and> snd res = rng'"
    if ne: "cand \<noteq> []"
  proof -
    have t: "target = cand ! randomIndex rv (length cand)"
      unfolding target_def res_eq using ne by (simp add: pickRandom_def)
    have lt: "randomIndex rv (length cand) < length cand"
      using randomIndex_less[OF ud] ne by simp
    have mem: "target \<in> set cand" unfolding t using lt by simp
    have iff: "(of_nat i / of_nat (length cand) \<le> rv
                  \<and> rv \<le> of_nat (Suc i) / of_nat (length cand) * (1 - 1 / 2 ^ 53)
                  \<longrightarrow> target = cand ! i)
               \<and> (target = cand ! i
                  \<longrightarrow> of_nat i / of_nat (length cand) * (1 - 1 / 2 ^ 53) \<le> rv
                      \<and> rv < of_nat (Suc i) / of_nat (length cand))"
      if i: "i < length cand" for i
    proof -
      have e: "target = cand ! i \<longleftrightarrow> randomIndex rv (length cand) = i"
        unfolding t using dist lt i by (simp add: nth_eq_iff_index_eq)
      show ?thesis unfolding e using randomIndex_interval[OF i small rv] by blast
    qed
    have "snd res = rng'" unfolding res_eq using ne by simp
    then show ?thesis using t mem iff by blast
  qed
  have backtrack: "target = (prevX walker, prevZ walker) \<and> snd res = rng"
    if "cand = [] \<and> (prevX walker, prevZ walker) \<in> set ?all"
  proof -
    from that have "length ?all > 0" by (cases ?all) auto
    then show ?thesis unfolding target_def res_eq using that by simp
  qed
  have none: "?all = []"
    if "cand = [] \<and> (prevX walker, prevZ walker) \<notin> set ?all"
  proof -
    from that have "\<forall>n \<in> set ?all. n = (prevX walker, prevZ walker)"
      unfolding cand_def by (simp add: filter_empty_conv)
    with that show ?thesis by (cases ?all) auto
  qed
  have stay: "target = (gridX walker, gridZ walker) \<and> snd res = rng" if "?all = []"
  proof -
    have "cand = []" using that by (simp add: cand_def)
    then show ?thesis unfolding target_def res_eq using that by simp
  qed
  have main: "fst res = walker\<lparr>targetX := fst target, targetZ := snd target\<rparr>
            \<and> distinct cand
            \<and> (cand \<noteq> [] \<longrightarrow>
                  target = cand ! randomIndex (fst (draw rng)) (length cand)
                  \<and> target \<in> set cand
                  \<and> (\<forall>i < length cand.
                        (of_nat i / of_nat (length cand) \<le> fst (draw rng)
                           \<and> fst (draw rng) \<le> of_nat (Suc i) / of_nat (length cand) * (1 - 1 / 2 ^ 53)
                           \<longrightarrow> target = cand ! i)
                        \<and> (target = cand ! i
                           \<longrightarrow> of_nat i / of_nat (length cand) * (1 - 1 / 2 ^ 53) \<le> fst (draw rng)
                               \<and> fst (draw rng) < of_nat (Suc i) / of_nat (length cand)))
                  \<and> snd res = snd (draw rng))
            \<and> (cand = [] \<and> (prevX walker, prevZ walker) \<in> set ?all \<longrightarrow>
                  target = (prevX walker, prevZ walker) \<and> snd res = rng)
            \<and> (cand = [] \<and> (prevX walker, prevZ walker) \<notin> set ?all \<longrightarrow> ?all = [])
            \<and> (?all = [] \<longrightarrow> target = (gridX walker, gridZ walker) \<and> snd res = rng)"
    unfolding fd using shape dist pick backtrack none stay by blast
  show ?thesis
    using set_all main unfolding cand_def res_def target_def Let_def by blast
qed

theorem chooseNextTile_service_witness:
  "w_type (carrier (1, 1) (1, 0)) \<noteq> Soldier
   \<and> unitDouble (fst (draw (\<lambda>n. 5 / 8)))
   \<and> getRoadNeighbors roadGrid 1 1 = [(0, 1), (1, 2), (1, 0)]
   \<and> (targetX (fst (chooseNextTile (carrier (1, 1) (1, 0)) roadGrid None (\<lambda>n. 5 / 8))),
       targetZ (fst (chooseNextTile (carrier (1, 1) (1, 0)) roadGrid None (\<lambda>n. 5 / 8)))) = (1, 2)
   \<and> getRoadNeighbors roadGrid 1 0 = [(1, 1)]
   \<and> (targetX (fst (chooseNextTile (carrier (1, 0) (1, 1)) roadGrid None (\<lambda>n. 5 / 8))),
       targetZ (fst (chooseNextTile (carrier (1, 0) (1, 1)) roadGrid None (\<lambda>n. 5 / 8)))) = (1, 1)
   \<and> getRoadNeighbors roadGrid 3 3 = []
   \<and> (targetX (fst (chooseNextTile (carrier (3, 3) (3, 2)) roadGrid None (\<lambda>n. 5 / 8))),
       targetZ (fst (chooseNextTile (carrier (3, 3) (3, 2)) roadGrid None (\<lambda>n. 5 / 8)))) = (3, 3)"
proof -
  let ?R = "(\<lambda>n. 5 / 8) :: Rng"
  have ns: "\<And>p q. w_type (carrier p q) \<noteq> Soldier" by (simp add: carrier_def newWalker_def)
  have u: "unitDouble (5 / 8)" by code_simp
  have r: "unitDouble (fst (draw ?R))" using u by (simp add: draw_def)
  have pos: "gridX (carrier (1, 1) (1, 0)) = 1" "gridZ (carrier (1, 1) (1, 0)) = 1"
      "prevX (carrier (1, 1) (1, 0)) = 1" "prevZ (carrier (1, 1) (1, 0)) = 0"
      "gridX (carrier (1, 0) (1, 1)) = 1" "gridZ (carrier (1, 0) (1, 1)) = 0"
      "prevX (carrier (1, 0) (1, 1)) = 1" "prevZ (carrier (1, 0) (1, 1)) = 1"
      "gridX (carrier (3, 3) (3, 2)) = 3" "gridZ (carrier (3, 3) (3, 2)) = 3"
    by (simp_all add: carrier_def newWalker_def)
  have n1: "getRoadNeighbors roadGrid 1 1 = [(0, 1), (1, 2), (1, 0)]" by code_simp
  have n2: "getRoadNeighbors roadGrid 1 0 = [(1, 1)]" by code_simp
  have n3: "getRoadNeighbors roadGrid 3 3 = []" by code_simp
  have ri: "randomIndex (5 / 8) (Suc (Suc 0)) = Suc 0" by code_simp
  note a = chooseNextTile_service[where walker="carrier (1, 1) (1, 0)" and g=roadGrid and invasion=None and rng="?R",
      OF ns r, unfolded Let_def pos n1]
  note b = chooseNextTile_service[where walker="carrier (1, 0) (1, 1)" and g=roadGrid and invasion=None and rng="?R",
      OF ns r, unfolded Let_def pos n2]
  note c = chooseNextTile_service[where walker="carrier (3, 3) (3, 2)" and g=roadGrid and invasion=None and rng="?R",
      OF ns r, unfolded Let_def pos n3]
  have ta: "(targetX (fst (chooseNextTile (carrier (1, 1) (1, 0)) roadGrid None ?R)),
       targetZ (fst (chooseNextTile (carrier (1, 1) (1, 0)) roadGrid None ?R))) = (1, 2)"
    using a ri by (simp add: draw_def)
  have tb: "(targetX (fst (chooseNextTile (carrier (1, 0) (1, 1)) roadGrid None ?R)),
       targetZ (fst (chooseNextTile (carrier (1, 0) (1, 1)) roadGrid None ?R))) = (1, 1)"
    using b by simp
  have tc: "(targetX (fst (chooseNextTile (carrier (3, 3) (3, 2)) roadGrid None ?R)),
       targetZ (fst (chooseNextTile (carrier (3, 3) (3, 2)) roadGrid None ?R))) = (3, 3)"
    using c by simp
  show ?thesis using ns r n1 n2 n3 ta tb tc by simp
qed

section \<open>The simulation tick\<close>

lemma rebuildRoadNetwork_fields [simp]:
  "resources (rebuildRoadNetwork s) = resources s"
  "gameOver (rebuildRoadNetwork s) = gameOver s"
  "score (rebuildRoadNetwork s) = score s"
  "invasionSystem (rebuildRoadNetwork s) = invasionSystem s"
  "buildingSystem (rebuildRoadNetwork s) = buildingSystem s"
  "walkers (rebuildRoadNetwork s) = walkers s"
  "tickCount (rebuildRoadNetwork s) = tickCount s"
  "forumPos (rebuildRoadNetwork s) = forumPos s"
  "roadsDirty (rebuildRoadNetwork s) = False"
  "grid (rebuildRoadNetwork s) = cleanGhostTiles (buildingSystem s) (grid s)"
  by (simp_all add: rebuildRoadNetwork_def Let_def)

lemma productionStep_fields:
  assumes "productionStep s rng = (s3, acc, rng1)"
  shows "population (resources s3) = population (resources s)"
    "gold (resources s3) = gold (resources s)"
    "maxPopulation (resources s3) = maxPopulation (resources s)"
    "gameOver s3 = gameOver s" "score s3 = score s" "invasionSystem s3 = invasionSystem s"
    "buildingSystem s3 = buildingSystem s" "forumPos s3 = forumPos s"
    "tickCount s3 = tickCount s + 1"
  using assms
  by (auto simp: productionStep_def Let_def split: prod.splits if_splits)

lemma economyStep_resources:
  "resources (economyStep s ts res) =
     taxed (adjustPopulation
       (housingCapacity (snd (case res of None \<Rightarrow> (buildingSystem s, grid s)
                                 | Some r \<Rightarrow> handleDestroyed (buildingsDestroyed r) (buildingSystem s, grid s))))
       (resources s))"
  "gameOver (economyStep s ts res) = gameOver s"
  by (simp_all add: economyStep_def Let_def taxed_def split: prod.splits)

lemma simulationTick_total: "\<exists>s' rng'. simulationTick s rng = Some (s', rng')"
proof (cases "gameOver s")
  case True
  then show ?thesis by (simp add: simulationTick_def)
next
  case False
  obtain s3 acc rng1 where p: "productionStep s rng = (s3, acc, rng1)"
    by (cases "productionStep s rng") auto
  obtain result sys g' rng2 where
    t: "invasionTick (invasionSystem s3) (grid s3) rng1 = Some (result, sys, g', rng2)"
    using invasionTick_total[of "invasionSystem s3" "grid s3" rng1] by (metis prod_cases4)
  show ?thesis using False p t by (simp add: simulationTick_def Let_def)
qed

lemma housingCapacity_nonneg: "0 \<le> housingCapacity g"
proof -
  have "0 \<le> m \<Longrightarrow> 0 \<le> fold (\<lambda>c maxPop.
             case getTile g (fst c) (snd c) of
               None \<Rightarrow> maxPop
             | Some tile \<Rightarrow>
                 if building tile = Some House \<and> hasWater tile \<and> hasFood tile
                 then maxPop + MAX_POP_PER_HOUSE else maxPop) cs m" for cs and m :: int
    by (induction cs arbitrary: m) (auto simp: MAX_POP_PER_HOUSE_def split: option.splits)
  then show ?thesis unfolding housingCapacity_def by simp
qed

text \<open>The three ways a tick can end.\<close>

lemma simulationTick_cases:
  assumes "simulationTick s rng = Some (s', rng')"
  shows "(gameOver s \<and> s' = s \<and> rng' = rng)
       \<or> (\<not> gameOver s \<and> gameOver s'
            \<and> population (resources s') = population (resources s)
            \<and> gold (resources s') = gold (resources s)
            \<and> maxPopulation (resources s') = maxPopulation (resources s))
       \<or> (\<not> gameOver s \<and> \<not> gameOver s'
            \<and> (\<exists>maxPop r. 0 \<le> maxPop \<and> population r = population (resources s)
                  \<and> resources s' = taxed (adjustPopulation maxPop r)))"
proof (cases "gameOver s")
  case True
  then show ?thesis using assms by (simp add: simulationTick_def)
next
  case False
  obtain s3 acc rng1 where p: "productionStep s rng = (s3, acc, rng1)"
    by (cases "productionStep s rng") auto
  note f = productionStep_fields[OF p]
  obtain result sys g' rng2 where
    t: "invasionTick (invasionSystem s3) (grid s3) rng1 = Some (result, sys, g', rng2)"
    using invasionTick_total[of "invasionSystem s3" "grid s3" rng1] by (metis prod_cases4)
  define s4 where "s4 = s3\<lparr>invasionSystem := sys, grid := g'\<rparr>"
  show ?thesis
  proof (cases "case result of None \<Rightarrow> False | Some r \<Rightarrow> forumDestroyed r")
    case True
    then have "s' = handleGameOver s4"
      using assms False p t by (simp add: simulationTick_def s4_def Let_def)
    then show ?thesis using False f by (simp add: handleGameOver_def s4_def)
  next
    case nf: False
    then have s': "s' = economyStep s4 (towers acc) result"
      using assms False p t by (simp add: simulationTick_def s4_def Let_def)
    have "\<not> gameOver s'" using s' False f(4) by (simp add: economyStep_resources s4_def)
    moreover have "\<exists>maxPop r. 0 \<le> maxPop \<and> population r = population (resources s)
                  \<and> resources s' = taxed (adjustPopulation maxPop r)"
      unfolding s' economyStep_resources using f(1) housingCapacity_nonneg
      by (intro exI[of _ "housingCapacity _"] exI[of _ "resources s4"]) (simp add: s4_def)
    ultimately show ?thesis using False by blast
  qed
qed

lemma adjustPopulation_bounds:
  assumes "0 \<le> population r" "0 \<le> maxPop"
  shows "0 \<le> population (adjustPopulation maxPop r)"
    "\<bar>population (adjustPopulation maxPop r) - population r\<bar> \<le> GROWTH_RATE"
    "maxPopulation (adjustPopulation maxPop r) = maxPop"
    "population r < population (adjustPopulation maxPop r) \<longrightarrow> population (adjustPopulation maxPop r) \<le> maxPop"
    "maxPop < population r \<longrightarrow> maxPop \<le> population (adjustPopulation maxPop r)"
  using assms by (auto simp: adjustPopulation_def Let_def GROWTH_RATE_def)

lemma taxed_fields [simp]:
  "population (taxed r) = population r" "maxPopulation (taxed r) = maxPopulation r" "food (taxed r) = food r"
  by (simp_all add: taxed_def)

lemma tick_population:
  assumes t: "simulationTick s rng = Some (s', rng')" and p: "0 \<le> population (resources s)"
  shows "0 \<le> population (resources s')
       \<and> \<bar>population (resources s') - population (resources s)\<bar> \<le> GROWTH_RATE
       \<and> (population (resources s) < population (resources s') \<longrightarrow>
             population (resources s') \<le> maxPopulation (resources s'))
       \<and> (maxPopulation (resources s') < population (resources s) \<longrightarrow>
             maxPopulation (resources s') \<le> population (resources s'))"
proof -
  from simulationTick_cases[OF t] consider
      (over) "s' = s"
    | (lost) "population (resources s') = population (resources s)"
    | (econ) maxPop r where "0 \<le> maxPop" "population r = population (resources s)"
        "resources s' = taxed (adjustPopulation maxPop r)"
    by blast
  then show ?thesis
  proof cases
    case over
    then show ?thesis using p by (simp add: GROWTH_RATE_def)
  next
    case lost
    then show ?thesis using p by (simp add: GROWTH_RATE_def)
  next
    case econ
    have r0: "0 \<le> population r" using econ(2) p by simp
    note b = adjustPopulation_bounds[OF r0 econ(1)]
    show ?thesis unfolding econ(3) using b econ(2) by simp
  qed
qed

lemma runTicks_population:
  "0 \<le> population (resources s) \<Longrightarrow>
     \<exists>s' rng'. runTicks n s rng = Some (s', rng') \<and> 0 \<le> population (resources s')"
proof (induction n arbitrary: s rng)
  case 0
  then show ?case by simp
next
  case (Suc n)
  obtain s1 rng1 where t: "simulationTick s rng = Some (s1, rng1)"
    using simulationTick_total by blast
  from tick_population[OF t Suc.prems] have "0 \<le> population (resources s1)" by simp
  from Suc.IH[OF this, of rng1] t show ?case by simp
qed

text \<open>
  Claim C10. From a state whose population is not negative, a simulation tick returns, and
  in the state it returns the population is not negative and differs from the population
  before by at most 3; when it has grown it does not exceed the max population of the new
  state, and when it stood above that max population it has not dropped below it. Any
  number of ticks returns and keeps the population non-negative; the constructor, \<open>start\<close>
  and \<open>restart\<close> set the population to 0.
\<close>

theorem population_bounds:
  assumes "0 \<le> population (resources s)"
  shows "(\<exists>s' rng'. simulationTick s rng = Some (s', rng')
            \<and> 0 \<le> population (resources s')
            \<and> \<bar>population (resources s') - population (resources s)\<bar> \<le> 3
            \<and> (population (resources s) < population (resources s') \<longrightarrow>
                  population (resources s') \<le> maxPopulation (resources s'))
            \<and> (maxPopulation (resources s') < population (resources s) \<longrightarrow>
                  maxPopulation (resources s') \<le> population (resources s')))
       \<and> (\<forall>n. \<exists>s' rng'. runTicks n s rng = Some (s', rng') \<and> 0 \<le> population (resources s'))
       \<and> GROWTH_RATE = 3
       \<and> population (resources new_Game) = 0
       \<and> population (resources (start new_Game)) = 0
       \<and> population (resources (restart s)) = 0"
proof -
  obtain s' rng' where t: "simulationTick s rng = Some (s', rng')"
    using simulationTick_total by blast
  have a: "\<exists>s' rng'. simulationTick s rng = Some (s', rng')
            \<and> 0 \<le> population (resources s')
            \<and> \<bar>population (resources s') - population (resources s)\<bar> \<le> 3
            \<and> (population (resources s) < population (resources s') \<longrightarrow>
                  population (resources s') \<le> maxPopulation (resources s'))
            \<and> (maxPopulation (resources s') < population (resources s) \<longrightarrow>
                  maxPopulation (resources s') \<le> population (resources s'))"
    using t tick_population[OF t assms] by (auto simp: GROWTH_RATE_def)
  have b: "\<forall>n. \<exists>s' rng'. runTicks n s rng = Some (s', rng') \<and> 0 \<le> population (resources s')"
    using runTicks_population[OF assms] by blast
  have c: "population (resources new_Game) = 0" by (simp add: new_Game_def)
  have d: "population (resources (start new_Game)) = 0"
    by (simp add: start_def Let_def new_Game_def split: prod.splits)
  have e: "population (resources (restart s)) = 0"
    by (simp add: restart_def Let_def split: prod.splits)
  show ?thesis using a b c d e by (simp add: GROWTH_RATE_def)
qed

lemma forumSafe_basic: "forumSafe clearTile" "forumSafe (markTile Forum)"
  by (auto simp: forumSafe_def clearTile_def markTile_def)

lemma coreKeeping_basic: "coreKeeping ageTile" "coreKeeping (serviceTile ty)"
  by (auto simp: coreKeeping_def ageTile_def serviceTile_def Let_def)

lemma coreKeeping_forumSafe: "coreKeeping f \<Longrightarrow> forumSafe f"
  by (simp add: coreKeeping_def forumSafe_def)

lemma forumIntact_modTile:
  assumes "wf_grid g" "forumIntact g" "forumSafe f"
  shows "forumIntact (modTile f c g)"
  unfolding forumIntact_def
proof (intro allI impI)
  fix px pz t
  assume a: "getTile (modTile f c g) px pz = Some t \<and> building t = Some Forum"
  show "0 < buildingHp t"
  proof (cases "c = (px, pz)")
    case True
    with a have "map_option f (getTile g px pz) = Some t"
      using getTile_modTile[OF assms(1), of f c px pz] by simp
    then obtain t0 where t0: "getTile g px pz = Some t0" "t = f t0"
      by (cases "getTile g px pz") auto
    with a assms(3) have "(building t0 = Some Forum \<and> buildingHp t = buildingHp t0) \<or> 0 < buildingHp t"
      by (auto simp: forumSafe_def)
    with t0(1) assms(2) show ?thesis by (auto simp: forumIntact_def)
  next
    case False
    with a have "getTile g px pz = Some t"
      using getTile_modTile[OF assms(1), of f c px pz] by simp
    with a assms(2) show ?thesis by (auto simp: forumIntact_def)
  qed
qed

lemma stage_trans: "stage P g' g'' \<Longrightarrow> stage P g g' \<Longrightarrow> stage P g g''"
  by (induction rule: stage.induct) (auto intro: stage.intros)

lemma stage_mono: "stage P g g' \<Longrightarrow> (\<And>f. P f \<Longrightarrow> Q f) \<Longrightarrow> stage Q g g'"
  by (induction rule: stage.induct) (auto intro: stage.intros)

lemma stage_wf: "stage P g g' \<Longrightarrow> wf_grid g \<Longrightarrow> wf_grid g' \<and> gsize g' = gsize g"
  by (induction rule: stage.induct) (auto simp: wf_grid_modTile)

lemma stage_forumIntact:
  "stage forumSafe g g' \<Longrightarrow> wf_grid g \<Longrightarrow> forumIntact g \<Longrightarrow> forumIntact g'"
proof (induction rule: stage.induct)
  case (refl g)
  then show ?case by simp
next
  case (step g g' f c)
  then show ?case using stage_wf[OF step.hyps(1)] forumIntact_modTile by blast
qed

lemma stage_core:
  "stage coreKeeping g g' \<Longrightarrow> wf_grid g \<Longrightarrow>
     map_option (\<lambda>t. (building t, buildingHp t)) (getTile g' px pz)
       = map_option (\<lambda>t. (building t, buildingHp t)) (getTile g px pz)"
proof (induction rule: stage.induct)
  case (refl g)
  show ?case by simp
next
  case (step g g' f c)
  have wf': "wf_grid g'" using stage_wf[OF step.hyps(1) step.prems] by simp
  have "map_option (\<lambda>t. (building t, buildingHp t)) (getTile (modTile f c g') px pz)
      = map_option (\<lambda>t. (building t, buildingHp t)) (getTile g' px pz)"
    using getTile_modTile[OF wf', of f c px pz] step.hyps(2)
    by (cases "getTile g' px pz") (auto simp: coreKeeping_def)
  then show ?case using step.IH[OF step.prems] by simp
qed

lemma stage_fold:
  assumes "\<And>c g. stage P g (h c g)"
  shows "stage P g (fold h cs g)"
proof (induction cs arbitrary: g)
  case Nil
  show ?case by (simp add: stage.refl)
next
  case (Cons c cs)
  have "stage P (h c g) (fold h cs (h c g))" by (rule Cons.IH)
  then show ?case using assms[of g c] by (simp add: stage_trans)
qed

lemma stage_modTile: "P f \<Longrightarrow> stage P g (modTile f c g)"
  by (rule stage.step[OF stage.refl])

lemma stage_cleanGhostTiles: "stage forumSafe g (cleanGhostTiles bs g)"
  unfolding cleanGhostTiles_def
proof (rule stage_fold)
  fix c g
  show "stage forumSafe g (cleanGhostCell bs c g)"
    by (auto simp: cleanGhostCell_def stage.refl stage_modTile forumSafe_basic split: option.splits)
qed

lemma stage_scan: "stage coreKeeping g (fst (fold (scanCell reach) cs (g, acc)))"
proof (induction cs arbitrary: g acc)
  case Nil
  show ?case by (simp add: stage.refl)
next
  case (Cons c cs)
  obtain g1 acc1 where r: "scanCell reach c (g, acc) = (g1, acc1)" by (cases "scanCell reach c (g, acc)")
  have "stage coreKeeping g g1"
    using r by (auto simp: scanCell_def Let_def stage.refl stage_modTile coreKeeping_basic split: option.splits)
  moreover have "stage coreKeeping g1 (fst (fold (scanCell reach) cs (g1, acc1)))" by (rule Cons.IH)
  ultimately show ?case using r by (simp add: stage_trans)
qed

lemma stage_scanGrid: "stage coreKeeping g (fst (scanGrid reach g))"
  unfolding scanGrid_def by (rule stage_scan)

lemma stage_removeBuildingAt: "stage forumSafe g (snd (removeBuildingAt bs g px pz))"
proof (cases "findIndex (covers px pz) bs")
  case None
  then show ?thesis by (simp add: removeBuildingAt_def stage.refl)
next
  case (Some idx)
  have "stage forumSafe g (fold (modTile clearTile) cs g)" for cs
    by (rule stage_fold) (simp add: stage_modTile forumSafe_basic)
  then show ?thesis using Some by (simp add: removeBuildingAt_def Let_def)
qed

lemma stage_handleDestroyed: "stage forumSafe g (snd (handleDestroyed ds (bs, g)))"
proof (induction ds arbitrary: bs g)
  case Nil
  show ?case by (simp add: handleDestroyed_def stage.refl)
next
  case (Cons d ds)
  obtain bs1 g1 where r: "removeBuildingAt bs g (fst d) (fst (snd d)) = (bs1, g1)"
    by (cases "removeBuildingAt bs g (fst d) (fst (snd d))")
  have "stage forumSafe g g1" using stage_removeBuildingAt[of g bs "fst d" "fst (snd d)"] r by simp
  moreover have "stage forumSafe g1 (snd (handleDestroyed ds (bs1, g1)))"
    using Cons.IH[of g1 bs1] by (simp add: handleDestroyed_def)
  ultimately show ?case using r by (simp add: handleDestroyed_def stage_trans)
qed

lemma productionStep_grid:
  assumes "productionStep s rng = (s3, acc, rng1)"
  shows "grid s3 = fst (scanGrid (reachableRoads (if roadsDirty s then rebuildRoadNetwork s else s))
                          (if roadsDirty s then cleanGhostTiles (buildingSystem s) (grid s) else grid s))"
  using assms
  by (auto simp: productionStep_def Let_def rebuildRoadNetwork_def split: prod.splits if_splits)

lemma stage_productionStep:
  assumes "productionStep s rng = (s3, acc, rng1)"
  shows "stage forumSafe (grid s) (grid s3)"
    "\<not> roadsDirty s \<Longrightarrow> stage coreKeeping (grid s) (grid s3)"
proof -
  note g = productionStep_grid[OF assms]
  have sc: "\<And>reach g0. stage forumSafe g0 (fst (scanGrid reach g0))"
    using stage_scanGrid coreKeeping_forumSafe stage_mono by blast
  show "stage forumSafe (grid s) (grid s3)"
  proof (cases "roadsDirty s")
    case True
    then show ?thesis unfolding g using sc stage_cleanGhostTiles stage_trans by simp blast
  next
    case False
    then show ?thesis unfolding g using sc by simp
  qed
  show "\<not> roadsDirty s \<Longrightarrow> stage coreKeeping (grid s) (grid s3)"
    unfolding g using stage_scanGrid by simp
qed

lemma stage_economyStep: "stage forumSafe (grid s) (grid (economyStep s ts res))"
proof -
  have "grid (economyStep s ts res) =
      snd (case res of None \<Rightarrow> (buildingSystem s, grid s)
           | Some r \<Rightarrow> handleDestroyed (buildingsDestroyed r) (buildingSystem s, grid s))"
    by (simp add: economyStep_def Let_def split: prod.splits)
  then show ?thesis
    by (cases res) (simp_all add: stage.refl stage_handleDestroyed)
qed

lemma attackBuilding_forum:
  assumes wf: "wf_grid g" and ab: "attackBuilding iv g = (ar, g')"
  shows "wf_grid g' \<and> (forumIntact g \<longrightarrow> forumIntact g' \<or> ar = Some ForumDestroyed)"
proof (cases "getTile g (inv_x iv) (inv_z iv)")
  case None
  then show ?thesis using ab wf by (auto simp: attackBuilding_def)
next
  case (Some tile)
  show ?thesis
  proof (cases "building tile")
    case None
    then show ?thesis using ab wf Some by (auto simp: attackBuilding_def)
  next
    case (Some type)
    let ?c = "(inv_x iv, inv_z iv)"
    have g': "g' = modTile (damageTile (damage iv)) ?c g"
      using ab \<open>getTile g (inv_x iv) (inv_z iv) = Some tile\<close> Some
      by (auto simp: attackBuilding_def Let_def split: if_splits)
    have wf': "wf_grid g'" unfolding g' using wf by (rule wf_grid_modTile)
    have "forumIntact g' \<or> ar = Some ForumDestroyed" if fi: "forumIntact g"
    proof (cases "type = Forum \<and> buildingHp tile - damage iv \<le> 0")
      case True
      then have "ar = Some ForumDestroyed"
        using ab \<open>getTile g (inv_x iv) (inv_z iv) = Some tile\<close> Some
        by (auto simp: attackBuilding_def Let_def)
      then show ?thesis ..
    next
      case False
      have "forumIntact g'"
        unfolding forumIntact_def
      proof (intro allI impI)
        fix px pz t
        assume a: "getTile g' px pz = Some t \<and> building t = Some Forum"
        show "0 < buildingHp t"
        proof (cases "?c = (px, pz)")
          case True
          then have "getTile g' px pz = Some (damageTile (damage iv) tile)"
            unfolding g' using getTile_modTile[OF wf, of "damageTile (damage iv)" ?c px pz]
              \<open>getTile g (inv_x iv) (inv_z iv) = Some tile\<close> by auto
          with a have t: "t = damageTile (damage iv) tile" by simp
          with a Some have "type = Forum" by (simp add: damageTile_def)
          with False have "0 < buildingHp tile - damage iv" by simp
          then show ?thesis using t by (simp add: damageTile_def)
        next
          case ne: False
          then have "getTile g' px pz = getTile g px pz"
            unfolding g' using getTile_modTile[OF wf, of "damageTile (damage iv)" ?c px pz] by auto
          with a fi show ?thesis by (auto simp: forumIntact_def)
        qed
      qed
      then show ?thesis ..
    qed
    then show ?thesis using wf' by blast
  qed
qed

lemma flagged_simps [simp]:
  "flagged (Some ((orEmpty res)\<lparr>forumDestroyed := True\<rparr>))"
  "flagged (Some ((orEmpty res)\<lparr>buildingsDestroyed := bd\<rparr>)) = flagged res"
  "flagged (Some ((orEmpty res)\<lparr>damages := dm\<rparr>)) = flagged res"
  "\<not> flagged None"
  by (cases res; simp add: flagged_def orEmpty_def emptyResult_def)+

lemma processInvader_forum:
  assumes wf: "wf_grid g" and pi: "processInvader fp iv g res = Some (iv', g', res')"
  shows "wf_grid g' \<and> (flagged res \<longrightarrow> flagged res')
       \<and> (forumIntact g \<or> flagged res \<longrightarrow> forumIntact g' \<or> flagged res')"
proof (cases "inv_state iv = Attacking \<and> attackCooldown iv - 1 \<le> 0")
  case False
  then have "g' = g" "res' = res"
    using pi by (auto simp: processInvader_def Let_def split: if_splits)
  then show ?thesis using wf by simp
next
  case True
  define iv2 where "iv2 = iv\<lparr>attackCooldown := ATTACK_COOLDOWN\<rparr>"
  obtain ar g1 where ab: "attackBuilding iv2 g = (ar, g1)" by (cases "attackBuilding iv2 g")
  note f = attackBuilding_forum[OF wf ab]
  have g1: "g' = g1"
    using pi True ab
    by (auto simp: processInvader_def Let_def iv2_def bind_eq_Some_conv split: option.splits AttackResult.splits)
  have fl: "flagged res \<longrightarrow> flagged res'"
    using pi True ab
    by (auto simp: processInvader_def Let_def iv2_def bind_eq_Some_conv split: option.splits AttackResult.splits)
  have fd: "ar = Some ForumDestroyed \<longrightarrow> flagged res'"
    using pi True ab
    by (auto simp: processInvader_def Let_def iv2_def bind_eq_Some_conv split: option.splits AttackResult.splits)
  show ?thesis using f g1 fl fd by blast
qed

lemma processInvaders_forum:
  assumes "wf_grid g" "processInvaders fp invs g res = Some (invs', g', res')"
  shows "wf_grid g' \<and> (flagged res \<longrightarrow> flagged res')
       \<and> (forumIntact g \<or> flagged res \<longrightarrow> forumIntact g' \<or> flagged res')"
  using assms
proof (induction invs arbitrary: g res invs' g' res')
  case Nil
  then show ?case by simp
next
  case (Cons iv invs)
  from Cons.prems(2) obtain iv1 g1 res1 rest where
    a: "processInvader fp iv g res = Some (iv1, g1, res1)"
       "processInvaders fp invs g1 res1 = Some (rest, g', res')"
    by (auto simp: bind_eq_Some_conv)
  note p = processInvader_forum[OF Cons.prems(1) a(1)]
  from p have wf1: "wf_grid g1" by simp
  note q = Cons.IH[OF wf1 a(2)]
  show ?case using p q by blast
qed

lemma invasionTick_forum:
  assumes "wf_grid g" "forumIntact g" "invasionTick sys g rng = Some (res, sys', g', rng')"
  shows "wf_grid g' \<and> (forumIntact g' \<or> flagged res)"
proof -
  from assms(3) have "\<exists>(sys1 :: InvasionSystem) invs. processInvaders (inv_forumPos sys1) (invaders sys1) g None = Some (invs, g', res)"
    by (auto simp: invasionTick_def Let_def bind_eq_Some_conv)
  then obtain sys1 :: InvasionSystem and invs where
    a: "processInvaders (inv_forumPos sys1) (invaders sys1) g None = Some (invs, g', res)"
    by blast
  from processInvaders_forum[OF assms(1) a] assms(2) show ?thesis by blast
qed

lemma runTicks_gameOver: "gameOver s \<Longrightarrow> runTicks n s rng = Some (s, rng)"
  by (induction n) (simp_all add: simulationTick_def)

lemma simulationTick_step:
  assumes "\<not> gameOver s" "productionStep s rng = (s3, acc, rng1)"
    "invasionTick (invasionSystem s3) (grid s3) rng1 = Some (result, sys, g', rng2)"
  shows "simulationTick s rng =
     Some (if flagged result then handleGameOver (s3\<lparr>invasionSystem := sys, grid := g'\<rparr>)
           else economyStep (s3\<lparr>invasionSystem := sys, grid := g'\<rparr>) (towers acc) result, rng2)"
  using assms by (simp add: simulationTick_def Let_def flagged_def)

lemma tick_forum_end_to_end:
  assumes wf: "wf_grid (grid s)" and fi: "forumIntact (grid s)" and go: "\<not> gameOver s"
    and t: "simulationTick s rng = Some (s', rng')" and nf: "\<not> forumIntact (grid s')"
  shows "gameOver s'"
proof -
  obtain s3 acc rng1 where p: "productionStep s rng = (s3, acc, rng1)"
    by (cases "productionStep s rng") auto
  obtain result sys g' rng2 where
    i: "invasionTick (invasionSystem s3) (grid s3) rng1 = Some (result, sys, g', rng2)"
    using invasionTick_total[of "invasionSystem s3" "grid s3" rng1] by (metis prod_cases4)
  have w3: "wf_grid (grid s3)" "forumIntact (grid s3)"
    using stage_wf[OF stage_productionStep(1)[OF p] wf]
      stage_forumIntact[OF stage_productionStep(1)[OF p] wf fi] by simp_all
  from invasionTick_forum[OF w3 i] have w4: "wf_grid g'" "forumIntact g' \<or> flagged result" by simp_all
  note st = simulationTick_step[OF go p i]
  show ?thesis
  proof (cases "flagged result")
    case True
    then have "s' = handleGameOver (s3\<lparr>invasionSystem := sys, grid := g'\<rparr>)"
      using st t by simp
    then show ?thesis by (simp add: handleGameOver_def)
  next
    case False
    then have s': "s' = economyStep (s3\<lparr>invasionSystem := sys, grid := g'\<rparr>) (towers acc) result"
      using st t by simp
    from False w4 have "forumIntact g'" by simp
    moreover have "stage forumSafe g' (grid s')"
      unfolding s' using stage_economyStep[of "s3\<lparr>invasionSystem := sys, grid := g'\<rparr>"] by simp
    ultimately have "forumIntact (grid s')" using stage_forumIntact w4(1) by blast
    with nf show ?thesis by simp
  qed
qed

text \<open>
  Claim C8. On a well-formed grid whose forum tiles all have hit points left, an invasion
  tick that leaves a forum tile with no hit points left returns the capital-destroyed
  signal. A simulation tick whose invasion tick returns that signal ends in
  \<open>handleGameOver\<close>, whose state has the game-over flag set; so a simulation tick that
  starts with an intact forum and ends with a broken one ends with the flag set. With the
  flag set a simulation tick returns the state as it is, so after any number of ticks the
  resource state is the same and the flag is still set; \<open>restart\<close> clears the flag.
\<close>

theorem capital_destroyed:
  "(\<forall>g sys rng res sys' g' rng'.
       wf_grid g \<and> forumIntact g \<and> invasionTick sys g rng = Some (res, sys', g', rng') \<and> \<not> forumIntact g'
         \<longrightarrow> (\<exists>r. res = Some r \<and> forumDestroyed r))
   \<and> (\<forall>s rng s3 acc rng1 r sys g' rng2.
       \<not> gameOver s \<and> productionStep s rng = (s3, acc, rng1)
       \<and> invasionTick (invasionSystem s3) (grid s3) rng1 = Some (Some r, sys, g', rng2) \<and> forumDestroyed r
         \<longrightarrow> simulationTick s rng = Some (handleGameOver (s3\<lparr>invasionSystem := sys, grid := g'\<rparr>), rng2)
             \<and> gameOver (handleGameOver (s3\<lparr>invasionSystem := sys, grid := g'\<rparr>)))
   \<and> (\<forall>s rng s' rng'.
       wf_grid (grid s) \<and> forumIntact (grid s) \<and> \<not> gameOver s
       \<and> simulationTick s rng = Some (s', rng') \<and> \<not> forumIntact (grid s')
         \<longrightarrow> gameOver s')
   \<and> (\<forall>s rng. gameOver s \<longrightarrow> simulationTick s rng = Some (s, rng))
   \<and> (\<forall>s rng n s' rng'. gameOver s \<and> runTicks n s rng = Some (s', rng')
         \<longrightarrow> resources s' = resources s \<and> gameOver s')
   \<and> (\<forall>s. \<not> gameOver (restart s))"
proof (intro conjI allI impI)
  fix g sys rng res sys' g' rng'
  assume a: "wf_grid g \<and> forumIntact g \<and> invasionTick sys g rng = Some (res, sys', g', rng') \<and> \<not> forumIntact g'"
  then have "flagged res" using invasionTick_forum[of g sys rng res sys' g' rng'] by blast
  then show "\<exists>r. res = Some r \<and> forumDestroyed r"
    by (cases res) (simp_all add: flagged_def)
next
  fix s rng s3 acc rng1 r sys g' rng2
  assume a: "\<not> gameOver s \<and> productionStep s rng = (s3, acc, rng1)
       \<and> invasionTick (invasionSystem s3) (grid s3) rng1 = Some (Some r, sys, g', rng2) \<and> forumDestroyed r"
  then have "flagged (Some r)" by (simp add: flagged_def)
  with a show "simulationTick s rng = Some (handleGameOver (s3\<lparr>invasionSystem := sys, grid := g'\<rparr>), rng2)"
    using simulationTick_step[of s rng s3 acc rng1 "Some r" sys g' rng2] by simp
next
  fix s :: Game and s3 :: Game and sys :: InvasionSystem and g' :: Grid
  show "gameOver (handleGameOver (s3\<lparr>invasionSystem := sys, grid := g'\<rparr>))"
    by (simp add: handleGameOver_def)
next
  fix s rng s' rng'
  assume "wf_grid (grid s) \<and> forumIntact (grid s) \<and> \<not> gameOver s
       \<and> simulationTick s rng = Some (s', rng') \<and> \<not> forumIntact (grid s')"
  then show "gameOver s'" using tick_forum_end_to_end by blast
next
  fix s :: Game and rng :: Rng
  assume "gameOver s"
  then show "simulationTick s rng = Some (s, rng)" by (simp add: simulationTick_def)
next
  fix s :: Game and rng :: Rng and n s' rng'
  assume a: "gameOver s \<and> runTicks n s rng = Some (s', rng')"
  then have "s' = s" using runTicks_gameOver[of s n rng] by simp
  then show "resources s' = resources s" by simp
next
  fix s :: Game and rng :: Rng and n s' rng'
  assume a: "gameOver s \<and> runTicks n s rng = Some (s', rng')"
  then have "s' = s" using runTicks_gameOver[of s n rng] by simp
  then show "gameOver s'" using a by simp
next
  fix s :: Game
  show "\<not> gameOver (restart s)"
    by (simp add: restart_def Let_def split: prod.splits)
qed

lemma getTile_new_Grid:
  "isInBounds (new_Grid n) px pz \<Longrightarrow> getTile (new_Grid n) px pz = Some (new_Tile px pz)"
  by (simp add: getTile_def isInBounds_def new_Grid_def new_row_def offsets_def)

lemma cleanGhostTiles_id:
  assumes "\<And>px pz t. getTile g px pz = Some t \<Longrightarrow> building t \<noteq> None \<Longrightarrow> list_ex (covers px pz) bs"
  shows "cleanGhostTiles bs g = g"
proof -
  have c: "cleanGhostCell bs c g = g" for c
    using assms[of "fst c" "snd c"] by (auto simp: cleanGhostCell_def split: option.splits)
  have "fold (cleanGhostCell bs) cs g = g" for cs
    by (induction cs) (simp_all add: c)
  then show ?thesis by (simp add: cleanGhostTiles_def)
qed

lemma forum_placed:
  "place [] (new_Grid GRID_SIZE) Forum 15 15 0 =
     (True, [\<lparr>pb_type = Forum, pb_x = 15, pb_z = 15\<rparr>],
      fold (modTile (markTile Forum)) (footprint 15 15 2) (new_Grid GRID_SIZE), 0)"
proof -
  have "canPlace (new_Grid GRID_SIZE) Forum 15 15"
    unfolding canPlace_iff
  proof (intro allI impI)
    fix dx dz :: int
    assume "0 \<le> dx \<and> dx < bsize (BUILDINGS Forum) \<and> 0 \<le> dz \<and> dz < bsize (BUILDINGS Forum)"
    then have ib: "isInBounds (new_Grid GRID_SIZE) (15 + dx) (15 + dz)"
      by (simp add: isInBounds_def new_Grid_def GRID_SIZE_def)
    then show "isInBounds (new_Grid GRID_SIZE) (15 + dx) (15 + dz) \<and>
        (\<exists>t. getTile (new_Grid GRID_SIZE) (15 + dx) (15 + dz) = Some t \<and> building t = None)"
      by (simp add: getTile_new_Grid new_Tile_def)
  qed
  then show ?thesis by (simp add: place_def Let_def)
qed

lemma start_fields:
  "grid (start new_Game) = fold (modTile (markTile Forum)) (footprint 15 15 2) (new_Grid GRID_SIZE)"
  "\<not> roadsDirty (start new_Game)" "\<not> gameOver (start new_Game)"
  "forumPos (start new_Game) = (15, 15)"
  "buildingSystem (start new_Game) = [\<lparr>pb_type = Forum, pb_x = 15, pb_z = 15\<rparr>]"
  "resources (start new_Game) = \<lparr>gold = 500, food = 0, population = 0, maxPopulation = 0\<rparr>"
  "walkers (start new_Game) = []"
proof -
  let ?g = "fold (modTile (markTile Forum)) (footprint 15 15 2) (new_Grid GRID_SIZE)"
  let ?bs = "[\<lparr>pb_type = Forum, pb_x = 15, pb_z = 15\<rparr>]"
  have wf: "wf_grid (new_Grid GRID_SIZE)" by (simp add: wf_grid_new_Grid GRID_SIZE_def)
  have "list_ex (covers px pz) ?bs" if t: "getTile ?g px pz = Some t" and b: "building t \<noteq> None"
    for px pz t
  proof (rule ccontr)
    assume "\<not> list_ex (covers px pz) ?bs"
    then have "(px, pz) \<notin> set (footprint 15 15 2)"
      by (auto simp: covers_def Let_def set_footprint)
    then have "getTile ?g px pz = getTile (new_Grid GRID_SIZE) px pz"
      using getTile_fold_modTile_other[OF wf] by simp
    with t have "getTile (new_Grid GRID_SIZE) px pz = Some t" by simp
    moreover from this have "isInBounds (new_Grid GRID_SIZE) px pz"
      using getTile_Some_iff by blast
    ultimately have "t = new_Tile px pz" by (simp add: getTile_new_Grid)
    with b show False by (simp add: new_Tile_def)
  qed
  then have cg: "cleanGhostTiles ?bs ?g = ?g" by (rule cleanGhostTiles_id)
  have c: "GRID_SIZE div 2 - 1 = 15" "cost (BUILDINGS Forum) = 0"
    by (simp_all add: GRID_SIZE_def)
  have st: "start new_Game = rebuildRoadNetwork
      (new_Game\<lparr>forumPos := (15, 15), buildingSystem := ?bs, grid := ?g,
                 resources := (resources new_Game)\<lparr>gold := STARTING_GOLD\<rparr>,
                 invasionSystem := new_InvasionSystem (15, 15)\<rparr>)"
    unfolding start_def c Let_def by (simp add: new_Game_def forum_placed)
  show "grid (start new_Game) = ?g" unfolding st by (simp add: cg)
  show "\<not> roadsDirty (start new_Game)" unfolding st by simp
  show "\<not> gameOver (start new_Game)" unfolding st by (simp add: new_Game_def)
  show "forumPos (start new_Game) = (15, 15)" unfolding st by simp
  show "buildingSystem (start new_Game) = ?bs" unfolding st by simp
  show "resources (start new_Game) = \<lparr>gold = 500, food = 0, population = 0, maxPopulation = 0\<rparr>"
    unfolding st by (simp add: new_Game_def STARTING_GOLD_def)
  show "walkers (start new_Game) = []" unfolding st by (simp add: new_Game_def)
qed

lemma start_grid:
  "wf_grid (grid (start new_Game))" "forumIntact (grid (start new_Game))"
  "getTile (grid (start new_Game)) 15 15 = Some (markTile Forum (new_Tile 15 15))"
proof -
  have wf: "wf_grid (new_Grid GRID_SIZE)" by (simp add: wf_grid_new_Grid GRID_SIZE_def)
  show "wf_grid (grid (start new_Game))"
    unfolding start_fields using wf by (rule wf_grid_fold_modTile)
  have "stage forumSafe (new_Grid GRID_SIZE) (grid (start new_Game))"
    unfolding start_fields by (rule stage_fold) (simp add: stage_modTile forumSafe_basic)
  moreover have "forumIntact (new_Grid GRID_SIZE)"
    unfolding forumIntact_def
  proof (intro allI impI)
    fix px pz t
    assume a: "getTile (new_Grid GRID_SIZE) px pz = Some t \<and> building t = Some Forum"
    then have "isInBounds (new_Grid GRID_SIZE) px pz" using getTile_Some_iff by blast
    with a have "t = new_Tile px pz" by (simp add: getTile_new_Grid)
    with a show "0 < buildingHp t" by (simp add: new_Tile_def)
  qed
  ultimately show "forumIntact (grid (start new_Game))" using stage_forumIntact wf by blast
  have "(15, 15) \<in> set (footprint 15 15 2)" by (simp add: set_footprint)
  moreover have "isInBounds (new_Grid GRID_SIZE) 15 15"
    by (simp add: isInBounds_def new_Grid_def GRID_SIZE_def)
  ultimately show "getTile (grid (start new_Game)) 15 15 = Some (markTile Forum (new_Tile 15 15))"
    unfolding start_fields
    using getTile_fold_modTile_in[OF wf, of 15 15 "footprint 15 15 2" "markTile Forum"]
    by (simp add: markTile_idem getTile_new_Grid)
qed

lemma siege_fields:
  "\<not> gameOver siegeGame" "\<not> roadsDirty siegeGame"
  "invasionSystem siegeGame = (new_InvasionSystem (15, 15))\<lparr>invaders := [attacker], waveNumber := 1,
                             ticksUntilNextWave := 10\<rparr>"
  "resources siegeGame = \<lparr>gold = 500, food = 0, population = 0, maxPopulation = 0\<rparr>"
  "wf_grid (grid siegeGame)"
  "getTile (grid siegeGame) 15 15 = Some (damageTile 98 (markTile Forum (new_Tile 15 15)))"
  by (simp_all add: siegeGame_def start_fields(2-) start_grid wf_grid_modTile getTile_modTile)

lemma siege_forumIntact: "forumIntact (grid siegeGame)"
  unfolding forumIntact_def
proof (intro allI impI)
  fix px pz t
  assume a: "getTile (grid siegeGame) px pz = Some t \<and> building t = Some Forum"
  show "0 < buildingHp t"
  proof (cases "(px, pz) = (15, 15)")
    case True
    with a show ?thesis
      using siege_fields(6) by (auto simp: damageTile_def markTile_def)
  next
    case False
    then have "getTile (grid siegeGame) px pz = getTile (grid (start new_Game)) px pz"
      unfolding siegeGame_def using getTile_modTile[OF start_grid(1), of "damageTile 98" "(15, 15)" px pz]
      by auto
    with a start_grid(2) show ?thesis by (auto simp: forumIntact_def)
  qed
qed

text \<open>
  An invader that stands on a forum tile and is due to strike, with the tile's hit points
  no more than its damage, makes the invasion tick raise the signal.
\<close>

lemma strike_on_forum:
  assumes wf: "wf_grid g" and iv: "invaders sys = [iv]" "inv_state iv = Attacking" "attackCooldown iv \<le> 1"
    and tk: "1 < ticksUntilNextWave sys"
    and t: "getTile g (inv_x iv) (inv_z iv) = Some t" "building t = Some Forum" "buildingHp t \<le> damage iv"
  shows "\<exists>r sys'. invasionTick sys g rng
            = Some (Some r, sys', modTile (damageTile (damage iv)) (inv_x iv, inv_z iv) g, rng)
          \<and> forumDestroyed r"
proof -
  let ?sys1 = "sys\<lparr>ticksUntilNextWave := ticksUntilNextWave sys - 1,
                   warningActive := (ticksUntilNextWave sys - 1 \<le> 5 \<and> ticksUntilNextWave sys - 1 > 0)\<rparr>"
  have w: "waveStep sys g rng = Some (?sys1, rng)"
    using tk by (simp add: waveStep_def Let_def)
  let ?iv2 = "iv\<lparr>attackCooldown := ATTACK_COOLDOWN\<rparr>"
  let ?g' = "modTile (damageTile (damage iv)) (inv_x iv, inv_z iv) g"
  have ab: "attackBuilding ?iv2 g = (Some ForumDestroyed, ?g')"
    using t by (simp add: attackBuilding_def Let_def)
  have p: "processInvader (inv_forumPos ?sys1) iv g None
             = Some (?iv2, ?g', Some (emptyResult\<lparr>forumDestroyed := True\<rparr>))"
    using iv(2,3) ab by (simp add: processInvader_def Let_def orEmpty_def)
  have ps: "processInvaders (inv_forumPos ?sys1) (invaders ?sys1) g None
             = Some ([?iv2], ?g', Some (emptyResult\<lparr>forumDestroyed := True\<rparr>))"
    using p iv(1) by simp
  show ?thesis
    unfolding invasionTick_def using w ps by (simp add: Let_def)
qed


lemma siege_strike:
  assumes p: "productionStep siegeGame rng = (s3, acc, rng1)"
  shows "\<exists>r sys'. invasionTick (invasionSystem s3) (grid s3) rng1
            = Some (Some r, sys', modTile (damageTile 2) (15, 15) (grid s3), rng1)
          \<and> forumDestroyed r"
    and "\<not> forumIntact (modTile (damageTile 2) (15, 15) (grid s3))"
proof -
  note f = productionStep_fields[OF p]
  note st = stage_productionStep(2)[OF p siege_fields(2)]
  have wf3: "wf_grid (grid s3)" using stage_wf[OF st siege_fields(5)] by simp
  from stage_core[OF st siege_fields(5), of 15 15] siege_fields(6)
  obtain t where t: "getTile (grid s3) 15 15 = Some t" "building t = Some Forum" "buildingHp t = 2"
    by (cases "getTile (grid s3) 15 15") (auto simp: damageTile_def markTile_def)
  have at: "inv_x attacker = 15" "inv_z attacker = 15" "damage attacker = 2"
    "inv_state attacker = Attacking" "attackCooldown attacker = 1"
    by (simp_all add: attacker_def newInvader_def Let_def BARBARIAN_BASE_DAMAGE_def)
  have sys: "invaders (invasionSystem s3) = [attacker]" "1 < ticksUntilNextWave (invasionSystem s3)"
    unfolding f siege_fields(3) by simp_all
  show "\<exists>r sys'. invasionTick (invasionSystem s3) (grid s3) rng1
            = Some (Some r, sys', modTile (damageTile 2) (15, 15) (grid s3), rng1)
          \<and> forumDestroyed r"
    using strike_on_forum[OF wf3 sys(1) at(4) _ sys(2), of t rng1] t at by simp
  have "getTile (modTile (damageTile 2) (15, 15) (grid s3)) 15 15 = Some (damageTile 2 t)"
    using getTile_modTile[OF wf3, of "damageTile 2" "(15, 15)" 15 15] t(1) by simp
  moreover have "building (damageTile 2 t) = Some Forum" "buildingHp (damageTile 2 t) = 0"
    using t by (simp_all add: damageTile_def)
  ultimately show "\<not> forumIntact (modTile (damageTile 2) (15, 15) (grid s3))"
    unfolding forumIntact_def by fastforce
qed

theorem capital_destroyed_witness:
  "wf_grid (grid siegeGame) \<and> forumIntact (grid siegeGame) \<and> \<not> gameOver siegeGame
   \<and> (\<exists>s' rng'. simulationTick siegeGame noDraws = Some (s', rng')
          \<and> \<not> forumIntact (grid s') \<and> gameOver s'
          \<and> simulationTick s' rng' = Some (s', rng')
          \<and> (\<exists>s'' rng''. runTicks 3 s' rng' = Some (s'', rng'') \<and> resources s'' = resources s' \<and> gameOver s''))"
proof -
  obtain s3 acc rng1 where p: "productionStep siegeGame noDraws = (s3, acc, rng1)"
    by (cases "productionStep siegeGame noDraws") auto
  from siege_strike(1)[OF p] obtain r sys' where
    i: "invasionTick (invasionSystem s3) (grid s3) rng1
          = Some (Some r, sys', modTile (damageTile 2) (15, 15) (grid s3), rng1)"
    and fd: "forumDestroyed r" by blast
  define s' where "s' = handleGameOver (s3\<lparr>invasionSystem := sys', grid := modTile (damageTile 2) (15, 15) (grid s3)\<rparr>)"
  have nfi: "\<not> forumIntact (grid s')"
    using siege_strike(2)[OF p] by (simp add: s'_def handleGameOver_def)
  note th = capital_destroyed
  have t: "simulationTick siegeGame noDraws = Some (s', rng1)"
    unfolding s'_def
    using th[THEN conjunct2, THEN conjunct1, rule_format,
        of siegeGame noDraws s3 acc rng1 r sys' "modTile (damageTile 2) (15, 15) (grid s3)" rng1]
      siege_fields(1) p i fd by simp
  have go: "gameOver s'"
    using th[THEN conjunct2, THEN conjunct2, THEN conjunct1, rule_format, of siegeGame noDraws s' rng1]
      siege_fields(1,5) siege_forumIntact t nfi by simp
  have stay: "simulationTick s' rng1 = Some (s', rng1)"
    using th[THEN conjunct2, THEN conjunct2, THEN conjunct2, THEN conjunct1, rule_format, of s' rng1] go
    by simp
  have r3: "runTicks 3 s' rng1 = Some (s', rng1)"
    using stay by (simp add: numeral_3_eq_3)
  have "resources s' = resources s' \<and> gameOver s'"
    using th[THEN conjunct2, THEN conjunct2, THEN conjunct2, THEN conjunct2, THEN conjunct1, rule_format,
        of s' 3 rng1 s' rng1] go r3 by simp
  then show ?thesis
    using siege_fields(1,5) siege_forumIntact t nfi go stay r3 by blast
qed

lemma buildingAt_new_Grid: "buildingAt (new_Grid n) px pz = None"
proof (cases "isInBounds (new_Grid n) px pz")
  case True
  then show ?thesis by (simp add: buildingAt_def getTile_new_Grid new_Tile_def)
next
  case False
  then show ?thesis by (simp add: buildingAt_def getTile_def)
qed

lemma buildingAt_marked:
  assumes "wf_grid g"
  shows "buildingAt (fold (modTile (markTile ty)) cs g) px pz =
     (if (px, pz) \<in> set cs \<and> isInBounds g px pz then Some ty else buildingAt g px pz)"
proof (cases "(px, pz) \<in> set cs")
  case False
  then show ?thesis by (simp add: buildingAt_def getTile_fold_modTile_other[OF assms])
next
  case True
  have "getTile (fold (modTile (markTile ty)) cs g) px pz = map_option (markTile ty) (getTile g px pz)"
    using getTile_fold_modTile_in[OF assms True, of "markTile ty"] by (simp add: markTile_idem)
  then show ?thesis
    using True by (cases "isInBounds g px pz") (auto simp: buildingAt_def getTile_def markTile_def)
qed

lemma canPlace_buildingAt:
  "canPlace g type px pz \<longleftrightarrow>
     (\<forall>dx dz. 0 \<le> dx \<and> dx < bsize (BUILDINGS type) \<and> 0 \<le> dz \<and> dz < bsize (BUILDINGS type) \<longrightarrow>
        isInBounds g (px + dx) (pz + dz) \<and> buildingAt g (px + dx) (pz + dz) = None)"
  unfolding canPlace_iff buildingAt_def
  by (auto simp: getTile_def split: option.splits)

lemma in_allCells: "(px, pz) \<in> set allCells \<longleftrightarrow> 0 \<le> px \<and> px < 32 \<and> 0 \<le> pz \<and> pz < 32"
  by (auto simp: allCells_def set_footprint GRID_SIZE_def)

lemma distinct_footprint: "distinct (footprint px pz n)"
proof -
  have d: "distinct (offsets n)" by (simp add: offsets_def distinct_map)
  have "footprint px pz n
      = map (\<lambda>c. (px + fst c, pz + snd c)) (List.product (offsets n) (offsets n))"
    by (simp add: footprint_def product_concat_map map_concat comp_def)
  moreover have "inj_on (\<lambda>c :: int \<times> int. (px + fst c, pz + snd c)) A" for A
    by (auto simp: inj_on_def)
  ultimately show ?thesis
    using d by (simp add: distinct_map distinct_product)
qed

lemma distinct_allCells: "distinct allCells"
  by (simp add: allCells_def distinct_footprint)

lemma scanCell_getTile:
  assumes "wf_grid g"
  shows "getTile (fst (scanCell reach c (g, acc))) px pz =
     (if c = (px, pz) then map_option ageTile (getTile g px pz) else getTile g px pz)"
proof (cases "getTile g (fst c) (snd c)")
  case None
  then show ?thesis by (auto simp: scanCell_def)
next
  case (Some tile)
  then show ?thesis by (simp add: scanCell_def Let_def getTile_modTile[OF assms])
qed

lemma wf_grid_scanCell: "wf_grid g \<Longrightarrow> wf_grid (fst (scanCell reach c (g, acc)))"
  by (auto simp: scanCell_def Let_def wf_grid_modTile split: option.splits)

lemma scan_getTile:
  assumes "wf_grid g" "distinct cs"
  shows "getTile (fst (fold (scanCell reach) cs (g, acc))) px pz =
     (if (px, pz) \<in> set cs then map_option ageTile (getTile g px pz) else getTile g px pz)"
  using assms
proof (induction cs arbitrary: g acc)
  case Nil
  show ?case by simp
next
  case (Cons c cs)
  obtain g1 acc1 where r: "scanCell reach c (g, acc) = (g1, acc1)" by (cases "scanCell reach c (g, acc)")
  have wf1: "wf_grid g1" using wf_grid_scanCell[OF Cons.prems(1), of reach c acc] r by simp
  have g1: "getTile g1 px pz = (if c = (px, pz) then map_option ageTile (getTile g px pz) else getTile g px pz)"
    using scanCell_getTile[OF Cons.prems(1), of reach c acc px pz] r by simp
  have d: "distinct cs" "c \<notin> set cs" using Cons.prems(2) by simp_all
  show ?case
    using Cons.IH[OF wf1 d(1), of acc1] g1 d(2) r by auto
qed

lemma scanGrid_getTile:
  assumes "wf_grid g"
  shows "getTile (fst (scanGrid reach g)) px pz =
     (if (px, pz) \<in> set allCells then map_option ageTile (getTile g px pz) else getTile g px pz)"
  unfolding scanGrid_def by (rule scan_getTile[OF assms distinct_allCells])

lemma collectCell_food: "foodProduction acc \<le> foodProduction (collectCell g reach c b acc)"
  by (simp add: collectCell_def Let_def FARM_FOOD_RATE_def)

lemma scan_food: "foodProduction acc \<le> foodProduction (snd (fold (scanCell reach) cs (g, acc)))"
proof (induction cs arbitrary: g acc)
  case Nil
  show ?case by simp
next
  case (Cons c cs)
  obtain g1 acc1 where r: "scanCell reach c (g, acc) = (g1, acc1)" by (cases "scanCell reach c (g, acc)")
  have "foodProduction acc \<le> foodProduction acc1"
  proof (cases "getTile g (fst c) (snd c)")
    case None
    then show ?thesis using r by (simp add: scanCell_def)
  next
    case (Some tile)
    then have "acc1 = collectCell (modTile ageTile c g) reach c (building tile) acc"
      using r by (auto simp: scanCell_def Let_def)
    then show ?thesis by (simp only: collectCell_food)
  qed
  then show ?case using Cons.IH[of acc1 g1] r by simp
qed

lemma scanGrid_food: "0 \<le> foodProduction (snd (scanGrid reach g))"
  using scan_food[of emptyScan reach allCells g] by (simp add: scanGrid_def emptyScan_def)

lemma housing_fold:
  fixes m :: int
  shows "m \<le> fold (\<lambda>c maxPop.
             case getTile g (fst c) (snd c) of
               None \<Rightarrow> maxPop
             | Some tile \<Rightarrow>
                 if building tile = Some House \<and> hasWater tile \<and> hasFood tile
                 then maxPop + MAX_POP_PER_HOUSE else maxPop) cs m"
    and "c \<in> set cs \<Longrightarrow> getTile g (fst c) (snd c) = Some t
           \<Longrightarrow> building t = Some House \<and> hasWater t \<and> hasFood t
           \<Longrightarrow> m + MAX_POP_PER_HOUSE \<le> fold (\<lambda>c maxPop.
             case getTile g (fst c) (snd c) of
               None \<Rightarrow> maxPop
             | Some tile \<Rightarrow>
                 if building tile = Some House \<and> hasWater tile \<and> hasFood tile
                 then maxPop + MAX_POP_PER_HOUSE else maxPop) cs m"
proof -
  let ?f = "\<lambda>c maxPop.
             case getTile g (fst c) (snd c) of
               None \<Rightarrow> maxPop
             | Some tile \<Rightarrow>
                 if building tile = Some House \<and> hasWater tile \<and> hasFood tile
                 then maxPop + MAX_POP_PER_HOUSE else maxPop"
  have step: "m \<le> ?f c m" for c and m :: int
    by (auto simp: MAX_POP_PER_HOUSE_def split: option.splits)
  have mono: "m \<le> fold ?f cs m" for cs and m :: int
  proof (induction cs arbitrary: m)
    case Nil
    show ?case by simp
  next
    case (Cons a cs)
    have "m \<le> ?f a m" by (rule step)
    also have "\<dots> \<le> fold ?f cs (?f a m)" by (rule Cons.IH)
    finally show ?case by simp
  qed
  show "m \<le> fold ?f cs m" by (rule mono)
  show "m + MAX_POP_PER_HOUSE \<le> fold ?f cs m"
    if "c \<in> set cs" "getTile g (fst c) (snd c) = Some t"
      "building t = Some House \<and> hasWater t \<and> hasFood t"
    using that(1)
  proof (induction cs arbitrary: m)
    case Nil
    then show ?case by simp
  next
    case (Cons a cs)
    show ?case
    proof (cases "a = c")
      case True
      have "?f a m = m + MAX_POP_PER_HOUSE" using True that(2,3) by simp
      then show ?thesis using mono[of "?f a m" cs] by simp
    next
      case False
      then have "c \<in> set cs" using Cons.prems by simp
      from Cons.IH[OF this, of "?f a m"] step[of m a] show ?thesis by simp
    qed
  qed
qed

lemma housingCapacity_ge:
  assumes "(px, pz) \<in> set allCells" "getTile g px pz = Some t"
    "building t = Some House" "hasWater t" "hasFood t"
  shows "MAX_POP_PER_HOUSE \<le> housingCapacity g"
  using housing_fold(2)[of "(px, pz)" allCells g t 0] assms by (simp add: housingCapacity_def)

text \<open>A tick with no invader in play and no wave due runs the economy step.\<close>

lemma calm_tick_result:
  assumes "\<not> gameOver s" "invaders (invasionSystem s) = []" "1 < ticksUntilNextWave (invasionSystem s)"
    and p: "productionStep s rng = (s3, acc, rng1)"
  shows "\<exists>sys. simulationTick s rng = Some (economyStep (s3\<lparr>invasionSystem := sys\<rparr>) (towers acc) None, rng1)
           \<and> invaders sys = []"
proof -
  note f = productionStep_fields[OF p]
  let ?sys = "invasionSystem s"
  let ?sys1 = "?sys\<lparr>ticksUntilNextWave := ticksUntilNextWave ?sys - 1,
                   warningActive := (ticksUntilNextWave ?sys - 1 \<le> 5 \<and> ticksUntilNextWave ?sys - 1 > 0)\<rparr>"
  have w: "waveStep ?sys (grid s3) rng1 = Some (?sys1, rng1)"
    using assms(3) by (simp add: waveStep_def Let_def)
  have i: "invasionTick (invasionSystem s3) (grid s3) rng1
         = Some (None, ?sys1\<lparr>invaders := [], activeWave := False\<rparr>, grid s3, rng1)"
    unfolding invasionTick_def f using w assms(2) by (simp add: Let_def)
  from simulationTick_step[OF assms(1) p i] show ?thesis by auto
qed

lemma village_fields:
  "\<not> gameOver villageGame" "\<not> roadsDirty villageGame"
  "invasionSystem villageGame = new_InvasionSystem (15, 15)"
  "resources villageGame = \<lparr>gold = 470, food = 10, population = 0, maxPopulation = 0\<rparr>"
  "wf_grid (grid villageGame)"
  "\<exists>t. getTile (grid villageGame) 14 15 = Some t \<and> building t = Some House
        \<and> waterTimer t = 10 \<and> foodTimer t = 10"
proof -
  let ?g0 = "grid (start new_Game)"
  let ?g1 = "fold (modTile (markTile House)) (footprint 14 15 1) ?g0"
  have w0: "wf_grid (new_Grid GRID_SIZE)" by (simp add: wf_grid_new_Grid GRID_SIZE_def)
  have ib0: "isInBounds (new_Grid GRID_SIZE) 14 15"
    by (simp add: isInBounds_def new_Grid_def GRID_SIZE_def)
  have ib: "isInBounds ?g0 14 15"
    unfolding start_fields(1) isInBounds_fold_modTile by (rule ib0)
  have b0: "buildingAt ?g0 14 15 = None"
    unfolding start_fields(1) buildingAt_marked[OF w0] by (simp add: set_footprint buildingAt_new_Grid)
  have cp: "canPlace ?g0 House 14 15"
    unfolding canPlace_buildingAt
  proof (intro allI impI)
    fix dx dz :: int
    assume "0 \<le> dx \<and> dx < bsize (BUILDINGS House) \<and> 0 \<le> dz \<and> dz < bsize (BUILDINGS House)"
    then have "dx = 0" "dz = 0" by simp_all
    then show "isInBounds ?g0 (14 + dx) (15 + dz) \<and> buildingAt ?g0 (14 + dx) (15 + dz) = None"
      using ib b0 by simp
  qed
  have p: "place (buildingSystem (start new_Game)) ?g0 House 14 15 500
         = (True, buildingSystem (start new_Game) @ [\<lparr>pb_type = House, pb_x = 14, pb_z = 15\<rparr>], ?g1, 470)"
    using cp by (simp add: place_def Let_def)
  have v: "villageGame = (start new_Game)\<lparr>buildingSystem := buildingSystem (start new_Game) @ [\<lparr>pb_type = House, pb_x = 14, pb_z = 15\<rparr>],
             grid := modTile (serviceTile Food) (14, 15) (modTile (serviceTile Water) (14, 15) ?g1),
             resources := (resources (start new_Game))\<lparr>gold := 470, food := 10\<rparr>\<rparr>"
    unfolding villageGame_def Let_def start_fields(6) using p by (simp add: start_fields(6))
  have w1: "wf_grid ?g1" using start_grid(1) by (rule wf_grid_fold_modTile)
  have w2: "wf_grid (modTile (serviceTile Water) (14, 15) ?g1)" using w1 by (rule wf_grid_modTile)
  show "\<not> gameOver villageGame" "\<not> roadsDirty villageGame" unfolding v using start_fields(2,3) by simp_all
  show "invasionSystem villageGame = new_InvasionSystem (15, 15)"
    unfolding v by (simp add: start_def Let_def new_Game_def GRID_SIZE_def split: prod.splits)
  show "resources villageGame = \<lparr>gold = 470, food = 10, population = 0, maxPopulation = 0\<rparr>"
    unfolding v by (simp add: start_fields(6))
  show "wf_grid (grid villageGame)" unfolding v using w2 by (simp add: wf_grid_modTile)
  obtain t0 where t0: "getTile ?g0 14 15 = Some t0" using ib getTile_Some_iff by blast
  have t1: "getTile ?g1 14 15 = Some (markTile House t0)"
    using getTile_fold_modTile_in[OF start_grid(1), of 14 15 "footprint 14 15 1" "markTile House"] t0
    by (simp add: set_footprint markTile_idem)
  have "getTile (grid villageGame) 14 15
          = Some (serviceTile Food (serviceTile Water (markTile House t0)))"
    unfolding v using getTile_modTile[OF w2, of "serviceTile Food" "(14, 15)" 14 15]
      getTile_modTile[OF w1, of "serviceTile Water" "(14, 15)" 14 15] t1 by simp
  then show "\<exists>t. getTile (grid villageGame) 14 15 = Some t \<and> building t = Some House
        \<and> waterTimer t = 10 \<and> foodTimer t = 10"
    by (simp add: serviceTile_def markTile_def SERVICE_DURATION_def)
qed

text \<open>One tick of the village: the serviced house gives room and the population grows by 3.\<close>

lemma village_tick:
  assumes "simulationTick villageGame rng = Some (s', rng')"
  shows "\<not> gameOver s'" "population (resources s') = 3" "10 \<le> maxPopulation (resources s')"
proof -
  obtain s3 acc rng1 where p: "productionStep villageGame rng = (s3, acc, rng1)"
    by (cases "productionStep villageGame rng") auto
  have calm: "invaders (invasionSystem villageGame) = []" "1 < ticksUntilNextWave (invasionSystem villageGame)"
    by (simp_all add: village_fields(3) new_InvasionSystem_def FIRST_WAVE_DELAY_def)
  from calm_tick_result[OF village_fields(1) calm p] assms obtain sys where
    s': "s' = economyStep (s3\<lparr>invasionSystem := sys\<rparr>) (towers acc) None" by auto
  note g3 = productionStep_grid[OF p]
  have g3': "grid s3 = fst (scanGrid (reachableRoads villageGame) (grid villageGame))"
    using g3 village_fields(2) by simp
  obtain t where t: "getTile (grid villageGame) 14 15 = Some t" "building t = Some House"
      "waterTimer t = 10" "foodTimer t = 10" using village_fields(6) by blast
  have a: "getTile (grid s3) 14 15 = Some (ageTile t)"
    unfolding g3' scanGrid_getTile[OF village_fields(5)] using t(1) by (simp add: in_allCells)
  have h: "building (ageTile t) = Some House" "hasWater (ageTile t)" "hasFood (ageTile t)"
    using t by (simp_all add: ageTile_def Let_def)
  have cap: "10 \<le> housingCapacity (grid s3)"
    using housingCapacity_ge[OF _ a h, unfolded in_allCells] by (simp add: MAX_POP_PER_HOUSE_def)
  have acc: "acc = snd (scanGrid (reachableRoads villageGame) (grid villageGame))"
    using p village_fields(2) by (auto simp: productionStep_def Let_def split: prod.splits)
  have r3: "population (resources s3) = 0" "0 < food (resources s3)"
  proof -
    show "population (resources s3) = 0"
      using productionStep_fields(1)[OF p] by (simp add: village_fields(4))
    have "food (resources s3) = food (resources villageGame) + of_int (foodProduction acc)
            - of_int (population (resources villageGame)) * FOOD_PER_POP"
      using p village_fields(2) by (auto simp: productionStep_def Let_def split: prod.splits)
    moreover have "0 \<le> foodProduction acc" unfolding acc by (rule scanGrid_food)
    ultimately show "0 < food (resources s3)" by (simp add: village_fields(4))
  qed
  have res: "resources s' = taxed (adjustPopulation (housingCapacity (grid s3)) (resources s3))"
    unfolding s' economyStep_resources by simp
  show "\<not> gameOver s'"
    unfolding s' economyStep_resources using productionStep_fields(4)[OF p] village_fields(1) by simp
  show "population (resources s') = 3"
    unfolding res using r3 cap by (simp add: adjustPopulation_def Let_def GROWTH_RATE_def)
  show "10 \<le> maxPopulation (resources s')"
    unfolding res using r3 cap by (simp add: adjustPopulation_def Let_def GROWTH_RATE_def)
qed

theorem population_bounds_witness:
  "0 \<le> population (resources villageGame)
   \<and> (\<exists>s' rng'. simulationTick villageGame noDraws = Some (s', rng')
          \<and> \<not> gameOver s'
          \<and> population (resources villageGame) = 0
          \<and> population (resources s') = 3
          \<and> \<bar>population (resources s') - population (resources villageGame)\<bar> \<le> 3
          \<and> population (resources s') \<le> maxPopulation (resources s'))
   \<and> (\<exists>s' rng'. runTicks 5 villageGame noDraws = Some (s', rng') \<and> 0 \<le> population (resources s'))
   \<and> population (resources (restart villageGame)) = 0"
proof -
  have p: "0 \<le> population (resources villageGame)" by (simp add: village_fields(4))
  note th = population_bounds[OF p, of noDraws]
  from th obtain s' rng' where
    t: "simulationTick villageGame noDraws = Some (s', rng')"
    and b: "\<bar>population (resources s') - population (resources villageGame)\<bar> \<le> 3"
      "population (resources villageGame) < population (resources s') \<longrightarrow>
         population (resources s') \<le> maxPopulation (resources s')"
    by blast
  note v = village_tick[OF t]
  have "population (resources villageGame) = 0" by (simp add: village_fields(4))
  with t b v have "\<exists>s' rng'. simulationTick villageGame noDraws = Some (s', rng')
          \<and> \<not> gameOver s'
          \<and> population (resources villageGame) = 0
          \<and> population (resources s') = 3
          \<and> \<bar>population (resources s') - population (resources villageGame)\<bar> \<le> 3
          \<and> population (resources s') \<le> maxPopulation (resources s')"
    by auto
  with th p show ?thesis by blast
qed

section \<open>Spawning\<close>

lemma floodFill_sub:
  "(\<forall>c\<in>vis. isRoadOrForum g c) \<Longrightarrow> \<forall>c\<in>floodFillLoop g q vis. isRoadOrForum g c"
proof (induction g q vis rule: floodFillLoop.induct)
  case (1 g visited)
  then show ?case by simp
next
  case (2 g c queue visited)
  show ?case
  proof (cases "c \<in> visited")
    case True
    then show ?thesis using "2.IH"(1) "2.prems" by simp
  next
    case nv: False
    show ?thesis
    proof (cases "isInBounds g (fst c) (snd c)")
      case False
      then show ?thesis using "2.IH"(2)[OF nv] "2.prems" nv by simp
    next
      case ib: True
      show ?thesis
      proof (cases "isRoadOrForum g c")
        case False
        then show ?thesis using "2.IH"(3)[OF nv] "2.prems" nv ib by simp
      next
        case True
        have "\<forall>c\<in>insert c visited. isRoadOrForum g c" using True "2.prems" by simp
        then show ?thesis using "2.IH"(4)[OF nv] nv ib True by simp
      qed
    qed
  qed
qed

lemma floodFill_mono: "vis \<subseteq> floodFillLoop g q vis"
proof (induction g q vis rule: floodFillLoop.induct)
  case (1 g visited)
  then show ?case by simp
next
  case (2 g c queue visited)
  show ?case
  proof (cases "c \<in> visited")
    case True
    then show ?thesis using "2.IH"(1) by simp
  next
    case nv: False
    show ?thesis
    proof (cases "isInBounds g (fst c) (snd c)")
      case False
      then show ?thesis using "2.IH"(2)[OF nv] nv by simp
    next
      case ib: True
      show ?thesis
      proof (cases "isRoadOrForum g c")
        case False
        then show ?thesis using "2.IH"(3)[OF nv] nv ib by simp
      next
        case True
        then show ?thesis using "2.IH"(4)[OF nv] nv ib by auto
      qed
    qed
  qed
qed

lemma floodFill_start:
  assumes "isInBounds g px pz" "isRoadOrForum g (px, pz)"
  shows "(px, pz) \<in> floodFillRoads g px pz"
  using assms floodFill_mono[of "{(px, pz)}" g "neighborsOf px pz"]
  by (simp add: floodFillRoads_def)

lemma rebuild_reach:
  "\<forall>c\<in>reachableRoads (rebuildRoadNetwork s). isRoadOrForum (grid (rebuildRoadNetwork s)) c"
proof -
  let ?g = "cleanGhostTiles (buildingSystem s) (grid s)"
  have f: "\<forall>c\<in>fold (\<lambda>c acc. acc \<union> floodFillRoads ?g (fst c) (snd c)) cs A. isRoadOrForum ?g c"
    if "\<forall>c\<in>A. isRoadOrForum ?g c" for cs A
    using that
  proof (induction cs arbitrary: A)
    case Nil
    then show ?case by simp
  next
    case (Cons a cs)
    have "\<forall>c\<in>floodFillRoads ?g (fst a) (snd a). isRoadOrForum ?g c"
      unfolding floodFillRoads_def by (rule floodFill_sub) simp
    with Cons.prems have "\<forall>c\<in>A \<union> floodFillRoads ?g (fst a) (snd a). isRoadOrForum ?g c" by auto
    from Cons.IH[OF this] show ?case by simp
  qed
  show ?thesis
    using f[of "{}" "footprint (fst (forumPos s)) (snd (forumPos s)) (bsize (BUILDINGS Forum))"]
    by (simp add: rebuildRoadNetwork_def Let_def)
qed

lemma adjacent_fold:
  assumes "fold (adjacentStep g px pz n) xs (res, seen) = (res', seen')"
    and "\<forall>nb\<in>seen. \<not> (fst nb \<ge> px \<and> fst nb < px + n \<and> snd nb \<ge> pz \<and> snd nb < pz + n)
            \<and> isRoadOrForum g nb \<longrightarrow> nb \<in> set res"
  shows "\<forall>nb\<in>seen \<union> set xs. \<not> (fst nb \<ge> px \<and> fst nb < px + n \<and> snd nb \<ge> pz \<and> snd nb < pz + n)
            \<and> isRoadOrForum g nb \<longrightarrow> nb \<in> set res'"
  using assms
proof (induction xs arbitrary: res seen)
  case Nil
  then show ?case by simp
next
  case (Cons x xs)
  obtain r1 s1 where st: "adjacentStep g px pz n x (res, seen) = (r1, s1)"
    by (cases "adjacentStep g px pz n x (res, seen)")
  have s1: "s1 = insert x seen" using st by (auto simp: adjacentStep_def split: if_splits)
  have inv: "\<forall>nb\<in>s1. \<not> (fst nb \<ge> px \<and> fst nb < px + n \<and> snd nb \<ge> pz \<and> snd nb < pz + n)
            \<and> isRoadOrForum g nb \<longrightarrow> nb \<in> set r1"
    using st Cons.prems(2) by (auto simp: adjacentStep_def split: if_splits)
  from Cons.prems(1) st have f: "fold (adjacentStep g px pz n) xs (r1, s1) = (res', seen')" by simp
  from Cons.IH[OF f inv] show ?case unfolding s1 by simp
qed

lemma adjacent_road:
  assumes "nb \<in> set (neighborsOf px pz)" "isRoadOrForum g nb"
  shows "getAdjacentRoadTiles g px pz 1 \<noteq> []"
proof -
  let ?xs = "concat (map (\<lambda>c. neighborsOf (fst c) (snd c)) (footprint px pz 1))"
  obtain res' seen' where f: "fold (adjacentStep g px pz 1) ?xs ([], {}) = (res', seen')"
    by (cases "fold (adjacentStep g px pz 1) ?xs ([], {})")
  have xs: "?xs = neighborsOf px pz" by (simp add: footprint_def offsets_def)
  have out: "\<not> (fst nb \<ge> px \<and> fst nb < px + 1 \<and> snd nb \<ge> pz \<and> snd nb < pz + 1)"
  proof -
    obtain a b where nb: "nb = (a, b)" by (cases nb)
    show ?thesis using assms(1) unfolding nb neighborsOf_set by auto
  qed
  from adjacent_fold[OF f] assms out have "nb \<in> set res'" unfolding xs by simp
  then show ?thesis using f by (auto simp: getAdjacentRoadTiles_def)
qed

text \<open>One spawn loop: the walkers it adds, for a loop that does not spawn soldiers.\<close>

lemma spawn_fold:
  assumes "ty \<noteq> Soldier"
  shows "\<exists>new rng'. fold (\<lambda>c a. if b then spawn ty (fst c) (snd c) g n a else a) cs (ws, rng) = (ws @ new, rng')
      \<and> (\<forall>w\<in>set new. w_type w = ty \<and> lifespan w = WALKER_LIFESPAN)
      \<and> map (\<lambda>w. (homeX w, homeZ w)) new
          = (if b then filter (\<lambda>c. getAdjacentRoadTiles g (fst c) (snd c) n \<noteq> []) cs else [])"
proof (induction cs arbitrary: ws rng)
  case Nil
  show ?case by simp
next
  case (Cons c cs)
  show ?case
  proof (cases "b \<and> getAdjacentRoadTiles g (fst c) (snd c) n \<noteq> []")
    case False
    then have "(if b then spawn ty (fst c) (snd c) g n (ws, rng) else (ws, rng)) = (ws, rng)"
      using assms by (auto simp: spawn_def Let_def)
    then show ?thesis using Cons.IH[of ws rng] False by auto
  next
    case True
    define w where "w = newWalker ty (pickRandom (fst (draw rng)) (getAdjacentRoadTiles g (fst c) (snd c) n)) (fst c) (snd c)"
    have s: "(if b then spawn ty (fst c) (snd c) g n (ws, rng) else (ws, rng)) = (ws @ [w], snd (draw rng))"
      using True by (simp add: spawn_def Let_def w_def split: prod.splits)
    have w: "w_type w = ty" "lifespan w = WALKER_LIFESPAN" "(homeX w, homeZ w) = c"
      by (simp_all add: w_def newWalker_def)
    from Cons.IH[of "ws @ [w]" "snd (draw rng)"] obtain new rng' where
      ih: "fold (\<lambda>c a. if b then spawn ty (fst c) (snd c) g n a else a) cs (ws @ [w], snd (draw rng))
             = ((ws @ [w]) @ new, rng')"
        "\<forall>w\<in>set new. w_type w = ty \<and> lifespan w = WALKER_LIFESPAN"
        "map (\<lambda>w. (homeX w, homeZ w)) new
          = (if b then filter (\<lambda>c. getAdjacentRoadTiles g (fst c) (snd c) n \<noteq> []) cs else [])"
      by blast
    have "fold (\<lambda>c a. if b then spawn ty (fst c) (snd c) g n a else a) (c # cs) (ws, rng)
            = (ws @ (w # new), rng')"
      using s ih(1) by simp
    moreover have "\<forall>v\<in>set (w # new). w_type v = ty \<and> lifespan v = WALKER_LIFESPAN"
      using w ih(2) by simp
    moreover have "map (\<lambda>w. (homeX w, homeZ w)) (w # new)
          = (if b then filter (\<lambda>c. getAdjacentRoadTiles g (fst c) (snd c) n \<noteq> []) (c # cs) else [])"
      using w(3) ih(3) True by simp
    ultimately show ?thesis by blast
  qed
qed

text \<open>The barracks loop adds soldiers only.\<close>

lemma spawn_fold_soldier:
  "\<exists>new rng'. fold (\<lambda>c a. if b then spawn Soldier (fst c) (snd c) g n a else a) cs (ws, rng) = (ws @ new, rng')
      \<and> (\<forall>w\<in>set new. w_type w = Soldier \<and> lifespan w = WALKER_LIFESPAN)"
proof (induction cs arbitrary: ws rng)
  case Nil
  show ?case by simp
next
  case (Cons c cs)
  obtain ws1 rng1 where s: "(if b then spawn Soldier (fst c) (snd c) g n (ws, rng) else (ws, rng)) = (ws1, rng1)"
    by (cases "if b then spawn Soldier (fst c) (snd c) g n (ws, rng) else (ws, rng)")
  have "\<exists>n1. ws1 = ws @ n1 \<and> (\<forall>w\<in>set n1. w_type w = Soldier \<and> lifespan w = WALKER_LIFESPAN)"
    using s by (auto simp: spawn_def Let_def newWalker_def split: prod.splits if_splits)
  then obtain n1 where n1: "ws1 = ws @ n1" "\<forall>w\<in>set n1. w_type w = Soldier \<and> lifespan w = WALKER_LIFESPAN"
    by blast
  from Cons.IH[of ws1 rng1] obtain new rng' where
    ih: "fold (\<lambda>c a. if b then spawn Soldier (fst c) (snd c) g n a else a) cs (ws1, rng1) = (ws1 @ new, rng')"
      "\<forall>w\<in>set new. w_type w = Soldier \<and> lifespan w = WALKER_LIFESPAN" by blast
  have "fold (\<lambda>c a. if b then spawn Soldier (fst c) (snd c) g n a else a) (c # cs) (ws, rng)
          = (ws @ (n1 @ new), rng')" using s ih(1) n1(1) by simp
  moreover have "\<forall>w\<in>set (n1 @ new). w_type w = Soldier \<and> lifespan w = WALKER_LIFESPAN"
    using n1(2) ih(2) by auto
  ultimately show ?case by blast
qed

lemma homesOf_same:
  "\<forall>w\<in>set new. w_type w = ty \<Longrightarrow> homesOf ty new = map (\<lambda>w. (homeX w, homeZ w)) new"
  by (simp add: homesOf_def filter_id_conv)

lemma homesOf_other:
  "\<forall>w\<in>set new. w_type w = ty' \<Longrightarrow> ty \<noteq> ty' \<Longrightarrow> homesOf ty new = []"
  by (auto simp: homesOf_def filter_empty_conv)

lemma homesOf_append: "homesOf ty (xs @ ys) = homesOf ty xs @ homesOf ty ys"
  by (simp add: homesOf_def)

text \<open>The four loops together.\<close>

lemma spawnAll_new:
  "\<exists>new rng'. spawnAll tc fd g acc (ws, rng) = (ws @ new, rng')
      \<and> (\<forall>w\<in>set new. lifespan w = WALKER_LIFESPAN)
      \<and> homesOf Water new
          = (if tc mod WELL_SPAWN_INTERVAL = 0
             then filter (\<lambda>c. getAdjacentRoadTiles g (fst c) (snd c) 1 \<noteq> []) (wells acc) else [])
      \<and> homesOf Food new
          = (if tc mod MARKET_SPAWN_INTERVAL = 0 \<and> 0 < fd
             then filter (\<lambda>c. getAdjacentRoadTiles g (fst c) (snd c) 1 \<noteq> []) (markets acc) else [])"
proof -
  obtain n1 r1 where a: "spawnWells tc g (wells acc) (ws, rng) = (ws @ n1, r1)"
      "\<forall>w\<in>set n1. w_type w = Water \<and> lifespan w = WALKER_LIFESPAN"
      "map (\<lambda>w. (homeX w, homeZ w)) n1
          = (if tc mod WELL_SPAWN_INTERVAL = 0
             then filter (\<lambda>c. getAdjacentRoadTiles g (fst c) (snd c) 1 \<noteq> []) (wells acc) else [])"
    unfolding spawnWells_def
    using spawn_fold[of Water "tc mod WELL_SPAWN_INTERVAL = 0" g 1 "wells acc" ws rng] by auto
  obtain n2 r2 where b: "spawnMarkets tc fd g (markets acc) (ws @ n1, r1) = (ws @ n1 @ n2, r2)"
      "\<forall>w\<in>set n2. w_type w = Food \<and> lifespan w = WALKER_LIFESPAN"
      "map (\<lambda>w. (homeX w, homeZ w)) n2
          = (if tc mod MARKET_SPAWN_INTERVAL = 0 \<and> 0 < fd
             then filter (\<lambda>c. getAdjacentRoadTiles g (fst c) (snd c) 1 \<noteq> []) (markets acc) else [])"
    unfolding spawnMarkets_def
    using spawn_fold[of Food "tc mod MARKET_SPAWN_INTERVAL = 0 \<and> 0 < fd" g 1 "markets acc" "ws @ n1" r1]
    by auto
  obtain n3 r3 where c: "spawnBarracks tc g (barracks acc) (ws @ n1 @ n2, r2) = (ws @ n1 @ n2 @ n3, r3)"
      "\<forall>w\<in>set n3. w_type w = Soldier \<and> lifespan w = WALKER_LIFESPAN"
    unfolding spawnBarracks_def
    using spawn_fold_soldier[of "tc mod BARRACKS_SPAWN_INTERVAL = 0" g "bsize (BUILDINGS Barracks)"
        "barracks acc" "ws @ n1 @ n2" r2] by auto
  obtain n4 r4 where d: "spawnFarms tc g (farms acc) (ws @ n1 @ n2 @ n3, r3) = (ws @ n1 @ n2 @ n3 @ n4, r4)"
      "\<forall>w\<in>set n4. w_type w = Farmer \<and> lifespan w = WALKER_LIFESPAN"
    unfolding spawnFarms_def
    using spawn_fold[of Farmer "tc mod FARM_SPAWN_INTERVAL = 0" g "bsize (BUILDINGS Farm)" "farms acc"
        "ws @ n1 @ n2 @ n3" r3] by auto
  have e: "spawnAll tc fd g acc (ws, rng) = (ws @ (n1 @ n2 @ n3 @ n4), r4)"
    by (simp add: spawnAll_def Let_def a(1) b(1) c(1) d(1))
  have l: "\<forall>w\<in>set (n1 @ n2 @ n3 @ n4). lifespan w = WALKER_LIFESPAN"
    using a(2) b(2) c(2) d(2) by auto
  have hw: "homesOf Water (n1 @ n2 @ n3 @ n4) = map (\<lambda>w. (homeX w, homeZ w)) n1"
    using homesOf_same[of n1 Water] homesOf_other[of n2 Food Water] homesOf_other[of n3 Soldier Water]
      homesOf_other[of n4 Farmer Water] a(2) b(2) c(2) d(2)
    by (simp add: homesOf_append)
  have hf: "homesOf Food (n1 @ n2 @ n3 @ n4) = map (\<lambda>w. (homeX w, homeZ w)) n2"
    using homesOf_same[of n2 Food] homesOf_other[of n1 Water Food] homesOf_other[of n3 Soldier Food]
      homesOf_other[of n4 Farmer Food] a(2) b(2) c(2) d(2)
    by (simp add: homesOf_append)
  show ?thesis
  proof (intro exI conjI)
    show "spawnAll tc fd g acc (ws, rng) = (ws @ (n1 @ n2 @ n3 @ n4), r4)" by (rule e)
    show "\<forall>w\<in>set (n1 @ n2 @ n3 @ n4). lifespan w = WALKER_LIFESPAN" by (rule l)
    show "homesOf Water (n1 @ n2 @ n3 @ n4)
          = (if tc mod WELL_SPAWN_INTERVAL = 0
             then filter (\<lambda>c. getAdjacentRoadTiles g (fst c) (snd c) 1 \<noteq> []) (wells acc) else [])"
      unfolding hw by (rule a(3))
    show "homesOf Food (n1 @ n2 @ n3 @ n4)
          = (if tc mod MARKET_SPAWN_INTERVAL = 0 \<and> 0 < fd
             then filter (\<lambda>c. getAdjacentRoadTiles g (fst c) (snd c) 1 \<noteq> []) (markets acc) else [])"
      unfolding hf by (rule b(3))
  qed
qed

lemma walkerTick_append: "walkerTick (xs @ ys) = walkerTick xs @ walkerTick ys"
  by (simp add: walkerTick_def)

lemma walkerTick_new:
  assumes "\<forall>w\<in>set new. lifespan w = WALKER_LIFESPAN"
  shows "homesOf ty (walkerTick new) = homesOf ty new"
  using assms
  by (induction new) (auto simp: walkerTick_def homesOf_def WALKER_LIFESPAN_def)

lemma combat_keeps:
  "ty \<noteq> Soldier \<Longrightarrow>
     filter (\<lambda>w. w_type w = ty) (fst (combatUpdate ws invs)) = filter (\<lambda>w. w_type w = ty) ws"
proof (induction ws arbitrary: invs)
  case Nil
  show ?case by simp
next
  case (Cons w ws)
  define r where "r = fst (combatUpdate (w # ws) invs)"
  have "\<exists>pre invs'. r = pre @ fst (combatUpdate ws invs')
          \<and> filter (\<lambda>w. w_type w = ty) pre = filter (\<lambda>w. w_type w = ty) [w]"
  proof (cases "w_type w = Soldier")
    case False
    then have "r = [w] @ fst (combatUpdate ws invs)"
      by (simp add: r_def split: prod.splits)
    then show ?thesis by blast
  next
    case True
    have "(\<exists>invs'. r = [] @ fst (combatUpdate ws invs'))
        \<or> (\<exists>w' invs'. r = [w'] @ fst (combatUpdate ws invs') \<and> w_type w' = Soldier)"
    proof (cases "findNearestInvader invs (gridX w) (gridZ w) (Some SOLDIER_ENGAGE_RANGE)")
      case None
      then have "r = [w] @ fst (combatUpdate ws invs)"
        using True by (simp add: r_def split: prod.splits)
      then show ?thesis using True by blast
    next
      case (Some i)
      define t1 where "t1 = (invs ! i)\<lparr>inv_hp := inv_hp (invs ! i) - SOLDIER_DAMAGE\<rparr>"
      define w1 where "w1 = w\<lparr>w_hp := w_hp w - damage t1\<rparr>"
      define t2 where "t2 = (if inv_hp t1 \<le> 0 then t1\<lparr>inv_state := Dead\<rparr> else t1)"
      show ?thesis
      proof (cases "\<bar>gridX w - inv_x (invs ! i)\<bar> + \<bar>gridZ w - inv_z (invs ! i)\<bar> \<le> 1")
        case False
        then have "r = [w] @ fst (combatUpdate ws invs)"
          using True Some by (simp add: r_def Let_def split: prod.splits)
        then show ?thesis using True by blast
      next
        case near: True
        have c: "r = (if w_hp w1 \<le> 0 then [] @ fst (combatUpdate ws (invs[i := t2]))
                      else [w1] @ fst (combatUpdate ws (invs[i := t2])))"
          using True Some near unfolding t1_def w1_def t2_def
          by (simp add: r_def Let_def split: prod.splits)
        have "w_type w1 = Soldier" using True by (simp add: w1_def)
        then show ?thesis using c by (cases "w_hp w1 \<le> 0") (simp, blast)+
      qed
    qed
    moreover have "filter (\<lambda>w. w_type w = ty) [w'] = filter (\<lambda>w. w_type w = ty) [w]"
      if "w_type w' = Soldier" for w'
      using that True Cons.prems by simp
    moreover have "filter (\<lambda>w. w_type w = ty) [] = filter (\<lambda>w. w_type w = ty) [w]"
      using True Cons.prems by simp
    ultimately show ?thesis by metis
  qed
  then obtain pre invs' where
    p: "r = pre @ fst (combatUpdate ws invs')"
      "filter (\<lambda>w. w_type w = ty) pre = filter (\<lambda>w. w_type w = ty) [w]" by blast
  have "filter (\<lambda>w. w_type w = ty) r = filter (\<lambda>w. w_type w = ty) (w # ws)"
    unfolding p(1) using p(2) Cons.IH[OF Cons.prems, of invs'] by simp
  then show ?case by (simp only: r_def)
qed

lemma buildingAt_age:
  "wf_grid g \<Longrightarrow> buildingAt (modTile ageTile c g) = buildingAt g"
proof (intro ext)
  fix px pz
  assume wf: "wf_grid g"
  show "buildingAt (modTile ageTile c g) px pz = buildingAt g px pz"
    unfolding buildingAt_def getTile_modTile[OF wf]
    by (cases "getTile g px pz") (simp_all add: ageTile_def Let_def)
qed

lemma isBuildingConnected_grid: "isBuildingConnected g = isBuildingConnected g'"
  by (intro ext) (simp add: isBuildingConnected_def)

lemma scan_lists:
  assumes "wf_grid g"
  shows "markets (snd (fold (scanCell reach) cs (g, acc)))
           = markets acc @ filter (\<lambda>c. buildingAt g (fst c) (snd c) = Some Market
                                        \<and> isBuildingConnected g (fst c) (snd c) 1 reach) cs
       \<and> wells (snd (fold (scanCell reach) cs (g, acc)))
           = wells acc @ filter (\<lambda>c. buildingAt g (fst c) (snd c) = Some Well
                                        \<and> isBuildingConnected g (fst c) (snd c) 1 reach) cs"
  using assms
proof (induction cs arbitrary: g acc)
  case Nil
  show ?case by simp
next
  case (Cons c cs)
  show ?case
  proof (cases "getTile g (fst c) (snd c)")
    case None
    then have "scanCell reach c (g, acc) = (g, acc)" by (simp add: scanCell_def)
    moreover have "buildingAt g (fst c) (snd c) = None" using None by (simp add: buildingAt_def)
    ultimately show ?thesis using Cons.IH[OF Cons.prems, of acc] by simp
  next
    case (Some tile)
    let ?g = "modTile ageTile c g"
    let ?a = "collectCell ?g reach c (building tile) acc"
    have sc: "scanCell reach c (g, acc) = (?g, ?a)" using Some by (simp add: scanCell_def Let_def)
    have wf: "wf_grid ?g" using Cons.prems by (rule wf_grid_modTile)
    have b: "buildingAt g (fst c) (snd c) = building tile" using Some by (simp add: buildingAt_def)
    have ic: "isBuildingConnected ?g = isBuildingConnected g" by (rule isBuildingConnected_grid)
    have m: "markets ?a = markets acc @ (if building tile = Some Market
                 \<and> isBuildingConnected g (fst c) (snd c) 1 reach then [c] else [])"
      and w: "wells ?a = wells acc @ (if building tile = Some Well
                 \<and> isBuildingConnected g (fst c) (snd c) 1 reach then [c] else [])"
      unfolding ic collectCell_def Let_def by auto
    have ih: "markets (snd (fold (scanCell reach) cs (?g, ?a)))
           = markets ?a @ filter (\<lambda>c. buildingAt g (fst c) (snd c) = Some Market
                                        \<and> isBuildingConnected g (fst c) (snd c) 1 reach) cs
       \<and> wells (snd (fold (scanCell reach) cs (?g, ?a)))
           = wells ?a @ filter (\<lambda>c. buildingAt g (fst c) (snd c) = Some Well
                                        \<and> isBuildingConnected g (fst c) (snd c) 1 reach) cs"
      using Cons.IH[OF wf, of ?a] unfolding buildingAt_age[OF Cons.prems] ic .
    show ?thesis
      using ih by (simp add: sc m w b)
  qed
qed

lemma scanGrid_lists:
  assumes "wf_grid g"
  shows "markets (snd (scanGrid reach g)) = connectedCells g reach Market"
    "wells (snd (scanGrid reach g)) = connectedCells g reach Well"
  using scan_lists[OF assms, of reach allCells emptyScan]
  by (simp_all add: scanGrid_def connectedCells_def emptyScan_def)

lemma productionStep_unfold:
  assumes "productionStep s rng = (s3, acc, rng1)"
  shows "acc = snd (scanGrid (snd (roadState s)) (fst (roadState s)))"
    "grid s3 = fst (scanGrid (snd (roadState s)) (fst (roadState s)))"
    "walkers s3 = walkerTick (fst (spawnAll (tickCount s + 1) (food (resources s3)) (grid s3) acc (walkers s, rng)))"
    "food (resources s3) = food (resources s) + of_int (foodProduction acc)
         - of_int (population (resources s)) * FOOD_PER_POP"
  using assms
  by (auto simp: productionStep_def roadState_def Let_def rebuildRoadNetwork_def split: prod.splits if_splits)

lemma roadState_wf: "wf_grid (grid s) \<Longrightarrow> wf_grid (fst (roadState s))"
  using stage_wf[OF stage_cleanGhostTiles, of "grid s" "buildingSystem s"]
  by (simp add: roadState_def)

lemma roadState_step:
  assumes "roadsDirty s \<or> (\<forall>c\<in>reachableRoads s. isRoadOrForum (grid s) c)"
  shows "\<forall>c\<in>snd (roadState s). isRoadOrForum (fst (roadState s)) c"
  using assms rebuild_reach[of s] by (auto simp: roadState_def)

lemma isRoadOrForum_scan:
  assumes "wf_grid g"
  shows "isRoadOrForum (fst (scanGrid reach g)) c = isRoadOrForum g c"
proof -
  have "map_option (\<lambda>t. (building t, buildingHp t)) (getTile (fst (scanGrid reach g)) (fst c) (snd c))
      = map_option (\<lambda>t. (building t, buildingHp t)) (getTile g (fst c) (snd c))"
    by (rule stage_core[OF stage_scanGrid assms])
  then show ?thesis
    unfolding isRoadOrForum_def
    by (cases "getTile (fst (scanGrid reach g)) (fst c) (snd c)"; cases "getTile g (fst c) (snd c)") auto
qed

lemma connected_served:
  assumes "\<forall>c\<in>reach. isRoadOrForum g c" "isBuildingConnected g0 px pz 1 reach"
  shows "getAdjacentRoadTiles g px pz 1 \<noteq> []"
proof -
  have "footprint px pz 1 = [(px, pz)]" by (simp add: footprint_def offsets_def)
  with assms(2) obtain nb where nb: "nb \<in> set (neighborsOf px pz)" "nb \<in> reach"
    by (auto simp: isBuildingConnected_def list_ex_iff)
  with assms(1) have "isRoadOrForum g nb" by simp
  with nb(1) show ?thesis by (rule adjacent_road)
qed

lemma connected_all_served:
  assumes "\<forall>c\<in>reach. isRoadOrForum g c"
  shows "filter (\<lambda>c. getAdjacentRoadTiles g (fst c) (snd c) 1 \<noteq> []) (connectedCells g0 reach ty)
           = connectedCells g0 reach ty"
  unfolding filter_id_conv connectedCells_def
  using connected_served[OF assms] by auto

lemma economyStep_walkers:
  "walkers (economyStep s ts res) = fst (combatUpdate (walkers s) (invaders (invasionSystem s)))"
  "food (resources (economyStep s ts res)) = food (resources s)"
  by (simp_all add: economyStep_def Let_def adjustPopulation_def split: prod.splits)

text \<open>
  Claim C9. A tick of a game that is not over, on a well-formed grid whose reachable set
  holds only road and forum tiles unless the road network is marked dirty, returns. The
  walkers of every type but soldiers in the state it returns are those of before that the
  ageing step keeps, followed by the walkers spawned in the tick. When the incremented
  tick count is a multiple of the well interval 4, the water walkers spawned are one for
  each well connected to the road network, in scan order, whatever the resources are; on
  any other tick none is spawned. When the incremented tick count is a multiple of the
  market interval 4 and the food stock the tick leaves is positive, the food walkers
  spawned are one for each connected market; otherwise none is spawned. The food stock
  the tick leaves is the stock of before plus the production of the scan less half a
  unit for each inhabitant.
\<close>

theorem spawn_gating:
  assumes "\<not> gameOver s" and "wf_grid (grid s)"
    and "roadsDirty s \<or> (\<forall>c\<in>reachableRoads s. isRoadOrForum (grid s) c)"
  shows "\<exists>s' rng' new.
      simulationTick s rng = Some (s', rng')
      \<and> (\<forall>ty. ty \<noteq> Soldier \<longrightarrow>
            filter (\<lambda>w. w_type w = ty) (walkers s')
              = filter (\<lambda>w. w_type w = ty) (walkerTick (walkers s) @ new))
      \<and> homesOf Water new
          = (if (tickCount s + 1) mod WELL_SPAWN_INTERVAL = 0
             then connectedCells (fst (roadState s)) (snd (roadState s)) Well else [])
      \<and> homesOf Food new
          = (if (tickCount s + 1) mod MARKET_SPAWN_INTERVAL = 0 \<and> 0 < food (resources s')
             then connectedCells (fst (roadState s)) (snd (roadState s)) Market else [])
      \<and> food (resources s')
          = food (resources s)
            + of_int (foodProduction (snd (scanGrid (snd (roadState s)) (fst (roadState s)))))
            - of_int (population (resources s)) * FOOD_PER_POP"
proof -
  let ?g2 = "fst (roadState s)" and ?reach = "snd (roadState s)"
  obtain s3 acc rng1 where p: "productionStep s rng = (s3, acc, rng1)"
    by (cases "productionStep s rng") auto
  note u = productionStep_unfold[OF p]
  have wf2: "wf_grid ?g2" using assms(2) by (rule roadState_wf)
  have step3: "\<forall>c\<in>?reach. isRoadOrForum (grid s3) c"
    unfolding u(2) isRoadOrForum_scan[OF wf2] using roadState_step[OF assms(3)] .
  have lists: "wells acc = connectedCells ?g2 ?reach Well" "markets acc = connectedCells ?g2 ?reach Market"
    unfolding u(1) using scanGrid_lists[OF wf2] by simp_all
  obtain new0 rng0 where
    sp: "spawnAll (tickCount s + 1) (food (resources s3)) (grid s3) acc (walkers s, rng) = (walkers s @ new0, rng0)"
    and life: "\<forall>w\<in>set new0. lifespan w = WALKER_LIFESPAN"
    and hw: "homesOf Water new0
          = (if (tickCount s + 1) mod WELL_SPAWN_INTERVAL = 0
             then filter (\<lambda>c. getAdjacentRoadTiles (grid s3) (fst c) (snd c) 1 \<noteq> []) (wells acc) else [])"
    and hf: "homesOf Food new0
          = (if (tickCount s + 1) mod MARKET_SPAWN_INTERVAL = 0 \<and> 0 < food (resources s3)
             then filter (\<lambda>c. getAdjacentRoadTiles (grid s3) (fst c) (snd c) 1 \<noteq> []) (markets acc) else [])"
    using spawnAll_new[of "tickCount s + 1" "food (resources s3)" "grid s3" acc "walkers s" rng] by blast
  define new where "new = walkerTick new0"
  have w3: "walkers s3 = walkerTick (walkers s) @ new"
    unfolding u(3) sp new_def by (simp add: walkerTick_append)
  have hw': "homesOf Water new
          = (if (tickCount s + 1) mod WELL_SPAWN_INTERVAL = 0 then connectedCells ?g2 ?reach Well else [])"
    unfolding new_def walkerTick_new[OF life] hw lists connected_all_served[OF step3] ..
  have hf': "homesOf Food new
          = (if (tickCount s + 1) mod MARKET_SPAWN_INTERVAL = 0 \<and> 0 < food (resources s3)
             then connectedCells ?g2 ?reach Market else [])"
    unfolding new_def walkerTick_new[OF life] hf lists connected_all_served[OF step3] ..
  obtain result sys g' rng2 where
    i: "invasionTick (invasionSystem s3) (grid s3) rng1 = Some (result, sys, g', rng2)"
    using invasionTick_total[of "invasionSystem s3" "grid s3" rng1] by (metis prod_cases4)
  define s' where "s' = (if flagged result then handleGameOver (s3\<lparr>invasionSystem := sys, grid := g'\<rparr>)
           else economyStep (s3\<lparr>invasionSystem := sys, grid := g'\<rparr>) (towers acc) result)"
  have t: "simulationTick s rng = Some (s', rng2)"
    unfolding s'_def by (rule simulationTick_step[OF assms(1) p i])
  have fd: "food (resources s') = food (resources s3)"
    by (simp add: s'_def handleGameOver_def economyStep_walkers(2))
  have ws: "filter (\<lambda>w. w_type w = ty) (walkers s') = filter (\<lambda>w. w_type w = ty) (walkers s3)"
    if "ty \<noteq> Soldier" for ty
    using combat_keeps[OF that] by (simp add: s'_def handleGameOver_def economyStep_walkers(1))
  show ?thesis
  proof (intro exI conjI allI impI)
    show "simulationTick s rng = Some (s', rng2)" by (rule t)
    show "filter (\<lambda>w. w_type w = ty) (walkers s') = filter (\<lambda>w. w_type w = ty) (walkerTick (walkers s) @ new)"
      if "ty \<noteq> Soldier" for ty
      using ws[OF that] unfolding w3 .
    show "homesOf Water new
          = (if (tickCount s + 1) mod WELL_SPAWN_INTERVAL = 0 then connectedCells ?g2 ?reach Well else [])"
      by (rule hw')
    show "homesOf Food new
          = (if (tickCount s + 1) mod MARKET_SPAWN_INTERVAL = 0 \<and> 0 < food (resources s')
             then connectedCells ?g2 ?reach Market else [])"
      unfolding fd by (rule hf')
    show "food (resources s')
          = food (resources s) + of_int (foodProduction (snd (scanGrid ?reach ?g2)))
            - of_int (population (resources s)) * FOOD_PER_POP"
      unfolding fd u(4) u(1) ..
  qed
qed

lemma filter_single:
  assumes "distinct xs" "x \<in> set xs" "P x" "\<forall>y\<in>set xs. P y \<longrightarrow> y = x"
  shows "filter P xs = [x]"
  using assms
proof (induction xs)
  case Nil
  from Nil.prems(2) show ?case by simp
next
  case (Cons a xs)
  show ?case
  proof (cases "a = x")
    case True
    have "x \<notin> set xs" using Cons.prems(1) True by simp
    then have "\<forall>y\<in>set xs. \<not> P y" using Cons.prems(4) by auto
    then have "filter P xs = []" by (simp add: filter_empty_conv)
    then show ?thesis using True Cons.prems(3) by simp
  next
    case False
    then have "\<not> P a" using Cons.prems(4) by auto
    moreover have "filter P xs = [x]"
    proof (rule Cons.IH)
      show "distinct xs" using Cons.prems(1) by simp
      show "x \<in> set xs" using Cons.prems(2) False by simp
      show "P x" by (rule Cons.prems(3))
      show "\<forall>y\<in>set xs. P y \<longrightarrow> y = x" using Cons.prems(4) by simp
    qed
    ultimately show ?thesis by simp
  qed
qed

lemma fold_union_mem: "c \<in> set cs \<Longrightarrow> f c \<subseteq> fold (\<lambda>c acc. acc \<union> f c) cs A"
proof (induction cs arbitrary: A)
  case Nil
  then show ?case by simp
next
  case (Cons a cs)
  have mono: "B \<subseteq> fold (\<lambda>c acc. acc \<union> f c) ds B" for ds B
  proof (induction ds arbitrary: B)
    case Nil
    show ?case by simp
  next
    case (Cons d ds)
    have "B \<subseteq> B \<union> f d" by simp
    also have "\<dots> \<subseteq> fold (\<lambda>c acc. acc \<union> f c) ds (B \<union> f d)" by (rule Cons.IH)
    finally show ?case by simp
  qed
  show ?case
  proof (cases "c = a")
    case True
    then show ?thesis using mono[of "A \<union> f a" cs] by auto
  next
    case False
    then show ?thesis using Cons by simp
  qed
qed

lemma scan_food_none:
  assumes "wf_grid g" "\<forall>px pz. buildingAt g px pz \<noteq> Some Farm"
  shows "foodProduction (snd (fold (scanCell reach) cs (g, acc))) = foodProduction acc"
  using assms
proof (induction cs arbitrary: g acc)
  case Nil
  show ?case by simp
next
  case (Cons c cs)
  show ?case
  proof (cases "getTile g (fst c) (snd c)")
    case None
    then have "scanCell reach c (g, acc) = (g, acc)" by (simp add: scanCell_def)
    then show ?thesis using Cons.IH[OF Cons.prems, of acc] by simp
  next
    case (Some tile)
    let ?g = "modTile ageTile c g"
    let ?a = "collectCell ?g reach c (building tile) acc"
    have sc: "scanCell reach c (g, acc) = (?g, ?a)" using Some by (simp add: scanCell_def Let_def)
    have wf: "wf_grid ?g" using Cons.prems(1) by (rule wf_grid_modTile)
    have nf: "\<forall>px pz. buildingAt ?g px pz \<noteq> Some Farm"
      unfolding buildingAt_age[OF Cons.prems(1)] by (rule Cons.prems(2))
    have "building tile \<noteq> Some Farm"
      using Cons.prems(2) Some by (auto simp: buildingAt_def split: option.splits)
    then have "foodProduction ?a = foodProduction acc" by (simp add: collectCell_def Let_def)
    then show ?thesis using Cons.IH[OF wf nf, of ?a] sc by simp
  qed
qed

lemma town_fields:
  "\<not> gameOver (townGame fd)" "roadsDirty (townGame fd)" "tickCount (townGame fd) = 3"
  "walkers (townGame fd) = []" "food (resources (townGame fd)) = fd"
  "population (resources (townGame fd)) = 0"
  "wf_grid (grid (townGame fd))"
  "forumPos (townGame fd) = (15, 15)"
  "buildingSystem (townGame fd) = [\<lparr>pb_type = Forum, pb_x = 15, pb_z = 15\<rparr>,
      \<lparr>pb_type = Well, pb_x = 14, pb_z = 15\<rparr>, \<lparr>pb_type = Market, pb_x = 15, pb_z = 14\<rparr>]"
  "buildingAt (grid (townGame fd)) px pz =
     (if (px, pz) = (15, 14) then Some Market else if (px, pz) = (14, 15) then Some Well
      else if (px, pz) \<in> set (footprint 15 15 2) then Some Forum else None)"
  "isInBounds (grid (townGame fd)) px pz \<longleftrightarrow> 0 \<le> px \<and> px < 32 \<and> 0 \<le> pz \<and> pz < 32"
proof -
  let ?g0 = "new_Grid GRID_SIZE"
  let ?g1 = "fold (modTile (markTile Forum)) (footprint 15 15 2) ?g0"
  let ?g2 = "fold (modTile (markTile Well)) (footprint 14 15 1) ?g1"
  let ?g3 = "fold (modTile (markTile Market)) (footprint 15 14 1) ?g2"
  let ?bs0 = "[\<lparr>pb_type = Forum, pb_x = 15, pb_z = 15\<rparr>]"
  have w0: "wf_grid ?g0" by (simp add: wf_grid_new_Grid GRID_SIZE_def)
  have w1: "wf_grid ?g1" using w0 by (rule wf_grid_fold_modTile)
  have w2: "wf_grid ?g2" using w1 by (rule wf_grid_fold_modTile)
  have w3: "wf_grid ?g3" using w2 by (rule wf_grid_fold_modTile)
  have ib: "isInBounds ?g0 x z \<longleftrightarrow> 0 \<le> x \<and> x < 32 \<and> 0 \<le> z \<and> z < 32" for x z
    by (simp add: isInBounds_def new_Grid_def GRID_SIZE_def)
  have f1: "set (footprint x z 1) = {(x, z)}" for x z :: int
    by (auto simp: set_footprint)
  have b1: "buildingAt ?g1 x z = (if (x, z) \<in> set (footprint 15 15 2) then Some Forum else None)" for x z
    unfolding buildingAt_marked[OF w0] by (auto simp: buildingAt_new_Grid ib set_footprint)
  have b2: "buildingAt ?g2 x z = (if (x, z) = (14, 15) then Some Well
              else if (x, z) \<in> set (footprint 15 15 2) then Some Forum else None)" for x z
    unfolding buildingAt_marked[OF w1] b1 f1 by (auto simp: ib)
  have b3: "buildingAt ?g3 x z = (if (x, z) = (15, 14) then Some Market else if (x, z) = (14, 15) then Some Well
              else if (x, z) \<in> set (footprint 15 15 2) then Some Forum else None)" for x z
    unfolding buildingAt_marked[OF w2] b2 f1 by (auto simp: ib)
  have c1: "canPlace ?g1 Well 14 15"
    unfolding canPlace_buildingAt b1 by (auto simp: ib set_footprint)
  have c2: "canPlace ?g2 Market 15 14"
    unfolding canPlace_buildingAt b2 by (auto simp: ib set_footprint)
  have p1: "place ?bs0 ?g1 Well 14 15 500
          = (True, ?bs0 @ [\<lparr>pb_type = Well, pb_x = 14, pb_z = 15\<rparr>], ?g2, 480)"
    using c1 by (simp add: place_def Let_def)
  have p2: "place bs ?g2 Market 15 14 480 = (True, bs @ [\<lparr>pb_type = Market, pb_x = 15, pb_z = 14\<rparr>], ?g3, 400)" for bs
    using c2 by (simp add: place_def Let_def)
  have t: "townGame fd = (start new_Game)\<lparr>buildingSystem := ?bs0 @ [\<lparr>pb_type = Well, pb_x = 14, pb_z = 15\<rparr>]
                 @ [\<lparr>pb_type = Market, pb_x = 15, pb_z = 14\<rparr>],
             grid := ?g3, resources := (resources (start new_Game))\<lparr>gold := 400, food := fd\<rparr>,
             roadsDirty := True, tickCount := 3\<rparr>"
    unfolding townGame_def Let_def start_fields(1,5,6) by (simp add: p1 p2)
  show "\<not> gameOver (townGame fd)" unfolding t using start_fields(3) by simp
  show "roadsDirty (townGame fd)" "tickCount (townGame fd) = 3" unfolding t by simp_all
  show "walkers (townGame fd) = []" unfolding t by (simp add: start_fields(7))
  show "food (resources (townGame fd)) = fd" unfolding t by simp
  show "population (resources (townGame fd)) = 0" unfolding t by (simp add: start_fields(6))
  show "wf_grid (grid (townGame fd))" unfolding t using w3 by simp
  show "forumPos (townGame fd) = (15, 15)" unfolding t by (simp add: start_fields(4))
  show "buildingSystem (townGame fd) = [\<lparr>pb_type = Forum, pb_x = 15, pb_z = 15\<rparr>,
      \<lparr>pb_type = Well, pb_x = 14, pb_z = 15\<rparr>, \<lparr>pb_type = Market, pb_x = 15, pb_z = 14\<rparr>]"
    unfolding t by simp
  show "buildingAt (grid (townGame fd)) px pz =
     (if (px, pz) = (15, 14) then Some Market else if (px, pz) = (14, 15) then Some Well
      else if (px, pz) \<in> set (footprint 15 15 2) then Some Forum else None)"
    unfolding t using b3 by simp
  show "isInBounds (grid (townGame fd)) px pz \<longleftrightarrow> 0 \<le> px \<and> px < 32 \<and> 0 \<le> pz \<and> pz < 32"
    unfolding t by (simp add: ib)
qed

lemma town_roads:
  "fst (roadState (townGame fd)) = grid (townGame fd)"
  "(15, 15) \<in> snd (roadState (townGame fd))"
proof -
  let ?s = "townGame fd"
  have cov: "list_ex (covers px pz) (buildingSystem ?s)"
    if "getTile (grid ?s) px pz = Some t" "building t \<noteq> None" for px pz t
  proof -
    have "buildingAt (grid ?s) px pz \<noteq> None" using that by (simp add: buildingAt_def)
    then show ?thesis
      unfolding town_fields(9,10)
      by (auto simp: covers_def Let_def set_footprint split: if_splits)
  qed
  have cg: "cleanGhostTiles (buildingSystem ?s) (grid ?s) = grid ?s"
    by (rule cleanGhostTiles_id[OF cov])
  show "fst (roadState ?s) = grid ?s"
    using town_fields(2)[of fd] cg by (simp add: roadState_def)
  have rf: "isRoadOrForum (grid ?s) (15, 15)"
    using town_fields(10)[of fd 15 15]
    by (auto simp: isRoadOrForum_def buildingAt_def set_footprint split: option.splits)
  have "(15, 15) \<in> floodFillRoads (grid ?s) 15 15"
    by (rule floodFill_start[OF _ rf]) (simp add: town_fields(11))
  moreover have "(15, 15) \<in> set (footprint 15 15 (bsize (BUILDINGS Forum)))"
    by (simp add: set_footprint)
  ultimately have "(15, 15) \<in> fold (\<lambda>c acc. acc \<union> floodFillRoads (grid ?s) (fst c) (snd c))
                    (footprint 15 15 (bsize (BUILDINGS Forum))) {}"
    using fold_union_mem[of "(15, 15)" "footprint 15 15 (bsize (BUILDINGS Forum))"
        "\<lambda>c. floodFillRoads (grid ?s) (fst c) (snd c)" "{}"] by auto
  then show "(15, 15) \<in> snd (roadState ?s)"
    using town_fields(2)[of fd] cg
    by (simp add: roadState_def rebuildRoadNetwork_def Let_def town_fields(8))
qed

lemma town_connected:
  "connectedCells (fst (roadState (townGame fd))) (snd (roadState (townGame fd))) Well = [(14, 15)]"
  "connectedCells (fst (roadState (townGame fd))) (snd (roadState (townGame fd))) Market = [(15, 14)]"
proof -
  let ?g = "grid (townGame fd)" and ?reach = "snd (roadState (townGame fd))"
  have f1: "footprint x z 1 = [(x, z)]" for x z :: int by (simp add: footprint_def offsets_def)
  have cw: "isBuildingConnected ?g 14 15 1 ?reach"
    using town_roads(2)[of fd] by (simp add: isBuildingConnected_def f1 neighborsOf_def NEIGHBORS_def)
  have cm: "isBuildingConnected ?g 15 14 1 ?reach"
    using town_roads(2)[of fd] by (simp add: isBuildingConnected_def f1 neighborsOf_def NEIGHBORS_def)
  show "connectedCells (fst (roadState (townGame fd))) ?reach Well = [(14, 15)]"
    unfolding town_roads(1) connectedCells_def
  proof (rule filter_single[OF distinct_allCells])
    show "(14, 15) \<in> set allCells" by (simp add: in_allCells)
    show "buildingAt ?g (fst (14, 15)) (snd (14, 15)) = Some Well
          \<and> isBuildingConnected ?g (fst (14, 15)) (snd (14, 15)) 1 ?reach"
      using cw by (simp add: town_fields(10))
    show "\<forall>y\<in>set allCells. buildingAt ?g (fst y) (snd y) = Some Well
            \<and> isBuildingConnected ?g (fst y) (snd y) 1 ?reach \<longrightarrow> y = (14, 15)"
      by (auto simp: town_fields(10) split: if_splits)
  qed
  show "connectedCells (fst (roadState (townGame fd))) ?reach Market = [(15, 14)]"
    unfolding town_roads(1) connectedCells_def
  proof (rule filter_single[OF distinct_allCells])
    show "(15, 14) \<in> set allCells" by (simp add: in_allCells)
    show "buildingAt ?g (fst (15, 14)) (snd (15, 14)) = Some Market
          \<and> isBuildingConnected ?g (fst (15, 14)) (snd (15, 14)) 1 ?reach"
      using cm by (simp add: town_fields(10))
    show "\<forall>y\<in>set allCells. buildingAt ?g (fst y) (snd y) = Some Market
            \<and> isBuildingConnected ?g (fst y) (snd y) 1 ?reach \<longrightarrow> y = (15, 14)"
      by (auto simp: town_fields(10) split: if_splits)
  qed
qed

lemma town_food:
  "foodProduction (snd (scanGrid (snd (roadState (townGame fd))) (fst (roadState (townGame fd))))) = 0"
  unfolding town_roads(1) scanGrid_def
  using scan_food_none[OF town_fields(7), of fd _ allCells emptyScan]
  by (simp add: town_fields(10) emptyScan_def)

theorem spawn_gating_witness:
  "\<not> gameOver (townGame 0) \<and> wf_grid (grid (townGame 0)) \<and> roadsDirty (townGame 0)
   \<and> \<not> gameOver (townGame 10) \<and> wf_grid (grid (townGame 10)) \<and> roadsDirty (townGame 10)
   \<and> (\<exists>s' rng'. simulationTick (townGame 0) noDraws = Some (s', rng')
          \<and> food (resources s') = 0
          \<and> homesOf Water (walkers s') = [(14, 15)]
          \<and> homesOf Food (walkers s') = [])
   \<and> (\<exists>s' rng'. simulationTick (townGame 10) noDraws = Some (s', rng')
          \<and> food (resources s') = 10
          \<and> homesOf Water (walkers s') = [(14, 15)]
          \<and> homesOf Food (walkers s') = [(15, 14)])"
proof -
  have tick: "\<exists>s' rng'. simulationTick (townGame fd) noDraws = Some (s', rng')
          \<and> food (resources s') = fd
          \<and> homesOf Water (walkers s') = [(14, 15)]
          \<and> homesOf Food (walkers s') = (if 0 < fd then [(15, 14)] else [])" for fd
  proof -
    have st: "roadsDirty (townGame fd) \<or> (\<forall>c\<in>reachableRoads (townGame fd). isRoadOrForum (grid (townGame fd)) c)"
      using town_fields(2) by simp
    from spawn_gating[OF town_fields(1) town_fields(7) st, of noDraws]
    obtain s' rng' new where
      t: "simulationTick (townGame fd) noDraws = Some (s', rng')"
      and w: "\<forall>ty. ty \<noteq> Soldier \<longrightarrow>
            filter (\<lambda>w. w_type w = ty) (walkers s')
              = filter (\<lambda>w. w_type w = ty) (walkerTick (walkers (townGame fd)) @ new)"
      and hw: "homesOf Water new = [(14, 15)]"
      and hf: "homesOf Food new = (if 0 < food (resources s') then [(15, 14)] else [])"
      and f: "food (resources s') = fd"
      unfolding town_connected town_food town_fields(3,5,6)
      by (auto simp: WELL_SPAWN_INTERVAL_def MARKET_SPAWN_INTERVAL_def)
    have "homesOf Water (walkers s') = homesOf Water new" "homesOf Food (walkers s') = homesOf Food new"
      using w by (simp_all add: homesOf_def town_fields(4) walkerTick_def)
    with t hw hf f show ?thesis by auto
  qed
  from tick[of 0] tick[of 10] show ?thesis
    using town_fields(1,2,7) by simp
qed









lemma covers_append: "list_ex (covers px pz) bs \<Longrightarrow> list_ex (covers px pz) (bs @ bs')"
  by (auto simp: list_ex_iff)












end
